(* ===== verification/KV_Prelude.thy ===== *)
theory KV_Prelude
  imports Main "HOL-Library.Word" "HOL-Library.Multiset"
begin

text \<open>
  Shared vocabulary of the development: the machine types, the return codes, C strings, and the
  generic facts on lists that the components use. \<open>find\<close>, \<open>drop_first\<close> and \<open>update_first\<close> are
  the three ways the code walks a list to its first matching element: to look at it, to unlink
  it (\<open>LIST_REMOVE\<close>) and to write through a pointer to it.
\<close>

unbundle bit_operations_syntax

section \<open>Types and return codes\<close>

type_synonym byte = "8 word"
type_synonym u16 = "16 word"
type_synonym u32 = "32 word"
type_synonym u64 = "64 word"

text \<open>A \<open>const char*\<close> argument: \<open>None\<close> is the NULL pointer.\<close>

type_synonym cstr = "string option"

definition KVTREE_SUCCESS :: int where
  "KVTREE_SUCCESS = 0"

definition KVTREE_FAILURE :: int where
  "KVTREE_FAILURE = 1"

lemma rc_distinct [simp]: "KVTREE_SUCCESS \<noteq> KVTREE_FAILURE" "KVTREE_FAILURE \<noteq> KVTREE_SUCCESS"
  by (simp_all add: KVTREE_SUCCESS_def KVTREE_FAILURE_def)

text \<open>The contents of a NUL-terminated string hold no NUL character.\<close>

definition is_cstring :: "string \<Rightarrow> bool" where
  "is_cstring s \<longleftrightarrow> (\<forall>c \<in> set s. c \<noteq> CHR 0x00)"

lemma is_cstring_simps [simp]:
  "is_cstring []"
  "is_cstring (c # s) \<longleftrightarrow> c \<noteq> CHR 0x00 \<and> is_cstring s"
  "is_cstring (s @ t) \<longleftrightarrow> is_cstring s \<and> is_cstring t"
  by (auto simp: is_cstring_def)

section \<open>Named collections\<close>

named_theorems kv_wf \<open>operations keep the well-formedness invariant\<close>
named_theorems kv_abs \<open>operations refine their path-set specification\<close>

section \<open>First matches in lists\<close>

fun drop_first :: "('a \<Rightarrow> bool) \<Rightarrow> 'a list \<Rightarrow> 'a list" where
  "drop_first P [] = []"
| "drop_first P (x # xs) = (if P x then xs else x # drop_first P xs)"

fun update_first :: "('a \<Rightarrow> bool) \<Rightarrow> ('a \<Rightarrow> 'a) \<Rightarrow> 'a list \<Rightarrow> 'a list" where
  "update_first P f [] = []"
| "update_first P f (x # xs) = (if P x then f x # xs else x # update_first P f xs)"

lemma find_mem: "find P xs = Some x \<Longrightarrow> x \<in> set xs \<and> P x"
  by (induction xs) (auto split: if_splits)

lemma drop_first_none: "find P xs = None \<Longrightarrow> drop_first P xs = xs"
  by (induction xs) (auto split: if_splits)

lemma update_first_none: "find P xs = None \<Longrightarrow> update_first P f xs = xs"
  by (induction xs) (auto split: if_splits)

lemma mset_drop_first: "find P xs = Some x \<Longrightarrow> mset xs = add_mset x (mset (drop_first P xs))"
  by (induction xs) (auto split: if_splits)

lemma set_drop_first_subset: "set (drop_first P xs) \<subseteq> set xs"
  by (induction xs) auto

lemma set_drop_first: "find P xs = Some x \<Longrightarrow> set xs = insert x (set (drop_first P xs))"
  by (induction xs) (auto split: if_splits)

lemma length_drop_first: "find P xs = Some x \<Longrightarrow> length xs = Suc (length (drop_first P xs))"
  by (induction xs) (auto split: if_splits)

lemma find_drop_first_other:
  "(\<And>x. P x \<Longrightarrow> \<not> Q x) \<Longrightarrow> find Q (drop_first P xs) = find Q xs"
  by (induction xs) auto

lemma length_update_first [simp]: "length (update_first P f xs) = length xs"
  by (induction xs) auto

lemma find_update_first_other:
  "(\<And>x. P x \<Longrightarrow> \<not> Q x \<and> \<not> Q (f x)) \<Longrightarrow> find Q (update_first P f xs) = find Q xs"
  by (induction xs) auto

lemma find_update_first_same:
  "(\<And>x. P x \<Longrightarrow> P (f x)) \<Longrightarrow> find P (update_first P f xs) = map_option f (find P xs)"
  by (induction xs) auto

lemma update_first_update_first:
  "(\<And>x. P x \<Longrightarrow> P (f x)) \<Longrightarrow> update_first P g (update_first P f xs) = update_first P (\<lambda>x. g (f x)) xs"
  by (induction xs) auto

lemma update_first_id: "(\<And>x. find P xs = Some x \<Longrightarrow> f x = x) \<Longrightarrow> update_first P f xs = xs"
  by (induction xs) auto

lemma update_first_cong:
  "(\<And>x. find P xs = Some x \<Longrightarrow> f x = g x) \<Longrightarrow> update_first P f xs = update_first P g xs"
  by (induction xs) auto

lemma map_update_first:
  "(\<And>x. P x \<Longrightarrow> g (f x) = g x) \<Longrightarrow> map g (update_first P f xs) = map g xs"
  by (induction xs) auto

lemma ball_update_first:
  "(\<And>x. x \<in> set xs \<Longrightarrow> Q x) \<Longrightarrow> (\<And>x. x \<in> set xs \<Longrightarrow> P x \<Longrightarrow> Q (f x)) \<Longrightarrow>
     y \<in> set (update_first P f xs) \<Longrightarrow> Q y"
  by (induction xs) (auto split: if_splits)

lemma distinct_map_drop_first: "distinct (map g xs) \<Longrightarrow> distinct (map g (drop_first P xs))"
  by (induction xs) (use set_drop_first_subset in \<open>fastforce split: if_splits\<close>)+

lemma remove1_find: "find P xs = Some x \<Longrightarrow> remove1 x xs = drop_first P xs"
  by (induction xs) (auto split: if_splits dest: find_mem)

lemma find_drop_first_distinct:
  assumes "distinct (map g xs)" and "\<And>x y. P x \<Longrightarrow> P y \<Longrightarrow> g x = g y"
  shows "find P (drop_first P xs) = None"
  using assms(1)
proof (induction xs)
  case (Cons a xs)
  show ?case
  proof (cases "P a")
    case True
    have "\<not> P x" if "x \<in> set xs" for x
      using that True Cons.prems assms(2) [of x a] by (auto simp: image_iff)
    with True show ?thesis by (auto simp: find_None_iff)
  qed (use Cons in simp)
qed simp

lemma fold_count: "fold (\<lambda>_ n. n + 1) xs (m :: int) = m + int (length xs)"
  by (induction xs arbitrary: m) auto

section \<open>The dictionary interface\<close>

text \<open>
  What \<open>kvtree_get\<close>, \<open>kvtree_set\<close> and \<open>kvtree_unset\<close> promise their callers: a lookup sees the
  last write to its key and no other key is disturbed. A sequence of writes then behaves as the
  same sequence of updates of a map.
\<close>

datatype ('k, 'v) dict_op = DSet 'k "'v option" | DUnset 'k

fun dict_apply :: "('m \<Rightarrow> 'k \<Rightarrow> 'v option \<Rightarrow> 'm) \<Rightarrow> ('m \<Rightarrow> 'k \<Rightarrow> 'm) \<Rightarrow> ('k, 'v) dict_op \<Rightarrow> 'm \<Rightarrow> 'm" where
  "dict_apply put del (DSet k v) m = put m k v"
| "dict_apply put del (DUnset k) m = del m k"

fun map_apply :: "('k, 'v) dict_op \<Rightarrow> ('k \<rightharpoonup> 'v) \<Rightarrow> ('k \<rightharpoonup> 'v)" where
  "map_apply (DSet k v) m = m(k := v)"
| "map_apply (DUnset k) m = m(k := None)"

fun dict_op_ok :: "('k \<Rightarrow> bool) \<Rightarrow> ('v option \<Rightarrow> bool) \<Rightarrow> ('k, 'v) dict_op \<Rightarrow> bool" where
  "dict_op_ok ok_key ok_val (DSet k v) \<longleftrightarrow> ok_key k \<and> ok_val v"
| "dict_op_ok ok_key ok_val (DUnset k) \<longleftrightarrow> True"

locale kv_dict =
  fixes get :: "'m \<Rightarrow> 'k \<Rightarrow> 'v option"
    and put :: "'m \<Rightarrow> 'k \<Rightarrow> 'v option \<Rightarrow> 'm"
    and del :: "'m \<Rightarrow> 'k \<Rightarrow> 'm"
    and inv :: "'m \<Rightarrow> bool"
    and ok_key :: "'k \<Rightarrow> bool"
    and ok_val :: "'v option \<Rightarrow> bool"
  assumes get_put: "inv m \<Longrightarrow> get (put m k v) k' = (if k' = k then v else get m k')"
    and get_del: "inv m \<Longrightarrow> get (del m k) k' = (if k' = k then None else get m k')"
    and inv_put: "inv m \<Longrightarrow> ok_key k \<Longrightarrow> ok_val v \<Longrightarrow> inv (put m k v)"
    and inv_del: "inv m \<Longrightarrow> inv (del m k)"
begin

lemma apply_refines:
  "inv m \<Longrightarrow> get (dict_apply put del op m) = map_apply op (get m)"
  by (cases op) (auto simp: get_put get_del fun_eq_iff)

lemma apply_inv: "inv m \<Longrightarrow> dict_op_ok ok_key ok_val op \<Longrightarrow> inv (dict_apply put del op m)"
  by (cases op) (auto simp: inv_put inv_del)

lemma run_refines:
  assumes "inv m" and "\<And>op. op \<in> set ops \<Longrightarrow> dict_op_ok ok_key ok_val op"
  shows "get (fold (dict_apply put del) ops m) = fold map_apply ops (get m)"
  using assms by (induction ops arbitrary: m) (simp_all add: apply_refines apply_inv)

lemma run_inv:
  assumes "inv m" and "\<And>op. op \<in> set ops \<Longrightarrow> dict_op_ok ok_key ok_val op"
  shows "inv (fold (dict_apply put del) ops m)"
  using assms by (induction ops arbitrary: m) (simp_all add: apply_inv)

end

section \<open>Sets of key paths\<close>

lemma Cons_image_mem [simp]: "k # p \<in> (#) k' ` A \<longleftrightarrow> k = k' \<and> p \<in> A"
  by auto

lemma Nil_Cons_image [simp]: "[] \<notin> (#) k ` A"
  by auto

end
