(* ===== verification/KV_Proc.thy ===== *)
theory KV_Proc
  imports KV_Prelude
begin

text \<open>
  The processes of an MPI job. The code of one rank is a value of type \<open>proc\<close>: local computation
  up to the next call of the communication library, and a continuation for what that call
  returns. A job is the processes of all ranks with the messages in flight; \<open>mpi_step\<close> lets any rank
  that can move do so, so its runs are all the interleavings.

  The library itself is not part of the sources. What it does between two ranks is the step
  relation, with the choice that the standard leaves open as the parameter \<open>eager\<close>: whether a send
  completes at once with its message buffered, or only together with the receive. The results of
  the collective calls are the parameter \<open>red\<close>; \<open>mpi_collectives\<close> is what the standard promises
  of it. Point-to-point calls name the rank they receive from, so a job has one outcome whatever
  the interleaving: every run can be completed to the same final state, in the same number of steps.
\<close>

section \<open>Processes\<close>

datatype mpi_msg = Mint int | Mints "int list" | Mulong u64 | Mbytes "byte list"

datatype coll = Bcast nat | Allreduce_max | Allreduce_land | Scan_sum

text \<open>
  \<open>Comm\<close> waits for at most one send and one receive that are posted together (\<open>MPI_Isend\<close>,
  \<open>MPI_Irecv\<close>, \<open>MPI_Waitall\<close>; \<open>MPI_Send\<close> and \<open>MPI_Recv\<close> when there is only one of them). \<open>Coll\<close> is
  a collective call with the contribution of this rank. \<open>Abort\<close> is the end of the process in
  \<open>kvtree_abort\<close> or in an access outside an allocation.
\<close>

datatype 'a proc =
    Ret 'a
  | Abort
  | Comm "(nat \<times> mpi_msg) option" "nat option" "mpi_msg option \<Rightarrow> 'a proc"
  | Coll coll mpi_msg "mpi_msg \<Rightarrow> 'a proc"

primrec seq :: "'a proc \<Rightarrow> ('a \<Rightarrow> 'b proc) \<Rightarrow> 'b proc" where
  "seq (Ret x) f = f x"
| "seq Abort f = Abort"
| "seq (Comm s r k) f = Comm s r (\<lambda>m. seq (k m) f)"
| "seq (Coll op m k) f = Coll op m (\<lambda>x. seq (k x) f)"

lemma seq_assoc [simp]: "seq (seq p f) g = seq p (\<lambda>x. seq (f x) g)"
  by (induction p) (simp_all add: fun_eq_iff)

lemma seq_Ret [simp]: "seq p Ret = p"
  by (induction p) (simp_all add: fun_eq_iff)

text \<open>A local computation that may fail.\<close>

definition lift :: "'a option \<Rightarrow> 'a proc" where
  "lift x = (case x of None \<Rightarrow> Abort | Some v \<Rightarrow> Ret v)"

lemma lift_simps [simp]: "lift None = Abort" "lift (Some v) = Ret v"
  by (simp_all add: lift_def)

section \<open>Jobs\<close>

record 'a job =
  procs :: "nat \<Rightarrow> 'a proc"
  chan :: "nat \<times> nat \<Rightarrow> mpi_msg list"

fun send_req :: "'a proc \<Rightarrow> (nat \<times> mpi_msg) option" where
  "send_req (Comm s r k) = s"
| "send_req p = None"

fun recv_req :: "'a proc \<Rightarrow> nat option" where
  "recv_req (Comm s r k) = r"
| "recv_req p = None"

text \<open>The effect of a completed send and of an arrived message on the process.\<close>

fun sent :: "'a proc \<Rightarrow> 'a proc" where
  "sent (Comm s r k) = Comm None r k"
| "sent p = p"

fun got :: "mpi_msg \<Rightarrow> 'a proc \<Rightarrow> 'a proc" where
  "got m (Comm s r k) = Comm s None (\<lambda>_. k (Some m))"
| "got m p = p"

fun coll_req :: "'a proc \<Rightarrow> coll option" where
  "coll_req (Coll op x k) = Some op"
| "coll_req p = None"

fun contribution :: "'a proc \<Rightarrow> mpi_msg" where
  "contribution (Coll op x k) = x"
| "contribution p = Mints []"

fun resume :: "mpi_msg \<Rightarrow> 'a proc \<Rightarrow> 'a proc" where
  "resume m (Coll op x k) = k m"
| "resume m p = p"

fun finished :: "'a proc \<Rightarrow> bool" where
  "finished (Comm None None k) \<longleftrightarrow> True"
| "finished p \<longleftrightarrow> False"

fun proceed :: "'a proc \<Rightarrow> 'a proc" where
  "proceed (Comm s r k) = k None"
| "proceed p = p"

datatype mpi_ev = Ev_send nat | Ev_recv nat | Ev_wait nat | Ev_coll

type_synonym policy = "nat \<Rightarrow> nat \<Rightarrow> mpi_msg \<Rightarrow> bool"
type_synonym reduction = "coll \<Rightarrow> mpi_msg list \<Rightarrow> nat \<Rightarrow> mpi_msg"

definition on_proc :: "nat \<Rightarrow> ('a proc \<Rightarrow> 'a proc) \<Rightarrow> 'a job \<Rightarrow> 'a job" where
  "on_proc p f j = j\<lparr>procs := (procs j)(p := f (procs j p))\<rparr>"

definition on_chan :: "nat \<times> nat \<Rightarrow> (mpi_msg list \<Rightarrow> mpi_msg list) \<Rightarrow> 'a job \<Rightarrow> 'a job" where
  "on_chan c f j = j\<lparr>chan := (chan j)(c := f (chan j c))\<rparr>"

text \<open>Messages between two ranks arrive in the order they were sent: a message is handed over directly
  only when none is buffered before it.\<close>

inductive mpi_step :: "nat \<Rightarrow> policy \<Rightarrow> reduction \<Rightarrow> mpi_ev \<Rightarrow> 'a job \<Rightarrow> 'a job \<Rightarrow> bool"
  for n :: nat and eager :: policy and red :: reduction
where
  buffered: "send_req (procs j p) = Some (q, m) \<Longrightarrow> p < n \<Longrightarrow> q < n \<Longrightarrow> eager p q m \<Longrightarrow>
    mpi_step n eager red (Ev_send p) j (on_chan (p, q) (\<lambda>ms. ms @ [m]) (on_proc p sent j))"
| direct: "send_req (procs j p) = Some (q, m) \<Longrightarrow> p < n \<Longrightarrow> q < n \<Longrightarrow> \<not> eager p q m \<Longrightarrow>
    recv_req (procs j q) = Some p \<Longrightarrow> chan j (p, q) = [] \<Longrightarrow>
    mpi_step n eager red (Ev_send p) j (on_proc q (got m) (on_proc p sent j))"
| deliver: "recv_req (procs j q) = Some p \<Longrightarrow> p < n \<Longrightarrow> q < n \<Longrightarrow> chan j (p, q) \<noteq> [] \<Longrightarrow>
    mpi_step n eager red (Ev_recv q) j (on_chan (p, q) tl (on_proc q (got (hd (chan j (p, q)))) j))"
| wait: "p < n \<Longrightarrow> finished (procs j p) \<Longrightarrow>
    mpi_step n eager red (Ev_wait p) j (on_proc p proceed j)"
| collective: "0 < n \<Longrightarrow> (\<And>i. i < n \<Longrightarrow> coll_req (procs j i) = Some op) \<Longrightarrow>
    mpi_step n eager red Ev_coll j
      (j\<lparr>procs := (\<lambda>i. if i < n then resume (red op (map (\<lambda>i. contribution (procs j i)) [0..<n]) i) (procs j i)
                           else procs j i)\<rparr>)"

inductive_cases send_stepE: "mpi_step n eager red (Ev_send p) j j'"
inductive_cases recv_stepE: "mpi_step n eager red (Ev_recv q) j j'"
inductive_cases wait_stepE: "mpi_step n eager red (Ev_wait p) j j'"
inductive_cases coll_stepE: "mpi_step n eager red Ev_coll j j'"

lemma req_simps [simp]:
  "send_req (sent p) = None" "recv_req (sent p) = recv_req p"
  "send_req (got m p) = send_req p" "recv_req (got m p) = None"
  "sent (got m p) = got m (sent p)"
  by (cases p; simp)+

lemma finished_req: "finished p \<Longrightarrow> send_req p = None \<and> recv_req p = None \<and> coll_req p = None"
  by (cases p rule: finished.cases) simp_all

lemma req_coll: "send_req p = Some x \<Longrightarrow> coll_req p = None" "recv_req p = Some y \<Longrightarrow> coll_req p = None"
  by (cases p; simp)+

lemma on_simps [simp]:
  "procs (on_proc p f j) = (procs j)(p := f (procs j p))" "chan (on_proc p f j) = chan j"
  "procs (on_chan c g j) = procs j" "chan (on_chan c g j) = (chan j)(c := g (chan j c))"
  by (simp_all add: on_proc_def on_chan_def)

lemma job_eqI: "procs j = procs j' \<Longrightarrow> chan j = chan j' \<Longrightarrow> j = (j' :: 'a job)"
  by (cases j; cases j') simp

section \<open>Every job has one outcome\<close>

text \<open>A labelled transition system in which a label names at most one step, and steps of different
  labels do not disturb each other.\<close>

locale diamond =
  fixes step :: "'l \<Rightarrow> 's \<Rightarrow> 's \<Rightarrow> bool"
  assumes step_det: "step l s t \<Longrightarrow> step l s u \<Longrightarrow> t = u"
    and step_commute: "step l s t \<Longrightarrow> step k s u \<Longrightarrow> l \<noteq> k \<Longrightarrow> \<exists>v. step k t v \<and> step l u v"
begin

abbreviation move :: "'s \<Rightarrow> 's \<Rightarrow> bool" where
  "move s t \<equiv> \<exists>l. step l s t"

lemma residual:
  "(move ^^ n) s t \<Longrightarrow> (\<nexists>x. move t x) \<Longrightarrow> move s u \<Longrightarrow> \<exists>m. n = Suc m \<and> (move ^^ m) u t"
proof (induction n arbitrary: s u)
  case (Suc n)
  obtain l where l: "step l s u" using Suc.prems(3) by blast
  obtain s1 k where k: "step k s s1" and rest: "(move ^^ n) s1 t"
    using relpowp_Suc_D2 [OF Suc.prems(1)] by blast
  show ?case
  proof (cases "l = k")
    case True
    then show ?thesis using step_det [OF l] k rest by auto
  next
    case False
    then obtain v where v: "step k u v" "step l s1 v" using step_commute [OF l k] by blast
    then obtain m where "n = Suc m" "(move ^^ m) v t" using Suc.IH [OF rest Suc.prems(2)] by blast
    then show ?thesis using v(1) by (auto intro: relpowp_Suc_I2 simp del: relpowp.simps)
  qed
qed simp

lemma unique_outcome:
  assumes "(move ^^ n) s t" and "\<nexists>x. move t x" and "(move ^^ m) s u"
  shows "m \<le> n \<and> (move ^^ (n - m)) u t"
  using assms(3)
proof (induction m arbitrary: u)
  case 0
  then show ?case using assms(1) by simp
next
  case (Suc m)
  then obtain v where v: "(move ^^ m) s v" "move v u" by auto
  then have "m \<le> n" "(move ^^ (n - m)) v t" using Suc.IH by blast+
  moreover obtain k where k: "n - m = Suc k" "(move ^^ k) u t"
    using residual [OF calculation(2) assms(2) v(2)] by blast
  ultimately show ?case by (metis Suc_diff_Suc Suc_leI diff_Suc_1' zero_less_Suc zero_less_diff)
qed

end

lemma mpi_step_det: "mpi_step n eager red l j t \<Longrightarrow> mpi_step n eager red l j u \<Longrightarrow> t = u"
  by (cases l) (auto elim!: send_stepE recv_stepE wait_stepE coll_stepE)

lemma coll_alone: "mpi_step n eager red Ev_coll j t \<Longrightarrow> mpi_step n eager red l j u \<Longrightarrow> l = Ev_coll"
  by (erule coll_stepE, erule mpi_step.cases) (fastforce dest: req_coll finished_req)+

text \<open>Two steps meet again: the second is possible after the first, and the results agree.\<close>

lemma meetI:
  "mpi_step n eager red k t v \<Longrightarrow> mpi_step n eager red l u w \<Longrightarrow> procs v = procs w \<Longrightarrow> chan v = chan w \<Longrightarrow>
     \<exists>v. mpi_step n eager red k t v \<and> mpi_step n eager red l u v"
  by (metis job_eqI)

lemma send_send:
  assumes "mpi_step n eager red (Ev_send p) j t" "mpi_step n eager red (Ev_send q) j u" "p \<noteq> q"
  shows "\<exists>v. mpi_step n eager red (Ev_send q) t v \<and> mpi_step n eager red (Ev_send p) u v"
  using assms(1)
proof cases
  case (buffered p' m)
  note p = this
  from assms(2) show ?thesis
  proof cases
    case (buffered q' m')
    with p assms(3) show ?thesis
      by (intro meetI [OF mpi_step.buffered [of t q q' m'] mpi_step.buffered [of u p p' m]]) (auto simp: fun_eq_iff)
  next
    case (direct q' m')
    with p assms(3) show ?thesis
      by (intro meetI [OF mpi_step.direct [of t q q' m'] mpi_step.buffered [of u p p' m]]) (auto simp: fun_eq_iff)
  qed
next
  case (direct p' m)
  note p = this
  from assms(2) show ?thesis
  proof cases
    case (buffered q' m')
    with p assms(3) show ?thesis
      by (intro meetI [OF mpi_step.buffered [of t q q' m'] mpi_step.direct [of u p p' m]]) (auto simp: fun_eq_iff)
  next
    case (direct q' m')
    have "p' \<noteq> q'" using direct p assms(3) by auto
    with direct p assms(3) show ?thesis
      by (intro meetI [OF mpi_step.direct [of t q q' m'] mpi_step.direct [of u p p' m]])
        (simp_all add: fun_eq_iff, auto)
  qed
qed

lemma send_recv:
  assumes "mpi_step n eager red (Ev_send p) j t" "mpi_step n eager red (Ev_recv q) j u"
  shows "\<exists>v. mpi_step n eager red (Ev_recv q) t v \<and> mpi_step n eager red (Ev_send p) u v"
  using assms(2)
proof cases
  case (deliver r)
  note q = this
  from assms(1) show ?thesis
  proof cases
    case (buffered p' m)
    with q show ?thesis
      by (intro meetI [OF mpi_step.deliver [of t q r] mpi_step.buffered [of u p p' m]]) (auto simp: fun_eq_iff)
  next
    case (direct p' m)
    with q show ?thesis
      by (intro meetI [OF mpi_step.deliver [of t q r] mpi_step.direct [of u p p' m]]) (auto simp: fun_eq_iff)
  qed
qed

lemma recv_recv:
  assumes "mpi_step n eager red (Ev_recv p) j t" "mpi_step n eager red (Ev_recv q) j u" "p \<noteq> q"
  shows "\<exists>v. mpi_step n eager red (Ev_recv q) t v \<and> mpi_step n eager red (Ev_recv p) u v"
  using assms(2)
proof cases
  case (deliver r)
  note q = this
  from assms(1) show ?thesis
  proof cases
    case (deliver r')
    with q assms(3) show ?thesis
      by (intro meetI [OF mpi_step.deliver [of t q r] mpi_step.deliver [of u p r']]) (auto simp: fun_eq_iff)
  qed
qed

lemma wait_any:
  assumes "mpi_step n eager red (Ev_wait p) j t" "mpi_step n eager red l j u" "l \<noteq> Ev_wait p"
  shows "\<exists>v. mpi_step n eager red l t v \<and> mpi_step n eager red (Ev_wait p) u v"
proof -
  have p: "p < n" "finished (procs j p)" "t = on_proc p proceed j" using assms(1) by (auto elim: wait_stepE)
  note idle = finished_req [OF p(2)]
  from assms(2) show ?thesis
  proof cases
    case (buffered q q' m)
    with p idle show ?thesis
      by (intro meetI [OF mpi_step.buffered [of t q q' m, folded buffered(1)] wait [of p n u]]) (auto simp: fun_eq_iff)
  next
    case (direct q q' m)
    with p idle show ?thesis
      by (intro meetI [OF mpi_step.direct [of t q q' m, folded direct(1)] wait [of p n u]]) (auto simp: fun_eq_iff)
  next
    case (deliver q r)
    with p idle show ?thesis
      by (intro meetI [OF mpi_step.deliver [of t q r, folded deliver(1)] wait [of p n u]]) (auto simp: fun_eq_iff)
  next
    case (wait q)
    with p assms(3) show ?thesis
      by (intro meetI [OF mpi_step.wait [of q n t, folded wait(1)] mpi_step.wait [of p n u]]) (auto simp: fun_eq_iff)
  next
    case (collective op)
    with p idle show ?thesis by auto
  qed
qed

lemma any_wait:
  assumes "mpi_step n eager red l j t" "mpi_step n eager red (Ev_wait p) j u" "l \<noteq> Ev_wait p"
  shows "\<exists>v. mpi_step n eager red (Ev_wait p) t v \<and> mpi_step n eager red l u v"
  using wait_any [OF assms(2,1,3)] by blast

lemma recv_send:
  assumes "mpi_step n eager red (Ev_recv p) j t" "mpi_step n eager red (Ev_send q) j u"
  shows "\<exists>v. mpi_step n eager red (Ev_send q) t v \<and> mpi_step n eager red (Ev_recv p) u v"
  using send_recv [OF assms(2,1)] by blast

lemma mpi_step_commute:
  assumes l: "mpi_step n eager red l j t" and k: "mpi_step n eager red k j u" and "l \<noteq> k"
  shows "\<exists>v. mpi_step n eager red k t v \<and> mpi_step n eager red l u v"
proof (cases l)
  case (Ev_send p)
  then show ?thesis
    using send_send [of n eager red p j t] send_recv [of n eager red p j t] any_wait [of n eager red l j t]
      coll_alone [of n eager red j u l t] assms by (cases k) auto
next
  case (Ev_recv p)
  then show ?thesis
    using recv_recv [of n eager red p j t] recv_send [of n eager red p j t] any_wait [of n eager red l j t]
      coll_alone [of n eager red j u l t] assms by (cases k) auto
next
  case (Ev_wait p)
  then show ?thesis using wait_any [of n eager red p j t k u] assms by simp
next
  case Ev_coll
  then show ?thesis using coll_alone [of n eager red j t k u] assms by simp
qed

interpretation mpi: diamond "mpi_step n eager red" for n eager red
  by unfold_locales (fact mpi_step_det, fact mpi_step_commute)

section \<open>Runs\<close>

definition mpi_run :: "nat \<Rightarrow> policy \<Rightarrow> reduction \<Rightarrow> 'a job \<Rightarrow> 'a job \<Rightarrow> bool" where
  "mpi_run n eager red = (\<lambda>s t. \<exists>l. mpi_step n eager red l s t)\<^sup>*\<^sup>*"

text \<open>A job of \<open>n\<close> ranks with no message in flight.\<close>

definition quiet :: "nat \<Rightarrow> (nat \<Rightarrow> 'a proc) \<Rightarrow> 'a job" where
  "quiet n P = \<lparr>procs = (\<lambda>i. if i < n then P i else Abort), chan = (\<lambda>_. [])\<rparr>"

lemma quiet_simps [simp]:
  "procs (quiet n P) = (\<lambda>i. if i < n then P i else Abort)" "chan (quiet n P) = (\<lambda>_. [])"
  by (simp_all add: quiet_def)

lemma quiet_cong: "(\<And>i. i < n \<Longrightarrow> P i = Q i) \<Longrightarrow> quiet n P = quiet n Q"
  by (rule job_eqI) auto

lemma run_refl [simp]: "mpi_run n eager red j j"
  by (simp add: mpi_run_def)

lemma run_trans: "mpi_run n eager red j k \<Longrightarrow> mpi_run n eager red k l \<Longrightarrow> mpi_run n eager red j l"
  unfolding mpi_run_def by (rule rtranclp_trans)

lemma run_step: "mpi_step n eager red l j k \<Longrightarrow> mpi_run n eager red j k"
  unfolding mpi_run_def by blast

text \<open>All ranks are in a collective call.\<close>

lemma run_coll:
  assumes "0 < n" and "\<And>i. i < n \<Longrightarrow> P i = Coll op (x i) (k i)"
  shows "mpi_run n eager red (quiet n P) (quiet n (\<lambda>i. k i (red op (map x [0..<n]) i)))"
proof -
  let ?j = "quiet n P"
  let ?xs = "map (\<lambda>i. contribution (procs ?j i)) [0..<n]"
  have xs: "?xs = map x [0..<n]" using assms(2) by simp
  have "mpi_step n eager red Ev_coll ?j
     (?j\<lparr>procs := (\<lambda>i. if i < n then resume (red op ?xs i) (procs ?j i) else procs ?j i)\<rparr>)"
    by (rule collective) (simp_all add: assms)
  moreover have "?j\<lparr>procs := (\<lambda>i. if i < n then resume (red op ?xs i) (procs ?j i) else procs ?j i)\<rparr> =
      quiet n (\<lambda>i. k i (red op (map x [0..<n]) i))"
    unfolding xs by (rule job_eqI) (auto simp: assms(2))
  ultimately show ?thesis by (metis run_step)
qed

text \<open>The ranks of a set \<open>A\<close> have posted their requests, every send with the matching receive.\<close>

definition matched :: "nat set \<Rightarrow> (nat \<Rightarrow> (nat \<times> mpi_msg) option) \<Rightarrow> (nat \<Rightarrow> nat option) \<Rightarrow> bool" where
  "matched A s r \<longleftrightarrow>
     (\<forall>p \<in> A. \<forall>q m. s p = Some (q, m) \<longrightarrow> q \<in> A \<and> r q = Some p) \<and>
     (\<forall>q \<in> A. \<forall>p. r q = Some p \<longrightarrow> p \<in> A \<and> (\<exists>m. s p = Some (q, m)))"

lemma matched_send: "matched A s r \<Longrightarrow> p \<in> A \<Longrightarrow> s p = Some (q, m) \<Longrightarrow> q \<in> A \<and> r q = Some p"
  unfolding matched_def by blast

lemma matched_recv: "matched A s r \<Longrightarrow> q \<in> A \<Longrightarrow> r q = Some p \<Longrightarrow> p \<in> A \<and> (\<exists>m. s p = Some (q, m))"
  unfolding matched_def by blast

definition incoming :: "(nat \<Rightarrow> (nat \<times> mpi_msg) option) \<Rightarrow> (nat \<Rightarrow> nat option) \<Rightarrow> nat \<Rightarrow> mpi_msg option" where
  "incoming s r i = (case r i of None \<Rightarrow> None | Some p \<Rightarrow> map_option snd (s p))"

text \<open>The state in which the messages of the senders \<open>D\<close> have arrived.\<close>

definition transferring ::
  "nat set \<Rightarrow> nat set \<Rightarrow> (nat \<Rightarrow> (nat \<times> mpi_msg) option) \<Rightarrow> (nat \<Rightarrow> nat option) \<Rightarrow>
     (nat \<Rightarrow> mpi_msg option \<Rightarrow> 'a proc) \<Rightarrow> (nat \<Rightarrow> 'a proc) \<Rightarrow> nat \<Rightarrow> 'a proc" where
  "transferring A D s r k P i =
     (if i \<notin> A then P i
      else Comm (if i \<in> D then None else s i)
             (if \<exists>p \<in> D. r i = Some p then None else r i)
             (if \<exists>p \<in> D. r i = Some p then (\<lambda>_. k i (incoming s r i)) else k i))"

lemma transfer_one:
  assumes "matched A s r" and "A \<subseteq> {..<n}" and "p \<in> A" and "p \<notin> D" and "D \<subseteq> A" and "s p = Some (q, m)"
  shows "mpi_run n eager red (quiet n (transferring A D s r k P)) (quiet n (transferring A (insert p D) s r k P))"
proof -
  let ?j = "quiet n (transferring A D s r k P)"
  have q: "q \<in> A" "r q = Some p" using matched_send [OF assms(1,3,6)] by simp_all
  have bd: "p < n" "q < n" using assms(2,3) q by auto
  have req: "send_req (procs ?j p) = Some (q, m)" "recv_req (procs ?j q) = Some p"
    using assms(3,4,6) q bd by (auto simp: transferring_def)
  have inj: "r i = Some p \<longleftrightarrow> i = q" if "i \<in> A" for i
  proof
    assume "r i = Some p"
    then have "\<exists>m'. s p = Some (i, m')" using matched_recv [OF assms(1) that] by simp
    then show "i = q" using assms(6) by auto
  qed (simp add: q)
  have nd: "\<not> (\<exists>p' \<in> D. r q = Some p')" using q assms(4) by simp
  have upd: "got m (transferring A D s r k P q) = Comm (if q \<in> D then None else s q) None (\<lambda>_. k q (incoming s r q))"
    using q nd by (simp add: transferring_def incoming_def assms(6))
  have goal: "j = quiet n (transferring A (insert p D) s r k P)"
    if "procs j = procs (on_proc q (got m) (on_proc p sent ?j))" "chan j = (\<lambda>_. [])" for j :: "'a job"
  proof (rule job_eqI)
    show "procs j = procs (quiet n (transferring A (insert p D) s r k P))"
    proof
      fix i
      show "procs j i = procs (quiet n (transferring A (insert p D) s r k P)) i"
        unfolding that(1) using assms(3,4) q bd inj [of i] upd nd
        by (cases "i = p"; cases "i = q") (simp_all add: transferring_def incoming_def assms(6))
    qed
  qed (simp add: that(2))
  show ?thesis
  proof (cases "eager p q m")
    case True
    let ?j1 = "on_chan (p, q) (\<lambda>ms. ms @ [m]) (on_proc p sent ?j)"
    let ?j2 = "on_chan (p, q) tl (on_proc q (got (hd (chan ?j1 (p, q)))) ?j1)"
    have "mpi_step n eager red (Ev_send p) ?j ?j1" using req(1) bd True by (rule buffered)
    moreover have "mpi_step n eager red (Ev_recv q) ?j1 ?j2" by (rule deliver) (use req bd in auto)
    moreover have "?j2 = quiet n (transferring A (insert p D) s r k P)" by (rule goal) auto
    ultimately show ?thesis by (metis run_step run_trans)
  next
    case False
    have "mpi_step n eager red (Ev_send p) ?j (on_proc q (got m) (on_proc p sent ?j))"
      using req(1) bd False req(2) by (rule direct) simp
    moreover have "on_proc q (got m) (on_proc p sent ?j) = quiet n (transferring A (insert p D) s r k P)"
      by (rule goal) auto
    ultimately show ?thesis by (metis run_step)
  qed
qed

lemma transfer_all:
  assumes "matched A s r" and "A \<subseteq> {..<n}"
  shows "mpi_run n eager red (quiet n (transferring A {} s r k P)) (quiet n (transferring A A s r k P))"
proof -
  have "finite A" using assms(2) finite_subset by blast
  have "mpi_run n eager red (quiet n (transferring A {} s r k P)) (quiet n (transferring A D s r k P))"
    if "finite D" "D \<subseteq> A" for D
    using that
  proof (induction rule: finite_induct)
    case (insert p D)
    show ?case
    proof (cases "s p")
      case None
      have "r i \<noteq> Some p" if "i \<in> A" for i using matched_recv [OF assms(1) that, of p] None by auto
      with None have "transferring A (insert p D) s r k P = transferring A D s r k P"
        by (auto simp: transferring_def fun_eq_iff)
      then show ?thesis using insert by simp
    next
      case (Some x)
      then obtain q m where "s p = Some (q, m)" by (cases x) auto
      then show ?thesis
        using transfer_one [OF assms, of p D q m] insert run_trans by (metis insert_subset)
    qed
  qed simp
  from this [OF \<open>finite A\<close>] show ?thesis by simp
qed

lemma wait_all:
  assumes "finite A" and "A \<subseteq> {..<n}"
  shows "mpi_run n eager red (quiet n (\<lambda>i. if i \<in> A then Comm None None (k i) else P i))
    (quiet n (\<lambda>i. if i \<in> A then k i None else P i))"
  using assms
proof (induction arbitrary: P rule: finite_induct)
  case (insert p A)
  let ?j = "quiet n (\<lambda>i. if i \<in> insert p A then Comm None None (k i) else P i)"
  have "mpi_step n eager red (Ev_wait p) ?j (on_proc p proceed ?j)"
    by (rule wait) (use insert.prems in auto)
  moreover have "on_proc p proceed ?j = quiet n (\<lambda>i. if i \<in> A then Comm None None (k i) else (P(p := k p None)) i)"
    using insert.prems insert.hyps by (intro job_eqI) (auto simp: fun_eq_iff)
  moreover have "(\<lambda>i. if i \<in> A then k i None else (P(p := k p None)) i) = (\<lambda>i. if i \<in> insert p A then k i None else P i)"
    using insert.hyps by auto
  ultimately show ?case
    using insert.IH [of "P(p := k p None)"] insert.prems run_step run_trans by (metis (no_types, lifting) insert_subset)
qed simp

lemma run_comm:
  assumes "matched A s r" and "A \<subseteq> {..<n}"
  shows "mpi_run n eager red (quiet n (\<lambda>i. if i \<in> A then Comm (s i) (r i) (k i) else P i))
    (quiet n (\<lambda>i. if i \<in> A then k i (incoming s r i) else P i))"
proof -
  have "finite A" using assms(2) finite_subset by blast
  let ?k = "\<lambda>i m. if r i = None then k i m else k i (incoming s r i)"
  have t0: "transferring A {} s r k P = (\<lambda>i. if i \<in> A then Comm (s i) (r i) (k i) else P i)"
    by (auto simp: transferring_def)
  have t1: "transferring A A s r k P = (\<lambda>i. if i \<in> A then Comm None None (?k i) else P i)"
  proof
    fix i
    have "\<exists>p \<in> A. r i = Some p" if "i \<in> A" "r i \<noteq> None" using matched_recv [OF assms(1) that(1)] that(2) by blast
    moreover have "s i = None" if "i \<in> A" "i \<notin> A" using that by simp
    ultimately show "transferring A A s r k P i = (if i \<in> A then Comm None None (?k i) else P i)"
      by (cases "r i") (simp_all add: transferring_def)
  qed
  have k: "(\<lambda>i. if i \<in> A then ?k i None else P i) = (\<lambda>i. if i \<in> A then k i (incoming s r i) else P i)"
    by (simp add: incoming_def fun_eq_iff)
  show ?thesis
    using run_trans [OF transfer_all [OF assms, of eager red k P, unfolded t0 t1]
      wait_all [OF \<open>finite A\<close> assms(2), of eager red ?k P]] unfolding k .
qed

section \<open>What a job does\<close>

text \<open>Sequencing: a run of the first parts is a run of the whole programs.\<close>

definition job_seq :: "(nat \<Rightarrow> 'a \<Rightarrow> 'b proc) \<Rightarrow> 'a job \<Rightarrow> 'b job" where
  "job_seq f j = \<lparr>procs = (\<lambda>i. seq (procs j i) (f i)), chan = chan j\<rparr>"

lemma job_seq_simps [simp]:
  "procs (job_seq f j) = (\<lambda>i. seq (procs j i) (f i))" "chan (job_seq f j) = chan j"
  by (simp_all add: job_seq_def)

lemma seq_req:
  "send_req p = Some x \<Longrightarrow> send_req (seq p f) = Some x \<and> sent (seq p f) = seq (sent p) f"
  "recv_req p = Some q \<Longrightarrow> recv_req (seq p f) = Some q \<and> got m (seq p f) = seq (got m p) f"
  "finished p \<Longrightarrow> finished (seq p f) \<and> proceed (seq p f) = seq (proceed p) f"
  "coll_req p = Some c \<Longrightarrow> coll_req (seq p f) = Some c \<and> contribution (seq p f) = contribution p \<and>
     resume m (seq p f) = seq (resume m p) f"
  by (cases p; simp; cases "send_req p"; cases "recv_req p"; simp)+

lemma got_seq [simp]: "recv_req p = Some q \<Longrightarrow> got m (seq p f) = seq (got m p) f"
  using seq_req(2) by blast

lemma seq_step:
  assumes "mpi_step n eager red l j j'"
  shows "mpi_step n eager red l (job_seq f j) (job_seq f j')"
  using assms
proof cases
  case (buffered p q m)
  then have "mpi_step n eager red l (job_seq f j) (on_chan (p, q) (\<lambda>ms. ms @ [m]) (on_proc p sent (job_seq f j)))"
    using seq_req(1) [of "procs j p"] by (metis job_seq_simps(1) mpi_step.buffered)
  moreover have "on_chan (p, q) (\<lambda>ms. ms @ [m]) (on_proc p sent (job_seq f j)) = job_seq f j'"
    using buffered seq_req(1) [OF buffered(3)] by (intro job_eqI) (auto simp: fun_eq_iff)
  ultimately show ?thesis by simp
next
  case (direct p q m)
  then have "mpi_step n eager red l (job_seq f j) (on_proc q (got m) (on_proc p sent (job_seq f j)))"
    using seq_req(1) [of "procs j p"] seq_req(2) [of "procs j q"] by (metis job_seq_simps mpi_step.direct)
  moreover have "on_proc q (got m) (on_proc p sent (job_seq f j)) = job_seq f j'"
    using direct seq_req(1) [OF direct(3)] by (intro job_eqI) (auto simp: fun_eq_iff)
  ultimately show ?thesis by simp
next
  case (deliver q p)
  then have "mpi_step n eager red l (job_seq f j)
      (on_chan (p, q) tl (on_proc q (got (hd (chan (job_seq f j) (p, q)))) (job_seq f j)))"
    using seq_req(2) [of "procs j q"] by (metis job_seq_simps mpi_step.deliver)
  moreover have "on_chan (p, q) tl (on_proc q (got (hd (chan (job_seq f j) (p, q)))) (job_seq f j)) = job_seq f j'"
    using deliver by (intro job_eqI) (auto simp: fun_eq_iff)
  ultimately show ?thesis by simp
next
  case (wait p)
  then have "mpi_step n eager red l (job_seq f j) (on_proc p proceed (job_seq f j))"
    using seq_req(3) [of "procs j p"] by (metis job_seq_simps(1) mpi_step.wait)
  moreover have "on_proc p proceed (job_seq f j) = job_seq f j'"
    using wait seq_req(3) [OF wait(4)] by (intro job_eqI) (auto simp: fun_eq_iff)
  ultimately show ?thesis by simp
next
  case (collective op)
  let ?J = "job_seq f j"
  let ?xs = "\<lambda>j. map (\<lambda>i. contribution (procs j i)) [0..<n]"
  have c: "coll_req (procs ?J i) = Some op" "contribution (procs ?J i) = contribution (procs j i)"
    "resume m (procs ?J i) = seq (resume m (procs j i)) (f i)" if "i < n" for i m
    using seq_req(4) [OF collective(4) [OF that], where f = "f i" and m = m] by simp_all
  have xs: "map (\<lambda>i. contribution (procs ?J i)) [0..<n] = map (\<lambda>i. contribution (procs j i)) [0..<n]"
    using c(2) by simp
  have "mpi_step n eager red Ev_coll ?J
     (?J\<lparr>procs := (\<lambda>i. if i < n then resume (red op (map (\<lambda>i. contribution (procs ?J i)) [0..<n]) i) (procs ?J i) else procs ?J i)\<rparr>)"
    using collective(3) c(1) by (rule mpi_step.collective)
  moreover have "?J\<lparr>procs := (\<lambda>i. if i < n then resume (red op (map (\<lambda>i. contribution (procs ?J i)) [0..<n]) i) (procs ?J i) else procs ?J i)\<rparr> = job_seq f j'"
    unfolding xs using collective(2) c(3) by (intro job_eqI) (auto simp: fun_eq_iff)
  ultimately show ?thesis using collective(1) by simp
qed

lemma seq_run:
  "mpi_run n eager red j j' \<Longrightarrow> mpi_run n eager red (job_seq f j) (job_seq f j')"
  unfolding mpi_run_def
proof (induction rule: rtranclp_induct)
  case (step y z)
  then have "\<exists>l. mpi_step n eager red l (job_seq f y) (job_seq f z)" using seq_step by blast
  with step.IH show ?case by (rule rtranclp.rtrancl_into_rtrancl)
qed simp

lemma job_seq_quiet: "job_seq f (quiet n P) = quiet n (\<lambda>i. seq (P i) (f i))"
  by (rule job_eqI) auto

text \<open>The job can run to the end with rank \<open>i\<close> returning \<open>r i\<close>.\<close>

definition does :: "nat \<Rightarrow> policy \<Rightarrow> reduction \<Rightarrow> (nat \<Rightarrow> 'a proc) \<Rightarrow> (nat \<Rightarrow> 'a) \<Rightarrow> bool" where
  "does n eager red P r \<longleftrightarrow> mpi_run n eager red (quiet n P) (quiet n (\<lambda>i. Ret (r i)))"

lemma does_cong: "(\<And>i. i < n \<Longrightarrow> P i = Q i) \<Longrightarrow> does n eager red P r \<longleftrightarrow> does n eager red Q r"
  using quiet_cong [of n P Q] by (simp add: does_def)

lemma does_Ret: "(\<And>i. i < n \<Longrightarrow> P i = Ret (r i)) \<Longrightarrow> does n eager red P r"
  using quiet_cong [of n P "\<lambda>i. Ret (r i)"] by (simp add: does_def)

lemma does_seq:
  assumes "does n eager red P r" and "does n eager red (\<lambda>i. f i (r i)) r'"
  shows "does n eager red (\<lambda>i. seq (P i) (f i)) r'"
  using seq_run [OF assms(1) [unfolded does_def], of f] assms(2)
  unfolding does_def job_seq_quiet by (auto intro: run_trans)

lemma does_comm:
  assumes "matched {..<n} s q" and "does n eager red (\<lambda>i. k i (incoming s q i)) r"
  shows "does n eager red (\<lambda>i. Comm (s i) (q i) (k i)) r"
proof -
  have *: "quiet n (\<lambda>i. if i \<in> {..<n} then Q i else Abort) = quiet n Q" for Q :: "nat \<Rightarrow> 'a proc"
    by (rule quiet_cong) simp
  from run_comm [OF assms(1) order_refl, of eager red k "\<lambda>_. Abort"] assms(2) show ?thesis
    unfolding does_def * by (rule run_trans)
qed

lemma does_coll:
  assumes "0 < n" and "does n eager red (\<lambda>i. k i (red op (map x [0..<n]) i)) r"
  shows "does n eager red (\<lambda>i. Coll op (x i) (k i)) r"
  using run_coll [OF assms(1), of "\<lambda>i. Coll op (x i) (k i)" op x k eager red] assms(2) run_trans
  unfolding does_def by blast

text \<open>
  What the theorems about jobs state: there is a bound on the length of all runs, and every run,
  however it was scheduled so far, reaches the state where rank \<open>i\<close> has returned \<open>r i\<close> and no message is
  left. So no run is stuck before that state and none goes on after it.
\<close>

definition mpi_outcome :: "nat \<Rightarrow> policy \<Rightarrow> reduction \<Rightarrow> (nat \<Rightarrow> 'a proc) \<Rightarrow> (nat \<Rightarrow> 'a) \<Rightarrow> bool" where
  "mpi_outcome n eager red P r \<longleftrightarrow>
     (\<exists>N. \<forall>m u. ((\<lambda>s t. \<exists>l. mpi_step n eager red l s t) ^^ m) (quiet n P) u \<longrightarrow>
        m \<le> N \<and> ((\<lambda>s t. \<exists>l. mpi_step n eager red l s t) ^^ (N - m)) u (quiet n (\<lambda>i. Ret (r i))))"

lemma quiet_final: "\<not> mpi_step n eager red l (quiet n (\<lambda>i. Ret (r i))) j"
  by (auto elim!: mpi_step.cases split: if_splits)

lemma does_outcome:
  assumes "does n eager red P r"
  shows "mpi_outcome n eager red P r"
proof -
  let ?R = "\<lambda>s t. \<exists>l. mpi_step n eager red l s t"
  obtain N where "(?R ^^ N) (quiet n P) (quiet n (\<lambda>i. Ret (r i)))"
    using assms by (auto simp: does_def mpi_run_def rtranclp_power)
  with mpi.unique_outcome [OF this] show ?thesis
    unfolding mpi_outcome_def using quiet_final by blast
qed

section \<open>The collective calls\<close>

text \<open>What the standard promises of the collective calls the sources use: the root's value for a broadcast,
  the componentwise maximum and the conjunction of all contributions for the two reductions, and
  the sum of the contributions up to and with the own rank for the scan.\<close>

definition mpi_collectives :: "reduction \<Rightarrow> bool" where
  "mpi_collectives red \<longleftrightarrow>
     (\<forall>root xs i. root < length xs \<longrightarrow> i < length xs \<longrightarrow> red (Bcast root) xs i = xs ! root) \<and>
     (\<forall>c vs i. i < length vs \<longrightarrow> (\<forall>v \<in> set vs. length v = c) \<longrightarrow>
        red Allreduce_max (map Mints vs) i = Mints (map (\<lambda>k. Max (set (map (\<lambda>v. v ! k) vs))) [0..<c])) \<and>
     (\<forall>vs i. i < length vs \<longrightarrow> red Allreduce_land (map Mint vs) i = Mint (if 0 \<in> set vs then 0 else 1)) \<and>
     (\<forall>vs i. i < length vs \<longrightarrow> red Scan_sum (map Mulong vs) i = Mulong (sum_list (take (Suc i) vs)))"

fun msg_ints :: "mpi_msg \<Rightarrow> int list" where
  "msg_ints (Mint i) = [i]"
| "msg_ints (Mints is) = is"
| "msg_ints m = []"

fun msg_ulong :: "mpi_msg \<Rightarrow> u64" where
  "msg_ulong (Mulong w) = w"
| "msg_ulong m = 0"

fun mpi_red :: reduction where
  "mpi_red (Bcast root) xs i = xs ! root"
| "mpi_red Allreduce_max xs i =
     Mints (map (\<lambda>k. Max (set (map (\<lambda>x. msg_ints x ! k) xs))) [0..<length (msg_ints (hd xs))])"
| "mpi_red Allreduce_land xs i = Mint (if 0 \<in> set (map (\<lambda>x. hd (msg_ints x)) xs) then 0 else 1)"
| "mpi_red Scan_sum xs i = Mulong (sum_list (take (Suc i) (map msg_ulong xs)))"

lemma collectivesD:
  assumes "mpi_collectives red"
  shows "root < length xs \<Longrightarrow> i < length xs \<Longrightarrow> red (Bcast root) xs i = xs ! root"
    and "i < length vs \<Longrightarrow> \<forall>v \<in> set vs. length v = c \<Longrightarrow>
      red Allreduce_max (map Mints vs) i = Mints (map (\<lambda>k. Max (set (map (\<lambda>v. v ! k) vs))) [0..<c])"
    and "i < length bs \<Longrightarrow> red Allreduce_land (map Mint bs) i = Mint (if 0 \<in> set bs then 0 else 1)"
    and "i < length ws \<Longrightarrow> red Scan_sum (map Mulong ws) i = Mulong (sum_list (take (Suc i) ws))"
proof -
  note * = assms [unfolded mpi_collectives_def]
  show "root < length xs \<Longrightarrow> i < length xs \<Longrightarrow> red (Bcast root) xs i = xs ! root"
    using * [THEN conjunct1] by blast
  show "i < length vs \<Longrightarrow> \<forall>v \<in> set vs. length v = c \<Longrightarrow>
      red Allreduce_max (map Mints vs) i = Mints (map (\<lambda>k. Max (set (map (\<lambda>v. v ! k) vs))) [0..<c])"
    using * [THEN conjunct2, THEN conjunct1, THEN spec [of _ c], THEN spec [of _ vs], THEN spec [of _ i]] by (rule mp [THEN mp])
  show "i < length bs \<Longrightarrow> red Allreduce_land (map Mint bs) i = Mint (if 0 \<in> set bs then 0 else 1)"
    using * [THEN conjunct2, THEN conjunct2, THEN conjunct1] by blast
  show "i < length ws \<Longrightarrow> red Scan_sum (map Mulong ws) i = Mulong (sum_list (take (Suc i) ws))"
    using * [THEN conjunct2, THEN conjunct2, THEN conjunct2] by blast
qed

lemma mpi_red_ok: "mpi_collectives mpi_red"
  unfolding mpi_collectives_def
proof (intro conjI allI impI)
  fix c i and vs :: "int list list"
  assume *: "i < length vs" "\<forall>v \<in> set vs. length v = c"
  then have "length (msg_ints (hd (map Mints vs))) = c" by (cases vs) auto
  then show "mpi_red Allreduce_max (map Mints vs) i = Mints (map (\<lambda>k. Max (set (map (\<lambda>v. v ! k) vs))) [0..<c])"
    by (simp add: comp_def image_image)
qed (simp_all add: comp_def image_image)

lemma red_bcast:
  "mpi_collectives red \<Longrightarrow> root < n \<Longrightarrow> i < n \<Longrightarrow> red (Bcast root) (map x [0..<n]) i = x root"
  using collectivesD(1) [of red root "map x [0..<n]" i] by simp

lemma red_max:
  assumes "mpi_collectives red" and "i < n" and "\<And>j. j < n \<Longrightarrow> length (v j) = c"
  shows "red Allreduce_max (map (\<lambda>j. Mints (v j)) [0..<n]) i = Mints (map (\<lambda>k. Max ((\<lambda>j. v j ! k) ` {..<n})) [0..<c])"
proof -
  have "red Allreduce_max (map Mints (map v [0..<n])) i =
      Mints (map (\<lambda>k. Max (set (map (\<lambda>v. v ! k) (map v [0..<n])))) [0..<c])"
    using assms(2,3) by (intro collectivesD(2) [OF assms(1)]) auto
  then show ?thesis by (simp add: comp_def image_image atLeast0LessThan)
qed

lemma red_land:
  assumes "mpi_collectives red" and "i < n"
  shows "red Allreduce_land (map (\<lambda>j. Mint (v j)) [0..<n]) i = Mint (if \<forall>j < n. v j \<noteq> 0 then 1 else 0)"
  using collectivesD(3) [OF assms(1), of i "map v [0..<n]"] assms(2) by (auto simp: comp_def image_iff)

lemma red_scan:
  assumes "mpi_collectives red" and "i < n"
  shows "red Scan_sum (map (\<lambda>j. Mulong (v j)) [0..<n]) i = Mulong (\<Sum>j \<le> i. v j)"
proof -
  have "take (Suc i) [0..<n] = [0..<Suc i]" using assms(2) by (simp add: take_upt del: upt_Suc)
  then have "sum_list (take (Suc i) (map v [0..<n])) = sum v {0..<Suc i}"
    by (simp add: take_map interv_sum_list_conv_sum_set_nat del: upt_Suc)
  then show ?thesis
    using collectivesD(4) [OF assms(1), of i "map v [0..<n]"] assms(2)
    by (simp add: comp_def atLeast0LessThan lessThan_Suc_atMost)
qed

end
