(* ===== verification/KV_Tree.thy ===== *)
theory KV_Tree
  imports KV_Prelude
begin

text \<open>
  The tree itself: \<open>src/kvtree.h\<close> (structures) and the first half of \<open>src/kvtree.c\<close>
  (allocation, elements, size, get, set, extract, unset, merge, key/value shortcuts).

  A \<open>kvtree*\<close> is a \<open>kvtree option\<close> (\<open>None\<close> is NULL). A function that mutates a tree returns the
  new tree beside its C result. A returned pointer into a tree is the path of keys from the tree
  the function was given down to the sub-tree pointed at (\<open>None\<close> is NULL): \<open>kvtree_deref\<close> reads
  through it and \<open>kvtree_write_ptr\<close> writes through it.
\<close>

section \<open>Structures\<close>

datatype kvtree = Kvtree (elems: "kvtree_elem list")
  and kvtree_elem = Kvtree_elem (elem_key: cstr) (elem_hash: "kvtree option")

type_synonym kvpath = "string list"

section \<open>Allocation\<close>

definition kvtree_elem_new :: kvtree_elem where
  "kvtree_elem_new = Kvtree_elem None None"

definition kvtree_new :: kvtree where
  "kvtree_new = Kvtree []"

definition kvtree_elem_init :: "kvtree_elem option \<Rightarrow> cstr \<Rightarrow> kvtree option \<Rightarrow> kvtree_elem option" where
  "kvtree_elem_init elem key hash =
     (case elem of
        None \<Rightarrow> None
      | Some _ \<Rightarrow> Some (Kvtree_elem key hash))"

section \<open>The element list\<close>

text \<open>\<open>LIST_INSERT_HEAD\<close> and \<open>LIST_REMOVE\<close> of \<open>src/queue.h\<close> on the element list of a tree. The
  removed element is always one the code has just found by walking the list from its head, so
  removing the first occurrence of its value removes exactly that element.\<close>

definition list_insert_head :: "kvtree_elem \<Rightarrow> kvtree \<Rightarrow> kvtree" where
  "list_insert_head elm t = Kvtree (elm # elems t)"

definition list_remove :: "kvtree_elem \<Rightarrow> kvtree \<Rightarrow> kvtree" where
  "list_remove elm t = Kvtree (remove1 elm (elems t))"

definition has_key :: "string \<Rightarrow> kvtree_elem \<Rightarrow> bool" where
  "has_key k e \<longleftrightarrow> elem_key e = Some k"

section \<open>Element functions\<close>

definition kvtree_elem_first :: "kvtree option \<Rightarrow> kvtree_elem option" where
  "kvtree_elem_first hash =
     (case hash of
        None \<Rightarrow> None
      | Some t \<Rightarrow> (case elems t of [] \<Rightarrow> None | e # _ \<Rightarrow> Some e))"

definition kvtree_elem_key :: "kvtree_elem option \<Rightarrow> cstr" where
  "kvtree_elem_key elem = (case elem of None \<Rightarrow> None | Some e \<Rightarrow> elem_key e)"

definition kvtree_elem_hash :: "kvtree_elem option \<Rightarrow> kvtree option" where
  "kvtree_elem_hash elem = (case elem of None \<Rightarrow> None | Some e \<Rightarrow> elem_hash e)"

definition kvtree_elem_get :: "kvtree option \<Rightarrow> cstr \<Rightarrow> kvtree_elem option" where
  "kvtree_elem_get hash key =
     (case hash of
        None \<Rightarrow> None
      | Some t \<Rightarrow> (case key of
                    None \<Rightarrow> None
                  | Some k \<Rightarrow> find (has_key k) (elems t)))"

definition kvtree_elem_extract ::
    "kvtree option \<Rightarrow> cstr \<Rightarrow> kvtree_elem option \<times> kvtree option" where
  "kvtree_elem_extract hash key =
     (case kvtree_elem_get hash key of
        None \<Rightarrow> (None, hash)
      | Some e \<Rightarrow> (Some e, map_option (list_remove e) hash))"

definition kvtree_elem_extract_by_addr ::
    "kvtree option \<Rightarrow> kvtree_elem \<Rightarrow> kvtree_elem \<times> kvtree option" where
  "kvtree_elem_extract_by_addr hash elem = (elem, map_option (list_remove elem) hash)"

section \<open>Size, get, set, extract, unset\<close>

text \<open>The count is an \<open>int\<close> in the code, which overflows, undefined in C, on a list of more than \<open>INT_MAX\<close>
  elements; in the model it goes on. Such a list takes more than 64 GiB of memory.\<close>

definition kvtree_size :: "kvtree option \<Rightarrow> int" where
  "kvtree_size hash =
     (case hash of
        None \<Rightarrow> 0
      | Some t \<Rightarrow> fold (\<lambda>_ count. count + 1) (elems t) 0)"

definition kvtree_get :: "kvtree option \<Rightarrow> cstr \<Rightarrow> kvtree option" where
  "kvtree_get hash key =
     (case kvtree_elem_get hash key of
        None \<Rightarrow> None
      | Some e \<Rightarrow> elem_hash e)"

definition kvtree_set ::
    "kvtree option \<Rightarrow> cstr \<Rightarrow> kvtree option \<Rightarrow> kvtree option \<times> kvpath option" where
  "kvtree_set hash key hash_value =
     (case (hash, key) of
        (Some t, Some k) \<Rightarrow>
          (let (found, hash1) = kvtree_elem_extract hash key;
               elem = (case found of
                         None \<Rightarrow> kvtree_elem_init (Some kvtree_elem_new) key hash_value
                       | Some e \<Rightarrow> Some (Kvtree_elem (elem_key e) hash_value));
               hash2 = (case elem of
                          None \<Rightarrow> hash1
                        | Some e \<Rightarrow> map_option (list_insert_head e) hash1)
           in (hash2, if kvtree_elem_hash elem = None then None else Some [k]))
      | _ \<Rightarrow> (hash, None))"

definition kvtree_extract :: "kvtree option \<Rightarrow> cstr \<Rightarrow> kvtree option \<times> kvtree option" where
  "kvtree_extract hash key =
     (case hash of
        None \<Rightarrow> (None, None)
      | Some t \<Rightarrow>
          (let (elem, hash1) = kvtree_elem_extract hash key
           in case elem of
                None \<Rightarrow> (None, hash1)
              | Some e \<Rightarrow> (elem_hash e, hash1)))"

definition kvtree_unset :: "kvtree option \<Rightarrow> cstr \<Rightarrow> int \<times> kvtree option" where
  "kvtree_unset hash key =
     (case hash of
        None \<Rightarrow> (KVTREE_SUCCESS, None)
      | Some t \<Rightarrow>
          (let (elem, hash1) = kvtree_elem_extract hash key
           in (KVTREE_SUCCESS, hash1)))"

text \<open>The loop of \<open>kvtree_unset_all\<close>: the cursor (the elements from \<open>elem\<close> on) is advanced before
  the element it stood on is taken out of the tree and deleted.\<close>

fun kvtree_unset_all_loop :: "kvtree_elem list \<Rightarrow> kvtree option \<Rightarrow> kvtree option" where
  "kvtree_unset_all_loop [] hash = hash"
| "kvtree_unset_all_loop (tmp # rest) hash =
     kvtree_unset_all_loop rest (snd (kvtree_elem_extract_by_addr hash tmp))"

definition kvtree_unset_all :: "kvtree option \<Rightarrow> int \<times> kvtree option" where
  "kvtree_unset_all hash =
     (KVTREE_SUCCESS,
      case hash of
        None \<Rightarrow> None
      | Some t \<Rightarrow> kvtree_unset_all_loop (elems t) hash)"

section \<open>Pointers into a tree\<close>

text \<open>\<open>kvtree_lookup\<close> follows a path from a tree, \<open>kvtree_assign\<close> overwrites what the path leads
  to, in place. A pointer \<open>None\<close> (NULL) reads as NULL, and nothing is written through it.\<close>

fun kvtree_lookup :: "kvtree option \<Rightarrow> kvpath \<Rightarrow> kvtree option" where
  "kvtree_lookup hash [] = hash"
| "kvtree_lookup hash (k # p) = kvtree_lookup (kvtree_get hash (Some k)) p"

fun kvtree_assign :: "kvtree option \<Rightarrow> kvpath \<Rightarrow> kvtree option \<Rightarrow> kvtree option" where
  "kvtree_assign hash [] v = v"
| "kvtree_assign hash (k # p) v =
     map_option (\<lambda>t. Kvtree (update_first (has_key k)
       (\<lambda>e. Kvtree_elem (elem_key e) (kvtree_assign (elem_hash e) p v)) (elems t))) hash"

definition kvtree_deref :: "kvtree option \<Rightarrow> kvpath option \<Rightarrow> kvtree option" where
  "kvtree_deref hash ptr = (case ptr of None \<Rightarrow> None | Some p \<Rightarrow> kvtree_lookup hash p)"

definition kvtree_write_ptr :: "kvtree option \<Rightarrow> kvpath option \<Rightarrow> kvtree option \<Rightarrow> kvtree option" where
  "kvtree_write_ptr hash ptr v =
     (case ptr of None \<Rightarrow> hash | Some p \<Rightarrow> kvtree_assign hash p v)"

definition ptr_append :: "kvpath option \<Rightarrow> kvpath option \<Rightarrow> kvpath option" where
  "ptr_append p q =
     (case (p, q) of (Some a, Some b) \<Rightarrow> Some (a @ b) | _ \<Rightarrow> None)"

text \<open>The pointer that \<open>kvtree_get\<close> returns, and the code's idiom of a \<open>kvtree_get\<close> that is
  followed by a \<open>kvtree_set\<close> of a new tree when it returned NULL.\<close>

definition kvtree_get_ptr :: "kvtree option \<Rightarrow> cstr \<Rightarrow> kvpath option" where
  "kvtree_get_ptr hash key =
     (case (kvtree_get hash key, key) of
        (Some _, Some k) \<Rightarrow> Some [k]
      | _ \<Rightarrow> None)"

definition kvtree_get_or_new :: "kvtree option \<Rightarrow> cstr \<Rightarrow> kvtree option \<times> kvpath option" where
  "kvtree_get_or_new hash key =
     (case kvtree_get hash key of
        None \<Rightarrow> kvtree_set hash key (Some kvtree_new)
      | Some _ \<Rightarrow> (hash, kvtree_get_ptr hash key))"

section \<open>Merge\<close>

fun kvtree_merge :: "kvtree option \<Rightarrow> kvtree option \<Rightarrow> int \<times> kvtree option"
  and kvtree_merge_elems :: "int \<Rightarrow> kvtree option \<Rightarrow> kvtree_elem list \<Rightarrow> int \<times> kvtree option"
where
  "kvtree_merge None hash2 = (KVTREE_FAILURE, None)"
| "kvtree_merge (Some t1) None = (KVTREE_SUCCESS, Some t1)"
| "kvtree_merge (Some t1) (Some (Kvtree es)) = kvtree_merge_elems KVTREE_SUCCESS (Some t1) es"
| "kvtree_merge_elems rc hash1 [] = (rc, hash1)"
| "kvtree_merge_elems rc hash1 (Kvtree_elem key key_hash2 # es) =
     (let (hash1a, key_hash1) = kvtree_get_or_new hash1 key;
          (merge_rc, merged) = kvtree_merge (kvtree_deref hash1a key_hash1) key_hash2;
          hash1b = kvtree_write_ptr hash1a key_hash1 merged
      in kvtree_merge_elems (if merge_rc \<noteq> KVTREE_SUCCESS then KVTREE_FAILURE else rc) hash1b es)"

section \<open>Key/value shortcuts\<close>

definition kvtree_set_kv :: "kvtree option \<Rightarrow> cstr \<Rightarrow> cstr \<Rightarrow> kvtree option \<times> kvpath option" where
  "kvtree_set_kv hash key val =
     (case hash of
        None \<Rightarrow> (None, None)
      | Some t \<Rightarrow>
          (let (hash1, k) = kvtree_get_or_new hash key;
               (sub, v) = kvtree_get_or_new (kvtree_deref hash1 k) val
           in (kvtree_write_ptr hash1 k sub, ptr_append k v)))"

definition kvtree_get_kv :: "kvtree option \<Rightarrow> cstr \<Rightarrow> cstr \<Rightarrow> kvtree option" where
  "kvtree_get_kv hash key val =
     (case hash of
        None \<Rightarrow> None
      | Some t \<Rightarrow>
          (case kvtree_get hash key of
             None \<Rightarrow> None
           | Some k \<Rightarrow> (case kvtree_get (Some k) val of None \<Rightarrow> None | Some v \<Rightarrow> Some v)))"

definition kvtree_unset_kv :: "kvtree option \<Rightarrow> cstr \<Rightarrow> cstr \<Rightarrow> int \<times> kvtree option" where
  "kvtree_unset_kv hash key val =
     (case hash of
        None \<Rightarrow> (KVTREE_SUCCESS, None)
      | Some t \<Rightarrow>
          (let v = kvtree_get_ptr hash key;
               (rc, sub) = kvtree_unset (kvtree_deref hash v) val;
               hash1 = kvtree_write_ptr hash v sub
           in if kvtree_size sub = 0 then kvtree_unset hash1 key else (rc, hash1)))"

definition kvtree_elem_get_first_val :: "kvtree option \<Rightarrow> cstr \<Rightarrow> cstr" where
  "kvtree_elem_get_first_val hash key =
     (case kvtree_get hash key of
        None \<Rightarrow> None
      | Some h \<Rightarrow>
          (case kvtree_elem_first (Some h) of
             None \<Rightarrow> None
           | Some e \<Rightarrow> kvtree_elem_key (Some e)))"

definition kvtree_get_val :: "kvtree option \<Rightarrow> cstr \<Rightarrow> cstr" where
  "kvtree_get_val hash key =
     (case kvtree_get hash key of
        None \<Rightarrow> None
      | Some key_hash \<Rightarrow>
          (if kvtree_size (Some key_hash) = 1
           then kvtree_elem_key (kvtree_elem_first (Some key_hash))
           else None))"

section \<open>What the operations compute on non-NULL arguments\<close>

lemma has_key_simp [simp]: "has_key k (Kvtree_elem k' h) \<longleftrightarrow> k' = Some k"
  by (simp add: has_key_def)

lemma find_drop_other_key [simp]:
  "k' \<noteq> k \<Longrightarrow> find (has_key k') (drop_first (has_key k) es) = find (has_key k') es"
  by (rule find_drop_first_other) (simp add: has_key_def)

lemma elems_new [simp]: "elems kvtree_new = []"
  by (simp add: kvtree_new_def)

lemma kvtree_elem_get_eq [simp]:
  "kvtree_elem_get None key = None"
  "kvtree_elem_get hash None = None"
  "kvtree_elem_get (Some t) (Some k) = find (has_key k) (elems t)"
  by (auto simp: kvtree_elem_get_def split: option.splits)

lemma kvtree_get_null [simp]: "kvtree_get None key = None" "kvtree_get hash None = None"
  by (simp_all add: kvtree_get_def)

lemma kvtree_get_eq:
  "kvtree_get (Some t) (Some k) = Option.bind (find (has_key k) (elems t)) elem_hash"
  by (auto simp: kvtree_get_def split: option.splits)

lemma kvtree_elem_extract_eq:
  "kvtree_elem_extract (Some t) (Some k) =
     (find (has_key k) (elems t), Some (Kvtree (drop_first (has_key k) (elems t))))"
  by (cases t)
    (auto simp: kvtree_elem_extract_def list_remove_def remove1_find drop_first_none
          split: option.splits)

lemma kvtree_elem_extract_null [simp]:
  "kvtree_elem_extract None key = (None, None)"
  "kvtree_elem_extract hash None = (None, hash)"
  by (simp_all add: kvtree_elem_extract_def)

lemma kvtree_set_null [simp]:
  "kvtree_set None key v = (None, None)"
  "kvtree_set hash None v = (hash, None)"
  by (auto simp: kvtree_set_def split: option.splits)

lemma kvtree_set_eq:
  "kvtree_set (Some t) (Some k) v =
     (Some (Kvtree (Kvtree_elem (Some k) v # drop_first (has_key k) (elems t))),
      if v = None then None else Some [k])"
  by (auto simp: kvtree_set_def kvtree_elem_extract_eq kvtree_elem_init_def kvtree_elem_hash_def
        list_insert_head_def has_key_def dest: find_mem split: option.splits)

lemma kvtree_unset_eq [simp]:
  "kvtree_unset None key = (KVTREE_SUCCESS, None)"
  "kvtree_unset hash None = (KVTREE_SUCCESS, hash)"
  "kvtree_unset (Some t) (Some k) =
     (KVTREE_SUCCESS, Some (Kvtree (drop_first (has_key k) (elems t))))"
  by (auto simp: kvtree_unset_def kvtree_elem_extract_eq split: option.splits)

lemma kvtree_extract_eq:
  "kvtree_extract (Some t) (Some k) =
     (kvtree_get (Some t) (Some k), Some (Kvtree (drop_first (has_key k) (elems t))))"
  by (auto simp: kvtree_extract_def kvtree_elem_extract_eq kvtree_get_eq split: option.splits)

lemma kvtree_size_eq [simp]: "kvtree_size None = 0" "kvtree_size (Some t) = int (length (elems t))"
  by (simp_all add: kvtree_size_def fold_count)

lemma kvtree_unset_all_loop_eq: "kvtree_unset_all_loop es (Some (Kvtree (es @ fs))) = Some (Kvtree fs)"
  by (induction es) (simp_all add: kvtree_elem_extract_by_addr_def list_remove_def)

lemma kvtree_unset_all_eq:
  "kvtree_unset_all (Some t) = (KVTREE_SUCCESS, Some kvtree_new)"
  using kvtree_unset_all_loop_eq [of "elems t" "[]"]
  by (simp add: kvtree_unset_all_def kvtree_new_def)

lemma kvtree_get_ptr_eq [simp]:
  "kvtree_get_ptr hash None = None"
  "kvtree_get_ptr hash (Some k) = (if kvtree_get hash (Some k) = None then None else Some [k])"
  by (auto simp: kvtree_get_ptr_def split: option.splits)

lemma kvtree_deref_simps [simp]:
  "kvtree_deref hash None = None"
  "kvtree_deref hash (Some p) = kvtree_lookup hash p"
  by (simp_all add: kvtree_deref_def)

lemma kvtree_lookup_null [simp]: "kvtree_lookup None p = None"
  by (induction p) simp_all

lemma kvtree_write_ptr_simps [simp]:
  "kvtree_write_ptr hash None v = hash"
  "kvtree_write_ptr hash (Some p) v = kvtree_assign hash p v"
  by (simp_all add: kvtree_write_ptr_def)

lemma ptr_append_simps [simp]:
  "ptr_append None q = None"
  "ptr_append p None = None"
  "ptr_append (Some a) (Some b) = Some (a @ b)"
  by (auto simp: ptr_append_def split: option.splits)

lemma kvtree_get_or_new_null [simp]:
  "kvtree_get_or_new None key = (None, None)"
  "kvtree_get_or_new hash None = (hash, None)"
  by (simp_all add: kvtree_get_or_new_def)

lemma kvtree_get_or_new_eq:
  "kvtree_get_or_new (Some t) (Some k) =
     (if kvtree_get (Some t) (Some k) = None
      then (Some (Kvtree (Kvtree_elem (Some k) (Some kvtree_new)
                          # drop_first (has_key k) (elems t))), Some [k])
      else (Some t, Some [k]))"
  by (auto simp: kvtree_get_or_new_def kvtree_set_eq split: option.splits)

section \<open>Well-formed trees\<close>

text \<open>Every element has a key that is a C string, no key occurs twice in one tree, and the same
  holds below: the \<open>unique key\<close> contract of \<open>doc/rst/users/overview.rst\<close>.\<close>

fun kvtree_wf :: "kvtree \<Rightarrow> bool" and elem_wf :: "kvtree_elem \<Rightarrow> bool" where
  "kvtree_wf (Kvtree es) \<longleftrightarrow> distinct (map elem_key es) \<and> (\<forall>e \<in> set es. elem_wf e)"
| "elem_wf (Kvtree_elem key hash) \<longleftrightarrow>
     (case key of None \<Rightarrow> False | Some k \<Rightarrow> is_cstring k) \<and>
     (case hash of None \<Rightarrow> True | Some t \<Rightarrow> kvtree_wf t)"

definition hash_wf :: "kvtree option \<Rightarrow> bool" where
  "hash_wf hash \<longleftrightarrow> (case hash of None \<Rightarrow> True | Some t \<Rightarrow> kvtree_wf t)"

lemma hash_wf_simps [simp]: "hash_wf None" "hash_wf (Some t) \<longleftrightarrow> kvtree_wf t"
  by (simp_all add: hash_wf_def)

lemma elem_wf_iff:
  "elem_wf e \<longleftrightarrow> (\<exists>k. elem_key e = Some k \<and> is_cstring k) \<and> hash_wf (elem_hash e)"
  by (cases e) (auto simp: hash_wf_def split: option.splits)

lemma kvtree_wf_iff:
  "kvtree_wf t \<longleftrightarrow> distinct (map elem_key (elems t)) \<and> (\<forall>e \<in> set (elems t). elem_wf e)"
  by (cases t) simp

text \<open>Induction over the sub-trees of a tree.\<close>

lemma size_sub_tree: "Kvtree_elem k (Some t) \<in> set es \<Longrightarrow> size t < size (Kvtree es)"
  by (induction es) auto

lemma kvtree_tree_induct [case_names sub]:
  assumes "\<And>es. (\<And>k t. Kvtree_elem k (Some t) \<in> set es \<Longrightarrow> P t) \<Longrightarrow> P (Kvtree es)"
  shows "P t"
proof (induction t rule: measure_induct_rule [where f = size])
  case (less t)
  then show ?case
    using assms size_sub_tree by (cases t) blast
qed

lemma kvtree_new_wf [kv_wf, simp]: "kvtree_wf kvtree_new"
  by (simp add: kvtree_new_def)

lemma drop_key_wf [kv_wf]: "kvtree_wf t \<Longrightarrow> kvtree_wf (Kvtree (drop_first (has_key k) (elems t)))"
  using set_drop_first_subset [of "has_key k" "elems t"]
  by (auto simp: kvtree_wf_iff intro: distinct_map_drop_first)

lemma drop_key_fresh:
  "kvtree_wf t \<Longrightarrow> find (has_key k) (drop_first (has_key k) (elems t)) = None"
  by (rule find_drop_first_distinct [where g = elem_key]) (auto simp: kvtree_wf_iff has_key_def)

lemma insert_key_wf [kv_wf]:
  assumes "kvtree_wf t" and "is_cstring k" and "hash_wf v"
  shows "kvtree_wf (Kvtree (Kvtree_elem (Some k) v # drop_first (has_key k) (elems t)))"
proof -
  have "Some k \<notin> elem_key ` set (drop_first (has_key k) (elems t))"
    using drop_key_fresh [OF assms(1), of k] by (auto simp: find_None_iff has_key_def)
  moreover have "kvtree_wf (Kvtree (drop_first (has_key k) (elems t)))"
    using assms(1) by (rule drop_key_wf)
  ultimately show ?thesis
    using assms(2,3) by (auto simp: elem_wf_iff)
qed

lemma find_wf: "kvtree_wf t \<Longrightarrow> find (has_key k) (elems t) = Some e \<Longrightarrow> elem_wf e"
  by (auto simp: kvtree_wf_iff dest: find_mem)

lemma kvtree_get_wf [kv_wf]: "hash_wf hash \<Longrightarrow> hash_wf (kvtree_get hash key)"
  by (cases hash; cases key)
    (auto simp: kvtree_get_eq elem_wf_iff Option.bind_eq_Some_conv hash_wf_def
          dest!: find_wf split: option.splits bind_splits)

lemma assign_wf [kv_wf]: "hash_wf hash \<Longrightarrow> hash_wf v \<Longrightarrow> hash_wf (kvtree_assign hash p v)"
proof (induction hash p v rule: kvtree_assign.induct)
  case (2 hash k p v)
  show ?case
  proof (cases hash)
    case (Some t)
    let ?f = "\<lambda>e. Kvtree_elem (elem_key e) (kvtree_assign (elem_hash e) p v)"
    have wf: "elem_wf e" if "e \<in> set (elems t)" for e
      using that 2 Some by (auto simp: kvtree_wf_iff)
    have "elem_wf (?f e)" if "e \<in> set (elems t)" for e
      using wf [OF that] 2 Some that by (auto simp: elem_wf_iff)
    with wf have "elem_wf e" if "e \<in> set (update_first (has_key k) ?f (elems t))" for e
      using ball_update_first [OF _ _ that, of elem_wf] by blast
    moreover have "map elem_key (update_first (has_key k) ?f (elems t)) = map elem_key (elems t)"
      by (rule map_update_first) simp
    ultimately show ?thesis
      using 2 Some by (auto simp: kvtree_wf_iff)
  qed simp
qed simp

lemma kvtree_set_wf [kv_wf]:
  "hash_wf hash \<Longrightarrow> pred_option is_cstring key \<Longrightarrow> hash_wf v \<Longrightarrow> hash_wf (fst (kvtree_set hash key v))"
  by (cases hash; cases key) (simp_all add: kvtree_set_eq insert_key_wf del: kvtree_wf.simps)

lemma kvtree_unset_wf [kv_wf]: "hash_wf hash \<Longrightarrow> hash_wf (snd (kvtree_unset hash key))"
  by (cases hash; cases key) (simp_all add: drop_key_wf del: kvtree_wf.simps)

lemma kvtree_lookup_wf [kv_wf]: "hash_wf hash \<Longrightarrow> hash_wf (kvtree_lookup hash p)"
  by (induction hash p rule: kvtree_lookup.induct) (simp_all add: kvtree_get_wf)

lemma kvtree_deref_wf [kv_wf]: "hash_wf hash \<Longrightarrow> hash_wf (kvtree_deref hash ptr)"
  by (cases ptr) (simp_all add: kvtree_lookup_wf)

lemma kvtree_write_ptr_wf [kv_wf]: "hash_wf hash \<Longrightarrow> hash_wf v \<Longrightarrow> hash_wf (kvtree_write_ptr hash ptr v)"
  by (cases ptr) (simp_all add: assign_wf)

lemma kvtree_get_or_new_wf [kv_wf]:
  "hash_wf hash \<Longrightarrow> pred_option is_cstring key \<Longrightarrow> hash_wf (fst (kvtree_get_or_new hash key))"
  by (cases "kvtree_get hash key") (simp_all add: kvtree_get_or_new_def kvtree_set_wf)

lemma kvtree_set_kv_wf [kv_wf]:
  assumes "hash_wf hash" and "pred_option is_cstring key" and "pred_option is_cstring val"
  shows "hash_wf (fst (kvtree_set_kv hash key val))"
proof -
  obtain hash1 k where 1: "kvtree_get_or_new hash key = (hash1, k)" by force
  obtain sub v where 2: "kvtree_get_or_new (kvtree_deref hash1 k) val = (sub, v)" by force
  have "hash_wf hash1"
    using kvtree_get_or_new_wf [OF assms(1,2)] 1 by simp
  moreover from this have "hash_wf sub"
    using kvtree_get_or_new_wf [OF kvtree_deref_wf assms(3), of hash1 k] 2 by simp
  ultimately show ?thesis
    using 1 2 by (cases hash) (simp_all add: kvtree_set_kv_def kvtree_write_ptr_wf)
qed

lemma kvtree_unset_kv_wf [kv_wf]:
  assumes "hash_wf hash"
  shows "hash_wf (snd (kvtree_unset_kv hash key val))"
proof -
  let ?v = "kvtree_get_ptr hash key"
  obtain rc sub where 1: "kvtree_unset (kvtree_deref hash ?v) val = (rc, sub)" by force
  have "hash_wf sub"
    using kvtree_unset_wf [OF kvtree_deref_wf [OF assms], of ?v val] 1 by simp
  then have "hash_wf (kvtree_write_ptr hash ?v sub)"
    using assms by (simp add: kvtree_write_ptr_wf)
  with 1 show ?thesis
    by (cases hash) (simp_all add: kvtree_unset_kv_def Let_def kvtree_unset_wf del: kvtree_get_ptr_eq)
qed

section \<open>Merging well-formed trees succeeds and gives a well-formed tree\<close>

lemma get_or_new_deref: "kvtree_get_or_new (Some t) (Some k) = (hash, ptr) \<Longrightarrow> kvtree_deref hash ptr \<noteq> None"
  by (auto simp: kvtree_get_or_new_eq kvtree_get_eq Option.bind_eq_Some_conv split: if_splits)

lemma merge_step_wf:
  assumes "hash_wf hash" "hash \<noteq> None" and "elem_wf (Kvtree_elem key h2)"
    and "kvtree_get_or_new hash key = (hash1a, ptr)"
  shows "hash_wf (kvtree_deref hash1a ptr) \<and> kvtree_deref hash1a ptr \<noteq> None \<and> hash_wf h2 \<and>
    hash_wf hash1a \<and> hash1a \<noteq> None"
proof -
  from assms(2,3) obtain t k where [simp]: "hash = Some t" "key = Some k" and k: "is_cstring k"
    by (auto simp: elem_wf_iff)
  have wf: "hash_wf hash1a"
    using kvtree_get_or_new_wf [OF assms(1), of key] assms(4) k by simp
  moreover have "hash1a \<noteq> None"
    using assms(4) by (auto simp: kvtree_get_or_new_eq split: if_splits)
  ultimately show ?thesis
    using get_or_new_deref [OF assms(4) [simplified]] assms(3) kvtree_deref_wf [OF wf]
    by (simp add: elem_wf_iff)
qed

lemma kvtree_assign_nonnull: "hash \<noteq> None \<Longrightarrow> v \<noteq> None \<Longrightarrow> kvtree_assign hash p v \<noteq> None"
  by (cases p) auto

lemma kvtree_write_ptr_nonnull: "hash \<noteq> None \<Longrightarrow> v \<noteq> None \<Longrightarrow> kvtree_write_ptr hash ptr v \<noteq> None"
  by (cases ptr) (simp_all add: kvtree_assign_nonnull del: not_None_eq)

lemma merge_wf_aux:
  "hash1 \<noteq> None \<Longrightarrow> hash_wf hash1 \<Longrightarrow> hash_wf hash2 \<Longrightarrow>
     fst (kvtree_merge hash1 hash2) = KVTREE_SUCCESS \<and> snd (kvtree_merge hash1 hash2) \<noteq> None \<and>
     hash_wf (snd (kvtree_merge hash1 hash2))"
  "h1 \<noteq> None \<Longrightarrow> hash_wf h1 \<Longrightarrow> (\<And>e. e \<in> set es \<Longrightarrow> elem_wf e) \<Longrightarrow>
     fst (kvtree_merge_elems rc h1 es) = rc \<and> snd (kvtree_merge_elems rc h1 es) \<noteq> None \<and>
     hash_wf (snd (kvtree_merge_elems rc h1 es))"
proof (induction hash1 hash2 and rc h1 es rule: kvtree_merge_kvtree_merge_elems.induct)
  case (5 rc hash1 key key_hash2 es)
  obtain hash1a ptr where gn: "kvtree_get_or_new hash1 key = (hash1a, ptr)" by force
  obtain mrc merged where mg: "kvtree_merge (kvtree_deref hash1a ptr) key_hash2 = (mrc, merged)" by force
  have step: "hash_wf (kvtree_deref hash1a ptr) \<and> kvtree_deref hash1a ptr \<noteq> None \<and> hash_wf key_hash2 \<and>
    hash_wf hash1a \<and> hash1a \<noteq> None"
    by (rule merge_step_wf [OF "5.prems"(2,1) "5.prems"(3) gn]) simp
  from "5.IH"(1) [OF gn [symmetric] refl] step mg
  have m: "mrc = KVTREE_SUCCESS" "merged \<noteq> None" "hash_wf merged" by simp_all
  from "5.IH"(2) [OF gn [symmetric] refl mg [symmetric] refl refl]
    kvtree_write_ptr_nonnull [of hash1a merged ptr] kvtree_write_ptr_wf [of hash1a merged ptr] m step
  have "fst (kvtree_merge_elems rc (kvtree_write_ptr hash1a ptr merged) es) = rc \<and>
    snd (kvtree_merge_elems rc (kvtree_write_ptr hash1a ptr merged) es) \<noteq> None \<and>
    hash_wf (snd (kvtree_merge_elems rc (kvtree_write_ptr hash1a ptr merged) es))"
    using "5.prems"(3) by simp
  then show ?case
    by (simp add: gn mg m(1))
qed (simp_all add: kvtree_wf_iff)

lemma kvtree_merge_wf [kv_wf]:
  "kvtree_wf t \<Longrightarrow> hash_wf hash2 \<Longrightarrow>
     \<exists>u. kvtree_merge (Some t) hash2 = (KVTREE_SUCCESS, Some u) \<and> kvtree_wf u"
  using merge_wf_aux(1) [of "Some t" hash2] by (cases "kvtree_merge (Some t) hash2") auto

section \<open>The tree is a dictionary\<close>

lemma get_set_law:
  "kvtree_get (fst (kvtree_set (Some t) (Some k) v)) (Some k') =
     (if k' = k then v else kvtree_get (Some t) (Some k'))"
  by (auto simp: kvtree_set_eq kvtree_get_eq)

lemma get_unset_law:
  "kvtree_wf t \<Longrightarrow> kvtree_get (snd (kvtree_unset (Some t) (Some k))) (Some k') =
     (if k' = k then None else kvtree_get (Some t) (Some k'))"
  by (auto simp: kvtree_get_eq drop_key_fresh)

definition tree_inv :: "kvtree option \<Rightarrow> bool" where
  "tree_inv hash \<longleftrightarrow> (case hash of None \<Rightarrow> False | Some t \<Rightarrow> kvtree_wf t)"

lemma tree_inv_simps [simp]: "\<not> tree_inv None" "tree_inv (Some t) \<longleftrightarrow> kvtree_wf t"
  by (simp_all add: tree_inv_def)

lemma tree_invE: "tree_inv hash \<Longrightarrow> (\<And>t. hash = Some t \<Longrightarrow> kvtree_wf t \<Longrightarrow> P) \<Longrightarrow> P"
  by (cases hash) auto

interpretation tree: kv_dict
  "\<lambda>hash k. kvtree_get hash (Some k)"
  "\<lambda>hash k v. fst (kvtree_set hash (Some k) v)"
  "\<lambda>hash k. snd (kvtree_unset hash (Some k))"
  tree_inv is_cstring hash_wf
proof (unfold_locales, goal_cases)
  case (1 m k v k')
  then show ?case by (auto elim!: tree_invE simp: get_set_law)
next
  case (2 m k k')
  then show ?case by (auto elim!: tree_invE simp: get_unset_law simp del: kvtree_unset_eq)
next
  case (3 m k v)
  then show ?case by (auto elim!: tree_invE simp: kvtree_set_eq insert_key_wf simp del: kvtree_wf.simps)
next
  case (4 m k)
  then show ?case by (auto elim!: tree_invE simp: drop_key_wf simp del: kvtree_wf.simps)
qed

section \<open>Properties\<close>

text \<open>C2. Any sequence of \<open>kvtree_set\<close> and \<open>kvtree_unset\<close> calls on a well-formed tree behaves as the
  same sequence of updates of a finite map: what \<open>kvtree_get\<close> returns afterwards is what the map
  holds, and the tree is still well formed.\<close>

theorem tree_refines_map:
  assumes "kvtree_wf t" and "\<forall>op \<in> set ops. dict_op_ok is_cstring hash_wf op"
  shows "\<exists>u. fold (dict_apply (\<lambda>hash k v. fst (kvtree_set hash (Some k) v))
                               (\<lambda>hash k. snd (kvtree_unset hash (Some k)))) ops (Some t) = Some u \<and>
    kvtree_wf u \<and>
    (\<lambda>k. kvtree_get (Some u) (Some k)) = fold map_apply ops (\<lambda>k. kvtree_get (Some t) (Some k))"
proof -
  let ?run = "fold (dict_apply (\<lambda>hash k v. fst (kvtree_set hash (Some k) v))
    (\<lambda>hash k. snd (kvtree_unset hash (Some k)))) ops (Some t)"
  have ok: "dict_op_ok is_cstring hash_wf op" if "op \<in> set ops" for op using assms(2) that by blast
  have "tree_inv ?run" using tree.run_inv [of "Some t" ops] assms(1) ok by simp
  moreover have "(\<lambda>k. kvtree_get ?run (Some k)) = fold map_apply ops (\<lambda>k. kvtree_get (Some t) (Some k))"
    using tree.run_refines [of "Some t" ops] assms(1) ok by simp
  ultimately show ?thesis by (auto elim!: tree_invE)
qed

theorem tree_refines_map_witness:
  "\<exists>u. fold (dict_apply (\<lambda>hash k v. fst (kvtree_set hash (Some k) v))
                         (\<lambda>hash k. snd (kvtree_unset hash (Some k))))
         [DSet ''a'' (Some kvtree_new), DSet ''b'' (Some kvtree_new), DUnset ''a''] (Some kvtree_new) = Some u \<and>
    kvtree_wf u \<and>
    (\<lambda>k. kvtree_get (Some u) (Some k)) =
      fold map_apply [DSet ''a'' (Some kvtree_new), DSet ''b'' (Some kvtree_new), DUnset ''a'']
        (\<lambda>k. kvtree_get (Some kvtree_new) (Some k))"
  by (rule tree_refines_map) simp_all

text \<open>\<open>kvtree_extract\<close> hands out the subtree of the key and leaves a well-formed tree without that key
  and with every other key as it was; \<open>kvtree_size\<close> drops by one exactly when the key was there.\<close>

lemma extract_removes:
  assumes "kvtree_wf t"
  shows "\<exists>u. kvtree_extract (Some t) (Some k) = (kvtree_get (Some t) (Some k), Some u) \<and> kvtree_wf u \<and>
    (\<forall>k'. kvtree_elem_get (Some u) (Some k') =
        (if k' = k then None else kvtree_elem_get (Some t) (Some k'))) \<and>
    kvtree_size (Some u) =
      kvtree_size (Some t) - (if kvtree_elem_get (Some t) (Some k) = None then 0 else 1)"
proof -
  let ?u = "Kvtree (drop_first (has_key k) (elems t))"
  have "kvtree_elem_get (Some ?u) (Some k') = (if k' = k then None else kvtree_elem_get (Some t) (Some k'))" for k'
    using drop_key_fresh [OF assms] by simp
  moreover have "kvtree_size (Some ?u) =
      kvtree_size (Some t) - (if kvtree_elem_get (Some t) (Some k) = None then 0 else 1)"
    by (cases "find (has_key k) (elems t)") (simp_all add: drop_first_none length_drop_first)
  ultimately show ?thesis
    using drop_key_wf [OF assms, of k] kvtree_extract_eq [of t k] by blast
qed

end
