(* ===== verification/KV_Paths.thy ===== *)
theory KV_Paths
  imports KV_Tree
begin

text \<open>
  The abstract view of a tree: the set of key paths that lead from its root to a node. The order
  of the elements and the difference between a NULL and an empty sub-tree, neither of which the
  documentation promises anything about, disappear in it; the tree operations become set
  operations, merging becomes union.
\<close>

section \<open>Path sets\<close>

fun kvtree_paths :: "kvtree \<Rightarrow> kvpath set" and elem_paths :: "kvtree_elem \<Rightarrow> kvpath set" where
  "kvtree_paths (Kvtree es) = insert [] (\<Union>e \<in> set es. elem_paths e)"
| "elem_paths (Kvtree_elem key hash) =
     (case key of
        None \<Rightarrow> {}
      | Some k \<Rightarrow> (#) k ` (case hash of None \<Rightarrow> {[]} | Some t \<Rightarrow> kvtree_paths t))"

definition hash_paths :: "kvtree option \<Rightarrow> kvpath set" where
  "hash_paths hash = (case hash of None \<Rightarrow> {[]} | Some t \<Rightarrow> kvtree_paths t)"

definition prune :: "string \<Rightarrow> kvpath set \<Rightarrow> kvpath set" where
  "prune k A = {p \<in> A. \<forall>q. p \<noteq> k # q}"

lemma hash_paths_simps [simp]:
  "hash_paths None = {[]}" "hash_paths (Some t) = kvtree_paths t"
  by (simp_all add: hash_paths_def)

lemma elem_paths_key: "elem_key e = Some k \<Longrightarrow> elem_paths e = (#) k ` hash_paths (elem_hash e)"
  by (cases e) (simp add: hash_paths_def)

lemma paths_elems: "kvtree_paths t = insert [] (\<Union>e \<in> set (elems t). elem_paths e)"
  by (cases t) simp

lemma Nil_in_paths [simp]: "[] \<in> kvtree_paths t" "[] \<in> hash_paths hash"
  by (cases t; simp) (cases hash; simp add: paths_elems)

lemma paths_new [simp]: "kvtree_paths kvtree_new = {[]}"
  by (simp add: paths_elems)

lemma paths_find_split:
  assumes "find (has_key k) (elems t) = Some e"
  shows "kvtree_paths t =
    (#) k ` hash_paths (elem_hash e) \<union> kvtree_paths (Kvtree (drop_first (has_key k) (elems t)))"
proof -
  have "elem_key e = Some k"
    using assms by (auto dest: find_mem simp: has_key_def)
  with set_drop_first [OF assms] show ?thesis
    by (auto simp: paths_elems [of t] elem_paths_key)
qed

lemma elem_paths_other: "\<not> has_key k e \<Longrightarrow> k # p \<notin> elem_paths e"
  by (cases e) (auto split: option.splits)

lemma paths_no_key:
  "find (has_key k) (elems t) = None \<Longrightarrow> k # p \<notin> kvtree_paths t"
  by (auto simp: paths_elems find_None_iff dest: elem_paths_other)

lemma elem_paths_null [simp]: "elem_paths (Kvtree_elem None hash) = {}"
  by simp

lemma elem_paths_some [simp]: "elem_paths (Kvtree_elem (Some k) hash) = (#) k ` hash_paths hash"
  by (simp add: hash_paths_def)

declare elem_paths.simps [simp del]

section \<open>Lookup\<close>

lemma paths_get:
  assumes "kvtree_wf t"
  shows "k # p \<in> kvtree_paths t \<longleftrightarrow>
    (\<exists>e. kvtree_elem_get (Some t) (Some k) = Some e \<and> p \<in> hash_paths (elem_hash e))"
proof (cases "find (has_key k) (elems t)")
  case None
  then show ?thesis by (simp add: paths_no_key)
next
  case (Some e)
  have "k # p \<notin> kvtree_paths (Kvtree (drop_first (has_key k) (elems t)))"
    using drop_key_fresh [OF assms] by (intro paths_no_key) simp
  then show ?thesis
    using Some by (auto simp: paths_find_split [OF Some])
qed

section \<open>Set and unset\<close>

lemma paths_drop_key:
  assumes "kvtree_wf t"
  shows "kvtree_paths (Kvtree (drop_first (has_key k) (elems t))) = prune k (kvtree_paths t)"
proof (cases "find (has_key k) (elems t)")
  case None
  then show ?thesis
    using paths_no_key [OF None] by (cases t) (auto simp: prune_def drop_first_none)
next
  case (Some e)
  have "k # p \<notin> kvtree_paths (Kvtree (drop_first (has_key k) (elems t)))" for p
    using drop_key_fresh [OF assms] by (intro paths_no_key) simp
  then show ?thesis
    by (auto simp: paths_find_split [OF Some] prune_def)
qed

lemma paths_insert_head:
  "kvtree_paths (Kvtree (Kvtree_elem (Some k) v # es)) = (#) k ` hash_paths v \<union> kvtree_paths (Kvtree es)"
  by auto

lemma paths_set [kv_abs]:
  "kvtree_wf t \<Longrightarrow> hash_paths (fst (kvtree_set (Some t) (Some k) v)) =
     prune k (kvtree_paths t) \<union> (#) k ` hash_paths v"
  by (simp add: kvtree_set_eq paths_insert_head paths_drop_key Un_commute del: kvtree_paths.simps)

lemma paths_unset [kv_abs]:
  "kvtree_wf t \<Longrightarrow> hash_paths (snd (kvtree_unset (Some t) (Some k))) = prune k (kvtree_paths t)"
  by (simp add: paths_drop_key del: kvtree_paths.simps)

section \<open>Writing through a pointer\<close>

lemma UN_update_first:
  assumes "find P xs = Some x" and "G x \<subseteq> G (f x)"
  shows "(\<Union>y \<in> set (update_first P f xs). G y) = (\<Union>y \<in> set xs. G y) \<union> G (f x)"
  using assms by (induction xs) (auto split: if_splits)

lemma paths_assign:
  assumes "kvtree_lookup hash p = Some s" and "kvtree_paths s \<subseteq> hash_paths v"
  shows "hash_paths (kvtree_assign hash p v) = hash_paths hash \<union> (@) p ` hash_paths v"
  using assms
proof (induction p arbitrary: hash)
  case Nil
  then show ?case by auto
next
  case (Cons k p)
  from Cons.prems(1) obtain t where t: "hash = Some t"
    by (cases hash) auto
  have "kvtree_get hash (Some k) \<noteq> None"
    using Cons.prems(1) by (cases "kvtree_get hash (Some k)") auto
  then obtain e where e: "find (has_key k) (elems t) = Some e"
    by (auto simp: t kvtree_get_eq Option.bind_eq_Some_conv)
  have key: "elem_key e = Some k"
    using e by (auto dest: find_mem simp: has_key_def)
  let ?f = "\<lambda>e. Kvtree_elem (elem_key e) (kvtree_assign (elem_hash e) p v)"
  have sub: "hash_paths (kvtree_assign (elem_hash e) p v) = hash_paths (elem_hash e) \<union> (@) p ` hash_paths v"
    using Cons.IH [of "elem_hash e"] Cons.prems e t by (simp add: kvtree_get_eq)
  have fe: "elem_paths (?f e) = (#) k ` (hash_paths (elem_hash e) \<union> (@) p ` hash_paths v)"
    by (subst elem_paths_key [of _ k]) (simp_all only: kvtree_elem.sel key sub)
  have "elem_paths e \<subseteq> elem_paths (?f e)"
    by (auto simp: elem_paths_key [OF key] fe)
  note le = this
  have "(#) k ` hash_paths (elem_hash e) \<subseteq> (\<Union>x \<in> set (elems t). elem_paths x)"
    using e elem_paths_key [OF key] by (blast dest: find_mem)
  with UN_update_first [where G = elem_paths and f = ?f, OF e le] show ?case
    by (simp add: t paths_elems [of t] fe image_Un image_image) blast
qed

section \<open>Merge is union\<close>

lemma paths_get_or_new:
  assumes "kvtree_get_or_new (Some t) (Some k) = (hash, ptr)"
  shows "ptr = Some [k] \<and> hash \<noteq> None \<and> hash_paths hash = insert [k] (kvtree_paths t) \<and>
    (\<exists>s. kvtree_lookup hash [k] = Some s)"
proof (cases "kvtree_get (Some t) (Some k)")
  case None
  then have *: "hash = Some (Kvtree (Kvtree_elem (Some k) (Some kvtree_new)
                              # drop_first (has_key k) (elems t)))" "ptr = Some [k]"
    using assms by (auto simp: kvtree_get_or_new_eq)
  have "kvtree_paths (Kvtree (Kvtree_elem (Some k) (Some kvtree_new) # drop_first (has_key k) (elems t)))
      = insert [k] (kvtree_paths t)"
  proof (cases "find (has_key k) (elems t)")
    case None
    then show ?thesis
      by (cases t) (simp add: paths_insert_head drop_first_none del: kvtree_paths.simps)
  next
    case (Some e)
    then have "elem_hash e = None"
      using None by (simp add: kvtree_get_eq)
    then show ?thesis
      by (simp add: paths_insert_head paths_find_split [OF Some] del: kvtree_paths.simps)
  qed
  then show ?thesis
    by (simp add: * kvtree_get_eq del: kvtree_paths.simps)
next
  case (Some s)
  then have *: "hash = Some t" "ptr = Some [k]"
    using assms by (auto simp: kvtree_get_or_new_eq)
  from Some obtain e where e: "find (has_key k) (elems t) = Some e"
    by (auto simp: kvtree_get_eq Option.bind_eq_Some_conv)
  have "[k] \<in> kvtree_paths t"
    by (simp add: paths_find_split [OF e])
  with Some show ?thesis
    by (auto simp: *)
qed

lemma paths_merge_step:
  assumes "kvtree_get_or_new (Some t) (Some k) = (hash, ptr)"
    and "kvtree_deref hash ptr \<noteq> None \<Longrightarrow>
      \<exists>m. merged = Some m \<and> kvtree_paths m = hash_paths (kvtree_deref hash ptr) \<union> hash_paths h2"
  shows "\<exists>u. kvtree_write_ptr hash ptr merged = Some u \<and>
    kvtree_paths u = kvtree_paths t \<union> (#) k ` hash_paths h2"
proof -
  from paths_get_or_new [OF assms(1)] obtain s u where
    ptr: "ptr = Some [k]" and hash: "hash = Some u" and s: "kvtree_lookup hash [k] = Some s"
    and paths: "kvtree_paths u = insert [k] (kvtree_paths t)"
    by auto
  from assms(2) s ptr obtain m where m: "merged = Some m" "kvtree_paths m = kvtree_paths s \<union> hash_paths h2"
    by auto
  have ss: "(#) k ` kvtree_paths s \<subseteq> kvtree_paths u"
  proof -
    from s obtain e where "find (has_key k) (elems u) = Some e" "elem_hash e = Some s"
      by (auto simp: hash kvtree_get_eq Option.bind_eq_Some_conv)
    then show ?thesis by (auto simp: paths_find_split [of k u e])
  qed
  have "hash_paths (kvtree_write_ptr hash ptr merged) = hash_paths hash \<union> (@) [k] ` hash_paths merged"
    using paths_assign [OF s] m by (simp add: ptr)
  also have "\<dots> = kvtree_paths t \<union> (#) k ` hash_paths h2"
    using ss m paths by (auto simp: hash)
  finally show ?thesis
    by (cases "kvtree_write_ptr hash ptr merged") (auto simp: hash ptr)
qed

lemma paths_merge_aux:
  "hash1 \<noteq> None \<Longrightarrow>
     \<exists>u. snd (kvtree_merge hash1 hash2) = Some u \<and> kvtree_paths u = hash_paths hash1 \<union> hash_paths hash2"
  "h1 \<noteq> None \<Longrightarrow>
     \<exists>u. snd (kvtree_merge_elems rc h1 es) = Some u \<and>
         kvtree_paths u = hash_paths h1 \<union> (\<Union>e \<in> set es. elem_paths e)"
proof (induction hash1 hash2 and rc h1 es rule: kvtree_merge_kvtree_merge_elems.induct)
  case (5 rc hash1 key key_hash2 es)
  then obtain t where t: "hash1 = Some t" by auto
  obtain hash1a ptr where gn: "kvtree_get_or_new hash1 key = (hash1a, ptr)" by force
  obtain mrc merged where mg: "kvtree_merge (kvtree_deref hash1a ptr) key_hash2 = (mrc, merged)" by force
  have "\<exists>u. kvtree_write_ptr hash1a ptr merged = Some u \<and>
      kvtree_paths u = kvtree_paths t \<union> elem_paths (Kvtree_elem key key_hash2)"
  proof (cases key)
    case None
    with gn t show ?thesis by auto
  next
    case (Some k)
    have "kvtree_deref hash1a ptr \<noteq> None \<Longrightarrow>
      \<exists>m. merged = Some m \<and> kvtree_paths m = hash_paths (kvtree_deref hash1a ptr) \<union> hash_paths key_hash2"
      using "5.IH"(1) [OF gn [symmetric] refl] mg by simp
    from paths_merge_step [OF gn [unfolded t Some] this] show ?thesis
      by (simp add: Some)
  qed
  then obtain u where u: "kvtree_write_ptr hash1a ptr merged = Some u"
    "kvtree_paths u = kvtree_paths t \<union> elem_paths (Kvtree_elem key key_hash2)" by blast
  with "5.IH"(2) [OF gn [symmetric] refl mg [symmetric] refl refl] t gn mg show ?case
    by (simp add: Un_assoc)
qed auto

lemma paths_merge [kv_abs]:
  "hash_paths (snd (kvtree_merge (Some t) hash2)) = kvtree_paths t \<union> hash_paths hash2"
proof -
  obtain u where "snd (kvtree_merge (Some t) hash2) = Some u"
    "kvtree_paths u = hash_paths (Some t) \<union> hash_paths hash2"
    using paths_merge_aux(1) [OF option.discI [OF refl]] by blast
  then show ?thesis by simp
qed

lemma merge_eq:
  assumes "kvtree_wf t" and "hash_wf hash2"
  obtains u where "kvtree_merge (Some t) hash2 = (KVTREE_SUCCESS, Some u)" and "kvtree_wf u"
    and "kvtree_paths u = kvtree_paths t \<union> hash_paths hash2"
  using kvtree_merge_wf [OF assms] paths_merge [of t hash2] by auto

section \<open>Following and writing a path\<close>

lemma lookup_append: "kvtree_lookup hash (p @ q) = kvtree_lookup (kvtree_lookup hash p) q"
  by (induction hash p rule: kvtree_lookup.induct) simp_all

lemma get_assign:
  assumes "kvtree_get hash (Some k) \<noteq> None"
  shows "kvtree_get (kvtree_assign hash (k # p) v) (Some k) = kvtree_assign (kvtree_get hash (Some k)) p v"
proof -
  obtain t where t: "hash = Some t" using assms by (cases hash) auto
  let ?f = "\<lambda>e. Kvtree_elem (elem_key e) (kvtree_assign (elem_hash e) p v)"
  have "find (has_key k) (update_first (has_key k) ?f (elems t)) = map_option ?f (find (has_key k) (elems t))"
    by (rule find_update_first_same) (simp add: has_key_def)
  then show ?thesis
    using assms by (auto simp: t kvtree_get_eq Option.bind_eq_Some_conv)
qed

lemma lookup_assign: "kvtree_lookup hash p \<noteq> None \<Longrightarrow> kvtree_lookup (kvtree_assign hash p v) p = v"
proof (induction p arbitrary: hash)
  case (Cons k p)
  then have "kvtree_get hash (Some k) \<noteq> None"
    by (cases "kvtree_get hash (Some k)") simp_all
  from get_assign [OF this] Cons show ?case by (simp del: kvtree_assign.simps)
qed simp

lemma assign_append:
  "kvtree_lookup hash p \<noteq> None \<Longrightarrow>
     kvtree_assign (kvtree_assign hash p u) (p @ q) v = kvtree_assign hash p (kvtree_assign u q v)"
proof (induction p arbitrary: hash)
  case (Cons k p)
  then obtain t where t: "hash = Some t"
    by (cases hash) auto
  let ?f = "\<lambda>u e. Kvtree_elem (elem_key e) (kvtree_assign (elem_hash e) p u)"
  let ?g = "\<lambda>e. Kvtree_elem (elem_key e) (kvtree_assign (elem_hash e) (p @ q) v)"
  have "update_first (has_key k) ?g (update_first (has_key k) (?f u) (elems t)) =
      update_first (has_key k) (\<lambda>e. ?g (?f u e)) (elems t)"
    by (rule update_first_update_first) (simp add: has_key_def)
  also have "\<dots> = update_first (has_key k) (?f (kvtree_assign u q v)) (elems t)"
  proof (rule update_first_cong)
    fix e
    assume e: "find (has_key k) (elems t) = Some e"
    with Cons.prems have "kvtree_lookup (elem_hash e) p \<noteq> None"
      by (simp add: t kvtree_get_eq)
    from Cons.IH [OF this] show "?g (?f u e) = ?f (kvtree_assign u q v) e" by simp
  qed
  finally show ?case by (simp add: t)
qed simp

lemma get_paths:
  "kvtree_get (Some t) (Some k) = Some s \<Longrightarrow> (#) k ` kvtree_paths s \<subseteq> kvtree_paths t"
  by (auto simp: kvtree_get_eq Option.bind_eq_Some_conv paths_find_split)

lemma get_paths_eq:
  "kvtree_wf t \<Longrightarrow> kvtree_get (Some t) (Some k) = Some s \<Longrightarrow> kvtree_paths s = {p. k # p \<in> kvtree_paths t}"
  by (auto simp: kvtree_get_eq Option.bind_eq_Some_conv paths_get)

lemma get_none_paths:
  "kvtree_wf t \<Longrightarrow> kvtree_get (Some t) (Some k) = None \<Longrightarrow> k # p \<in> kvtree_paths t \<Longrightarrow> p = []"
  by (auto simp: kvtree_get_eq Option.bind_eq_None_conv paths_get)

lemma paths_assign_key:
  assumes "kvtree_wf t" and "kvtree_get (Some t) (Some k) = Some s"
  shows "hash_paths (kvtree_assign (Some t) [k] v) = prune k (kvtree_paths t) \<union> (#) k ` hash_paths v"
proof -
  let ?f = "\<lambda>e. Kvtree_elem (elem_key e) v"
  obtain e where e: "find (has_key k) (elems t) = Some e"
    using assms(2) by (auto simp: kvtree_get_eq Option.bind_eq_Some_conv)
  have "set (update_first (has_key k) ?f es) = insert (?f e) (set (drop_first (has_key k) es))"
    if "find (has_key k) es = Some e" for es
    using that by (induction es) (auto split: if_splits)
  moreover have "elem_key e = Some k"
    using e by (auto dest: find_mem simp: has_key_def)
  ultimately have "hash_paths (kvtree_assign (Some t) [k] v) =
      kvtree_paths (Kvtree (drop_first (has_key k) (elems t))) \<union> (#) k ` hash_paths v"
    using e by auto
  then show ?thesis
    by (simp only: paths_drop_key [OF assms(1)])
qed

lemma size_0_paths: "kvtree_wf s \<Longrightarrow> kvtree_size (Some s) = 0 \<longleftrightarrow> \<not> (\<exists>w. [w] \<in> kvtree_paths s)"
  by (cases "elems s") (auto simp: paths_elems kvtree_wf_iff elem_wf_iff elem_paths_key)

declare kvtree_paths.simps [simp del] kvtree_assign.simps [simp del] kvtree_wf.simps [simp del]

section \<open>Key/value pairs\<close>

lemma kvtree_set_kv_eq:
  assumes "kvtree_set_kv (Some t) (Some k) (Some v) = (hash, ptr)"
  shows "ptr = Some [k, v] \<and> hash \<noteq> None \<and> kvtree_lookup hash [k, v] \<noteq> None \<and>
     hash_paths hash = insert [k] (insert [k, v] (kvtree_paths t))"
proof -
  obtain hash1 p1 where g1: "kvtree_get_or_new (Some t) (Some k) = (hash1, p1)" by force
  from paths_get_or_new [OF g1] obtain s where
    1: "p1 = Some [k]" "hash1 \<noteq> None" "hash_paths hash1 = insert [k] (kvtree_paths t)"
       "kvtree_lookup hash1 [k] = Some s" by blast
  obtain sub p2 where g2: "kvtree_get_or_new (Some s) (Some v) = (sub, p2)" by force
  from paths_get_or_new [OF g2] obtain s2 where
    2: "p2 = Some [v]" "sub \<noteq> None" "hash_paths sub = insert [v] (kvtree_paths s)"
       "kvtree_lookup sub [v] = Some s2" by blast
  have res: "hash = kvtree_assign hash1 [k] sub" "ptr = Some [k, v]"
    using assms g1 g2 1 2 by (simp_all add: kvtree_set_kv_def)
  have ss: "(#) k ` kvtree_paths s \<subseteq> hash_paths hash1"
    using 1(1,2,4) get_paths [of _ k s] by (cases hash1) (simp_all del: kvtree_assign.simps)
  have "kvtree_paths s \<subseteq> hash_paths sub" using 2 by auto
  from paths_assign [OF 1(4) this]
  have "hash_paths hash = hash_paths hash1 \<union> (#) k ` hash_paths sub" by (simp add: res)
  also have "\<dots> = insert [k] (insert [k, v] (kvtree_paths t))"
    using ss by (auto simp: 1 2)
  finally have "hash_paths hash = insert [k] (insert [k, v] (kvtree_paths t))" .
  moreover have "kvtree_lookup hash [k] = sub"
    unfolding res(1) by (rule lookup_assign) (simp add: 1(4) del: kvtree_lookup.simps)
  then have "kvtree_lookup hash [k, v] \<noteq> None"
    using 2 by auto
  moreover have "hash \<noteq> None"
    unfolding res(1) using 1(2) 2(2) by (rule kvtree_assign_nonnull)
  ultimately show ?thesis by (simp add: res(2))
qed

definition unset_kv_paths :: "string \<Rightarrow> string \<Rightarrow> kvpath set \<Rightarrow> kvpath set" where
  "unset_kv_paths k v A =
     (let B = {p \<in> A. \<forall>q. p \<noteq> k # v # q}
      in if \<exists>w. [k, w] \<in> B then B else prune k B)"

lemma paths_unset_kv:
  assumes "kvtree_wf t"
  shows "hash_paths (snd (kvtree_unset_kv (Some t) (Some k) (Some v))) = unset_kv_paths k v (kvtree_paths t)"
proof (cases "kvtree_get (Some t) (Some k)")
  case None
  then have "kvtree_unset_kv (Some t) (Some k) (Some v) = kvtree_unset (Some t) (Some k)"
    by (simp add: kvtree_unset_kv_def)
  moreover have "unset_kv_paths k v (kvtree_paths t) = prune k (kvtree_paths t)"
    using get_none_paths [OF assms None] by (auto simp: unset_kv_paths_def prune_def Let_def)
  ultimately show ?thesis
    using paths_unset [OF assms] by simp
next
  case (Some s)
  let ?sub = "Kvtree (drop_first (has_key v) (elems s))"
  let ?B = "{p \<in> kvtree_paths t. \<forall>q. p \<noteq> k # v # q}"
  have s: "kvtree_wf s"
    using kvtree_get_wf [of "Some t" "Some k"] assms Some by simp
  then have sub: "kvtree_wf ?sub" "kvtree_paths ?sub = prune v (kvtree_paths s)"
    by (rule drop_key_wf, rule paths_drop_key)
  obtain u where u: "kvtree_assign (Some t) [k] (Some ?sub) = Some u"
    by (simp add: kvtree_assign.simps)
  have wf_u: "kvtree_wf u"
    using assign_wf [of "Some t" "Some ?sub" "[k]"] assms sub(1) u
    by (simp del: kvtree_assign.simps kvtree_wf.simps)
  have "kvtree_paths u = prune k (kvtree_paths t) \<union> (#) k ` kvtree_paths ?sub"
    using paths_assign_key [OF assms Some, of "Some ?sub"] u by simp
  also have "\<dots> = ?B"
    unfolding sub get_paths_eq [OF assms Some] by (auto simp: prune_def image_iff)
  finally have B: "kvtree_paths u = ?B" .
  have sz: "kvtree_size (Some ?sub) = 0 \<longleftrightarrow> \<not> (\<exists>w. [k, w] \<in> ?B)"
    unfolding size_0_paths [OF sub(1)] sub(2) get_paths_eq [OF assms Some]
    by (auto simp: prune_def)
  have "kvtree_unset_kv (Some t) (Some k) (Some v) =
      (if kvtree_size (Some ?sub) = 0 then kvtree_unset (Some u) (Some k) else (KVTREE_SUCCESS, Some u))"
    using Some u by (simp add: kvtree_unset_kv_def del: kvtree_assign.simps kvtree_size_eq)
  then show ?thesis
    using paths_unset [OF wf_u] B sz
    by (auto simp: unset_kv_paths_def Let_def simp del: kvtree_size_eq kvtree_unset_eq(3))
qed

section \<open>Following a path\<close>

lemma lookup_paths:
  assumes "kvtree_wf t" and "kvtree_lookup (Some t) p = Some s"
  shows "kvtree_wf s" and "kvtree_paths s = {q. p @ q \<in> kvtree_paths t}"
  using assms
proof (induction p arbitrary: t)
  case (Cons k p)
  { case 1
    then show ?case using kvtree_lookup_wf [of "Some t" "k # p"] by simp }
  { case 2
    then obtain u where u: "kvtree_get (Some t) (Some k) = Some u" "kvtree_lookup (Some u) p = Some s"
      by (cases "kvtree_get (Some t) (Some k)") auto
    moreover have "kvtree_wf u" using kvtree_get_wf [of "Some t" "Some k"] 2(1) u(1) by simp
    ultimately show ?case using Cons.IH(2) [of u] get_paths_eq [OF 2(1) u(1)] by simp }
qed simp_all

section \<open>Properties\<close>

text \<open>C1. Merging two well-formed trees succeeds, leaves a well-formed tree, and the key paths of the
  result are exactly those of the two trees.\<close>

theorem merge_is_union:
  assumes "kvtree_wf t1" and "kvtree_wf t2"
  shows "\<exists>u. kvtree_merge (Some t1) (Some t2) = (KVTREE_SUCCESS, Some u) \<and> kvtree_wf u \<and>
    kvtree_paths u = kvtree_paths t1 \<union> kvtree_paths t2"
  using merge_eq [of t1 "Some t2"] assms by auto

theorem merge_is_union_witness:
  "\<exists>u. kvtree_merge (Some (Kvtree [Kvtree_elem (Some ''a'') None]))
         (Some (Kvtree [Kvtree_elem (Some ''a'') (Some (Kvtree [Kvtree_elem (Some ''b'') None]))])) =
       (KVTREE_SUCCESS, Some u) \<and> kvtree_wf u \<and>
    kvtree_paths u = kvtree_paths (Kvtree [Kvtree_elem (Some ''a'') None]) \<union>
      kvtree_paths (Kvtree [Kvtree_elem (Some ''a'') (Some (Kvtree [Kvtree_elem (Some ''b'') None]))])"
  by (rule merge_is_union) (simp_all add: kvtree_wf.simps)

text \<open>The subtree that successive \<open>kvtree_get\<close> calls reach along a path is well formed and holds
  exactly the continuations of that path.\<close>

lemma lookup_is_subtree:
  assumes "kvtree_wf t" and "kvtree_lookup (Some t) p = Some s"
  shows "kvtree_wf s \<and> kvtree_paths s = {q. p @ q \<in> kvtree_paths t}"
  using lookup_paths [OF assms] by blast

text \<open>\<open>kvtree_set_kv\<close> adds the key and the value below it and removes nothing; the pointer it
  returns leads to the value's subtree.\<close>

lemma set_kv_adds:
  "\<exists>u s. kvtree_set_kv (Some t) (Some k) (Some v) = (Some u, Some [k, v]) \<and>
     kvtree_lookup (Some u) [k, v] = Some s \<and>
     kvtree_paths u = kvtree_paths t \<union> {[k], [k, v]}"
proof -
  obtain hash ptr where "kvtree_set_kv (Some t) (Some k) (Some v) = (hash, ptr)" by force
  with kvtree_set_kv_eq [OF this] show ?thesis by (cases hash) auto
qed

text \<open>C29. \<open>kvtree_unset_kv\<close> removes the value with everything below it, and the key as well when no
  other value is left under it.\<close>

theorem unset_kv_removes:
  assumes "kvtree_wf t"
  shows "hash_paths (snd (kvtree_unset_kv (Some t) (Some k) (Some v))) =
    (let rest = {p \<in> kvtree_paths t. \<forall>q. p \<noteq> k # v # q}
     in if \<exists>w. [k, w] \<in> rest then rest else {p \<in> rest. \<forall>q. p \<noteq> k # q})"
  unfolding paths_unset_kv [OF assms] unset_kv_paths_def prune_def by (rule refl)

theorem unset_kv_removes_witness:
  "hash_paths (snd (kvtree_unset_kv (Some (Kvtree [Kvtree_elem (Some ''a'') None])) (Some ''a'') (Some ''b''))) =
    (let rest = {p \<in> kvtree_paths (Kvtree [Kvtree_elem (Some ''a'') None]). \<forall>q. p \<noteq> ''a'' # ''b'' # q}
     in if \<exists>w. [''a'', w] \<in> rest then rest else {p \<in> rest. \<forall>q. p \<noteq> ''a'' # q})"
  by (rule unset_kv_removes) (simp add: kvtree_wf.simps)

end
