(* ===== verification/KV_Cnum.thy ===== *)
theory KV_Cnum
  imports KV_Prelude
begin

text \<open>
  The C library's conversions between numbers and strings that the sources call: the \<open>printf\<close>
  directives \<open>%d\<close>, \<open>%lld\<close>, \<open>%lu\<close>, \<open>%llu\<close>, \<open>%#x\<close>, \<open>%#lx\<close>, \<open>%f\<close> and \<open>%p\<close>, and \<open>atoi\<close>, \<open>atol\<close>,
  \<open>strtoul\<close> and \<open>strtoll\<close> with base 0. A C \<open>int\<close> is an \<open>int\<close> in the range of 32 bits, a \<open>long\<close>
  one in the range of 64 bits; unsigned values are words of their width. Parsing ends in the round
  trips that the utility functions rest on, stated as the interface \<open>value_codec\<close>.
\<close>

section \<open>Ranges\<close>

definition INT_MIN :: int where "INT_MIN = - (2 ^ 31)"
definition INT_MAX :: int where "INT_MAX = 2 ^ 31 - 1"
definition LONG_MIN :: int where "LONG_MIN = - (2 ^ 63)"
definition LONG_MAX :: int where "LONG_MAX = 2 ^ 63 - 1"
definition ULONG_MAX :: nat where "ULONG_MAX = 2 ^ 64 - 1"

definition is_int32 :: "int \<Rightarrow> bool" where
  "is_int32 i \<longleftrightarrow> INT_MIN \<le> i \<and> i \<le> INT_MAX"

definition is_int64 :: "int \<Rightarrow> bool" where
  "is_int64 i \<longleftrightarrow> LONG_MIN \<le> i \<and> i \<le> LONG_MAX"

text \<open>Conversion to \<open>int\<close> keeps the low 32 bits.\<close>

definition to_int32 :: "int \<Rightarrow> int" where
  "to_int32 i = sint (word_of_int i :: u32)"

lemma to_int32_id: "is_int32 i \<Longrightarrow> to_int32 i = i"
  by (simp add: to_int32_def is_int32_def INT_MIN_def INT_MAX_def sint_sbintrunc'
      signed_take_bit_int_eq_self)

section \<open>Printing\<close>

definition digit_char :: "nat \<Rightarrow> char" where
  "digit_char d = (if d < 10 then char_of (48 + d) else char_of (87 + d))"

fun nat_digits :: "nat \<Rightarrow> nat \<Rightarrow> string" where
  "nat_digits b n =
     (if b < 2 \<or> n < b then [digit_char n]
      else nat_digits b (n div b) @ [digit_char (n mod b)])"

declare nat_digits.simps [simp del]

definition fmt_signed :: "int \<Rightarrow> string" where
  "fmt_signed i = (if i < 0 then CHR ''-'' # nat_digits 10 (nat (- i)) else nat_digits 10 (nat i))"

definition fmt_unsigned :: "nat \<Rightarrow> string" where
  "fmt_unsigned n = nat_digits 10 n"

text \<open>The alternate form \<open>%#x\<close>: no prefix for zero.\<close>

definition fmt_hex_alt :: "nat \<Rightarrow> string" where
  "fmt_hex_alt n = (if n = 0 then ''0'' else ''0x'' @ nat_digits 16 n)"

definition fmt_ptr :: "nat \<Rightarrow> string" where
  "fmt_ptr n = (if n = 0 then ''(nil)'' else ''0x'' @ nat_digits 16 n)"

text \<open>\<open>%f\<close> of a double given by its IEEE 754 bits: the exact value is rounded to six decimals,
  ties to even.\<close>

definition round_half_even :: "nat \<Rightarrow> nat \<Rightarrow> nat" where
  "round_half_even a d =
     (let q = a div d; r = a mod d
      in if 2 * r < d then q else if d < 2 * r then q + 1 else if even q then q else q + 1)"

definition pad6 :: "nat \<Rightarrow> string" where
  "pad6 n = (let s = nat_digits 10 n in replicate (6 - length s) CHR ''0'' @ s)"

definition fmt_f :: "u64 \<Rightarrow> string" where
  "fmt_f w =
     (let n = unat w;
          sign = (if 2 ^ 63 \<le> n then ''-'' else []);
          e = n div 2 ^ 52 mod 2048;
          m = n mod 2 ^ 52
      in if e = 2047 then sign @ (if m = 0 then ''inf'' else ''nan'')
         else let mant = (if e = 0 then m else 2 ^ 52 + m) * 10 ^ 6;
                  ex = (if e = 0 then 1 else e);
                  micro = (if 1075 \<le> ex then mant * 2 ^ (ex - 1075)
                           else round_half_even mant (2 ^ (1075 - ex)))
              in sign @ nat_digits 10 (micro div 10 ^ 6) @ ''.'' @ pad6 (micro mod 10 ^ 6))"

section \<open>Parsing\<close>

definition isspace :: "char \<Rightarrow> bool" where
  "isspace c \<longleftrightarrow> (let n = of_char c :: nat in n = 32 \<or> (9 \<le> n \<and> n \<le> 13))"

definition digit_val :: "char \<Rightarrow> nat option" where
  "digit_val c =
     (let n = of_char c :: nat
      in if 48 \<le> n \<and> n \<le> 57 then Some (n - 48)
         else if 97 \<le> n \<and> n \<le> 122 then Some (n - 87)
         else if 65 \<le> n \<and> n \<le> 90 then Some (n - 55)
         else None)"

definition is_digit_of :: "nat \<Rightarrow> char \<Rightarrow> bool" where
  "is_digit_of b c \<longleftrightarrow> (case digit_val c of None \<Rightarrow> False | Some d \<Rightarrow> d < b)"

fun scan_digits :: "nat \<Rightarrow> nat \<Rightarrow> string \<Rightarrow> nat" where
  "scan_digits b acc [] = acc"
| "scan_digits b acc (c # cs) =
     (case digit_val c of
        None \<Rightarrow> acc
      | Some d \<Rightarrow> if d < b then scan_digits b (acc * b + d) cs else acc)"

text \<open>White space, an optional sign, the prefix that selects the base when it is given as 0, then
  the digits. The result is the sign and the magnitude before any clamping.\<close>

definition split_sign :: "string \<Rightarrow> bool \<times> string" where
  "split_sign s =
     (case s of
        [] \<Rightarrow> (False, [])
      | c # cs \<Rightarrow> if c = CHR ''-'' then (True, cs) else if c = CHR ''+'' then (False, cs) else (False, s))"

definition split_base :: "nat \<Rightarrow> string \<Rightarrow> nat \<times> string" where
  "split_base base s =
     (if base \<noteq> 0 then (base, s)
      else case s of
             z # x # h # cs \<Rightarrow>
               if z = CHR ''0'' \<and> (x = CHR ''x'' \<or> x = CHR ''X'') \<and> is_digit_of 16 h then (16, h # cs)
               else if z = CHR ''0'' then (8, s) else (10, s)
           | z # _ \<Rightarrow> if z = CHR ''0'' then (8, s) else (10, s)
           | [] \<Rightarrow> (10, s))"

definition strto_parse :: "nat \<Rightarrow> string \<Rightarrow> bool \<times> nat" where
  "strto_parse base s =
     (let (neg, s1) = split_sign (dropWhile isspace s);
          (b, s2) = split_base base s1
      in (neg, scan_digits b 0 s2))"

definition strtol :: "nat \<Rightarrow> string \<Rightarrow> int" where
  "strtol base s =
     (let (neg, m) = strto_parse base s;
          v = (if neg then - int m else int m)
      in max LONG_MIN (min LONG_MAX v))"

definition strtoul :: "nat \<Rightarrow> string \<Rightarrow> u64" where
  "strtoul base s =
     (let (neg, m) = strto_parse base s
      in if ULONG_MAX < m then of_nat ULONG_MAX
         else if neg then - of_nat m else of_nat m)"

definition atoi :: "string \<Rightarrow> int" where
  "atoi s = to_int32 (strtol 10 s)"

definition atol :: "string \<Rightarrow> int" where
  "atol s = strtol 10 s"

definition strtoll :: "string \<Rightarrow> int" where
  "strtoll s = strtol 0 s"

section \<open>Digits\<close>

lemma of_char_of: "n < 256 \<Longrightarrow> (of_char (char_of n) :: nat) = n"
  by simp

lemma mod_digit:
  fixes b n :: nat
  assumes "2 \<le> b" "b \<le> 16"
  shows "n mod b < b" "n mod b < 16"
proof -
  show "n mod b < b" using assms by simp
  then show "n mod b < 16" using assms(2) by (rule less_le_trans)
qed

lemma digit_char_0 [simp]: "digit_char 0 = CHR ''0''"
  by code_simp

lemma digit_val_char: "d < 16 \<Longrightarrow> digit_val (digit_char d) = Some d"
  by (auto simp: digit_val_def digit_char_def Let_def)

definition plain_digit :: "char \<Rightarrow> bool" where
  "plain_digit c \<longleftrightarrow> (\<exists>d < 16. c = digit_char d)"

lemma plain_digit_code: "plain_digit c \<Longrightarrow> 48 \<le> (of_char c :: nat) \<and> (of_char c :: nat) \<le> 102"
  by (auto simp: plain_digit_def digit_char_def)

lemma plain_digit_not:
  assumes "plain_digit c"
  shows "\<not> isspace c" "c \<noteq> CHR ''-''" "c \<noteq> CHR ''+''" "c \<noteq> CHR 0x00" "c \<noteq> CHR '' ''"
  using plain_digit_code [OF assms] by (auto simp: isspace_def Let_def)

lemma nat_digits_digits:
  assumes "2 \<le> b" "c \<in> set (nat_digits b n)"
  shows "\<exists>d < b. c = digit_char d"
  using assms(2)
proof (induction n rule: less_induct)
  case (less n)
  show ?case
  proof (cases "n < b")
    case True
    with less.prems show ?thesis by (subst (asm) nat_digits.simps) auto
  next
    case False
    then have "n div b < n" using assms(1) by simp
    note IH = less.IH [OF this]
    from less.prems False have "c \<in> set (nat_digits b (n div b)) \<or> c = digit_char (n mod b)"
      using assms(1) by (subst (asm) nat_digits.simps) auto
    with IH assms(1) show ?thesis
      by (auto intro: exI [of _ "n mod b"])
  qed
qed

lemma nat_digits_plain:
  "2 \<le> b \<Longrightarrow> b \<le> 16 \<Longrightarrow> c \<in> set (nat_digits b n) \<Longrightarrow> plain_digit c"
  using nat_digits_digits [of b c n] by (auto simp: plain_digit_def intro: less_le_trans)

lemma nat_digits_digit:
  "2 \<le> b \<Longrightarrow> b \<le> 16 \<Longrightarrow> c \<in> set (nat_digits b n) \<Longrightarrow> is_digit_of b c"
  using nat_digits_digits [of b c n] by (auto simp: is_digit_of_def digit_val_char)

lemma nat_digits_nonempty [simp]: "nat_digits b n \<noteq> []"
  by (subst nat_digits.simps) simp

lemma scan_digits_append:
  assumes "\<And>c. c \<in> set xs \<Longrightarrow> is_digit_of b c"
  shows "scan_digits b acc (xs @ ys) = scan_digits b (scan_digits b acc xs) ys"
  using assms
proof (induction xs arbitrary: acc)
  case (Cons c xs)
  obtain d where "digit_val c = Some d" "d < b"
    using Cons.prems [of c] by (auto simp: is_digit_of_def split: option.splits)
  with Cons show ?case by simp
qed simp

lemma scan_nat_digits:
  assumes "2 \<le> b" "b \<le> 16"
  shows "scan_digits b 0 (nat_digits b n) = n"
proof (induction n rule: less_induct)
  case (less n)
  show ?case
  proof (cases "n < b")
    case True
    then show ?thesis
      using assms by (subst nat_digits.simps) (simp add: digit_val_char)
  next
    case False
    then have "n div b < n" using assms by simp
    from less.IH [OF this] have IH: "scan_digits b 0 (nat_digits b (n div b)) = n div b" .
    show ?thesis
      using False assms nat_digits_digit [OF assms, of _ "n div b"]
      by (subst nat_digits.simps) (simp add: scan_digits_append IH digit_val_char mod_digit [OF assms])
  qed
qed

lemma nat_digits_hd: "2 \<le> b \<Longrightarrow> b \<le> 16 \<Longrightarrow> plain_digit (hd (nat_digits b n))"
  using nat_digits_plain [of b "hd (nat_digits b n)" n] by simp

lemma nat_digits_hd_nonzero:
  assumes "2 \<le> b" "b \<le> 16" "0 < n"
  shows "hd (nat_digits b n) \<noteq> CHR ''0''"
  using assms(3)
proof (induction n rule: less_induct)
  case (less n)
  show ?case
  proof (cases "n < b")
    case True
    moreover have "digit_char n \<noteq> CHR ''0''"
    proof
      assume "digit_char n = CHR ''0''"
      then have "digit_val (digit_char n) = Some 0" by (simp add: digit_val_def)
      then show False using digit_val_char [of n] less.prems True assms by simp
    qed
    ultimately show ?thesis by (subst nat_digits.simps) simp
  next
    case False
    then have "n div b < n" "0 < n div b" using assms less.prems by (simp_all add: div_greater_zero_iff)
    from less.IH [OF this] False assms show ?thesis
      by (subst nat_digits.simps) (simp add: hd_append)
  qed
qed

lemma length_nat_digits: "2 \<le> b \<Longrightarrow> n < b ^ Suc k \<Longrightarrow> length (nat_digits b n) \<le> Suc k"
proof (induction k arbitrary: n)
  case 0
  then show ?case by (subst nat_digits.simps) simp
next
  case (Suc k)
  have "n div b < b ^ Suc k"
    using Suc.prems by (simp add: less_mult_imp_div_less mult.commute)
  with Suc show ?case by (subst nat_digits.simps) simp
qed

section \<open>What parsing makes of printed numbers\<close>

lemma dropWhile_space: "s \<noteq> [] \<Longrightarrow> \<not> isspace (hd s) \<Longrightarrow> dropWhile isspace s = s"
  by (cases s) auto

lemma split_sign_digit: "s \<noteq> [] \<Longrightarrow> plain_digit (hd s) \<Longrightarrow> split_sign s = (False, s)"
  by (cases s) (auto simp: split_sign_def plain_digit_not)

lemma split_base_dec:
  "base = 10 \<or> base = 0 \<Longrightarrow> s \<noteq> [] \<Longrightarrow> hd s \<noteq> CHR ''0'' \<Longrightarrow> split_base base s = (10, s)"
  by (auto simp: split_base_def split: list.splits)

lemma split_base_hex:
  assumes "0 < n"
  shows "split_base 0 (''0x'' @ nat_digits 16 n) = (16, nat_digits 16 n)"
proof -
  obtain h cs where "nat_digits 16 n = h # cs" by (cases "nat_digits 16 n") auto
  moreover from this have "is_digit_of 16 h" using nat_digits_digit [of 16 h n] by simp
  ultimately show ?thesis by (simp add: split_base_def)
qed

lemma digits_zero: "nat_digits 10 0 = ''0''"
  by (simp add: nat_digits.simps)

lemma parse_dec:
  assumes "base = 10 \<or> base = 0" and "split_base base (nat_digits 10 n) = (b, s)"
  shows "scan_digits b 0 s = n"
proof (cases "n = 0")
  case True
  have "digit_val CHR ''0'' = Some 0" by (simp add: digit_val_def)
  then show ?thesis
    using True assms by (auto simp: digits_zero split_base_def)
next
  case False
  then have "split_base base (nat_digits 10 n) = (10, nat_digits 10 n)"
    using assms(1) by (intro split_base_dec) (simp_all add: nat_digits_hd_nonzero)
  then show ?thesis
    using assms(2) by (simp add: scan_nat_digits)
qed

lemma strto_parse_unsigned:
  assumes "base = 10 \<or> base = 0"
  shows "strto_parse base (nat_digits 10 n) = (False, n)"
proof -
  have "dropWhile isspace (nat_digits 10 n) = nat_digits 10 n"
    by (rule dropWhile_space) (simp_all add: nat_digits_hd plain_digit_not)
  moreover have "split_sign (nat_digits 10 n) = (False, nat_digits 10 n)"
    by (rule split_sign_digit) (simp_all add: nat_digits_hd)
  ultimately show ?thesis
    using parse_dec [OF assms] by (auto simp: strto_parse_def split: prod.split)
qed

lemma strto_parse_signed:
  assumes "base = 10 \<or> base = 0"
  shows "strto_parse base (fmt_signed i) = (i < 0, nat \<bar>i\<bar>)"
proof (cases "i < 0")
  case True
  have "dropWhile isspace (CHR ''-'' # s) = CHR ''-'' # s" for s
    by (simp add: isspace_def)
  then show ?thesis
    using True parse_dec [OF assms] by (auto simp: strto_parse_def fmt_signed_def split_sign_def split: prod.split)
next
  case False
  then show ?thesis
    using strto_parse_unsigned [OF assms] by (simp add: fmt_signed_def)
qed

lemma strto_parse_hex:
  "strto_parse 0 (fmt_hex_alt n) = (False, n)"
proof (cases "n = 0")
  case True
  then show ?thesis
    using strto_parse_unsigned [of 0 0] by (simp add: fmt_hex_alt_def digits_zero)
next
  case False
  have "dropWhile isspace (''0x'' @ s) = ''0x'' @ s" for s
    by (simp add: isspace_def)
  moreover have "split_sign (''0x'' @ s) = (False, ''0x'' @ s)" for s
    by (simp add: split_sign_def)
  ultimately show ?thesis
    using False split_base_hex [of n]
    by (simp only: strto_parse_def fmt_hex_alt_def if_False prod.case Let_def) (simp add: scan_nat_digits)
qed

section \<open>The codec interface\<close>

text \<open>
  What the utility getters and setters rely on: the text of a value is a C string, and parsing it
  gives the value back. The values that go through a key buffer of the format functions also
  print to less than \<open>KVTREE_MAX_LINE\<close> characters.
\<close>

locale value_codec =
  fixes fmt :: "'v \<Rightarrow> string"
    and parse :: "string \<Rightarrow> 'v option"
    and valid :: "'v \<Rightarrow> bool"
  assumes parse_fmt: "valid v \<Longrightarrow> parse (fmt v) = Some v"
    and fmt_cstring: "valid v \<Longrightarrow> is_cstring (fmt v)"
begin

lemma fmt_inj: "valid v \<Longrightarrow> valid w \<Longrightarrow> fmt v = fmt w \<longleftrightarrow> v = w"
  using parse_fmt by (metis option.inject)

end

locale short_codec = value_codec +
  assumes fmt_short: "valid v \<Longrightarrow> length (fmt v) < 1024"

lemma cstring_digits: "2 \<le> b \<Longrightarrow> b \<le> 16 \<Longrightarrow> is_cstring (nat_digits b n)"
  using nat_digits_plain plain_digit_not(4) by (auto simp: is_cstring_def)

lemma cstring_signed: "is_cstring (fmt_signed i)"
  by (simp add: fmt_signed_def cstring_digits)

lemma length_dec64: "n < 2 ^ 64 \<Longrightarrow> length (nat_digits 10 n) \<le> 20"
  using length_nat_digits [of 10 n 19] by simp

lemma length_hex64: "n < 2 ^ 64 \<Longrightarrow> length (nat_digits 16 n) \<le> 16"
  using length_nat_digits [of 16 n 15] by simp

lemma length_signed: "is_int64 i \<Longrightarrow> length (fmt_signed i) \<le> 21"
  using length_dec64 [of "nat i"] length_dec64 [of "nat (- i)"]
  by (auto simp: fmt_signed_def is_int64_def LONG_MIN_def LONG_MAX_def nat_less_iff)

lemma int32_int64: "is_int32 i \<Longrightarrow> is_int64 i"
  by (simp add: is_int32_def is_int64_def INT_MIN_def INT_MAX_def LONG_MIN_def LONG_MAX_def)

lemma strtol_signed: "base = 10 \<or> base = 0 \<Longrightarrow> is_int64 i \<Longrightarrow> strtol base (fmt_signed i) = i"
  by (auto simp: strtol_def strto_parse_signed is_int64_def)

lemma unat_u64: "unat (w :: u64) < 2 ^ 64"
  using unsigned_less [of w, where ?'a = nat] by simp

lemma unat_le_max: "\<not> ULONG_MAX < unat (w :: u64)"
  using unat_u64 [of w] by (simp add: ULONG_MAX_def)

interpretation codec_d: short_codec fmt_signed "\<lambda>s. Some (atoi s)" is_int32
proof (unfold_locales, goal_cases)
  case (1 v)
  then show ?case by (simp add: atoi_def strtol_signed int32_int64 to_int32_id)
next
  case (3 v)
  then show ?case using length_signed [OF int32_int64, of v] by simp
qed (rule cstring_signed)

interpretation codec_lld: short_codec fmt_signed "\<lambda>s. Some (strtoll s)" is_int64
proof (unfold_locales, goal_cases)
  case (3 v)
  then show ?case using length_signed [of v] by simp
qed (simp_all add: strtoll_def strtol_signed cstring_signed)

interpretation codec_lu: short_codec "\<lambda>w :: u64. fmt_unsigned (unat w)" "\<lambda>s. Some (strtoul 0 s)" "\<lambda>_. True"
proof (unfold_locales, goal_cases)
  case (3 v)
  then show ?case using length_dec64 [of "unat v"] unat_u64 [of v] by (simp add: fmt_unsigned_def)
qed (simp_all add: strtoul_def fmt_unsigned_def strto_parse_unsigned unat_le_max cstring_digits)

text \<open>\<open>kvtree_util_set_crc32\<close> prints the low 32 bits of an \<open>uLong\<close>.\<close>

lemma unat_ucast_u32: "unat (w :: u64) < 2 ^ 32 \<Longrightarrow> unat (ucast w :: u32) = unat w"
  by (simp add: unsigned_ucast_eq take_bit_nat_eq_self)

interpretation codec_x: short_codec
  "\<lambda>w :: u64. fmt_hex_alt (unat (ucast w :: u32))" "\<lambda>s. Some (strtoul 0 s)" "\<lambda>w. unat w < 2 ^ 32"
proof (unfold_locales, goal_cases)
  case (1 v)
  then show ?case by (simp add: strtoul_def strto_parse_hex unat_le_max unat_ucast_u32)
next
  case (2 v)
  show ?case by (simp add: fmt_hex_alt_def cstring_digits)
next
  case (3 v)
  then show ?case
    using length_hex64 [of "unat v"] unat_u64 [of v] unat_ucast_u32 [of v] by (simp add: fmt_hex_alt_def)
qed

text \<open>\<open>sscanf\<close> with \<open>%p\<close>: \<open>(nil)\<close>, or a hexadecimal number with or without its prefix.\<close>

definition sscanf_ptr :: "string \<Rightarrow> u64 option" where
  "sscanf_ptr s =
     (let s1 = dropWhile isspace s
      in if take 5 s1 = ''(nil)'' then Some 0
         else let (neg, s2) = split_sign s1;
                  s3 = (if take 2 s2 = ''0x'' \<or> take 2 s2 = ''0X'' then drop 2 s2 else s2)
              in if s3 = [] \<or> \<not> is_digit_of 16 (hd s3) then None
                 else Some (strtoul 16 ((if neg then ''-'' else []) @ s3)))"

lemma strtoul_hex: "strtoul 16 (nat_digits 16 (unat (w :: u64))) = w"
proof -
  have "dropWhile isspace (nat_digits 16 n) = nat_digits 16 n" for n
    by (rule dropWhile_space) (simp_all add: nat_digits_hd plain_digit_not)
  moreover have "split_sign (nat_digits 16 n) = (False, nat_digits 16 n)" for n
    by (rule split_sign_digit) (simp_all add: nat_digits_hd)
  ultimately show ?thesis
    by (simp add: strtoul_def strto_parse_def split_base_def scan_nat_digits unat_le_max)
qed

lemma sscanf_fmt_ptr: "sscanf_ptr (fmt_ptr (unat w)) = Some w"
proof (cases "unat w = 0")
  case True
  then have "w = 0" by (metis unsigned_0 unsigned_word_eqI)
  then show ?thesis
    by (simp add: fmt_ptr_def sscanf_ptr_def isspace_def)
next
  case False
  have "is_digit_of 16 (hd (nat_digits 16 (unat w)))"
    by (rule nat_digits_digit [of _ _ "unat w"]) simp_all
  with False show ?thesis
    by (simp add: fmt_ptr_def sscanf_ptr_def isspace_def split_sign_def strtoul_hex)
qed

interpretation codec_p: short_codec "\<lambda>w :: u64. fmt_ptr (unat w)" sscanf_ptr "\<lambda>_. True"
proof (unfold_locales, goal_cases)
  case (2 v)
  show ?case by (simp add: fmt_ptr_def cstring_digits)
next
  case (3 v)
  show ?case using length_hex64 [of "unat v"] unat_u64 [of v] by (simp add: fmt_ptr_def)
qed (rule sscanf_fmt_ptr)

text \<open>The text of a string is the string.\<close>

interpretation codec_s: value_codec "\<lambda>s. s" Some is_cstring
  by unfold_locales simp_all

end
