(* ===== verification/KV_Format.thy ===== *)
theory KV_Format
  imports KV_Paths KV_Cnum
begin

text \<open>
  The printf-like traversals \<open>kvtree_setf\<close> and \<open>kvtree_getf\<close> and the integer variants of the
  key/value functions (\<open>src/kvtree.c\<close>). A variable argument is a value of \<open>fmt_arg\<close>, tagged with the
  C type it was passed with; reading one that is missing or of another type is undefined in C, which
  the error \<open>Bad_vararg\<close> marks: it says nothing about what the code does then. Only the other two
  errors are calls of \<open>kvtree_abort\<close>. Every theorem that a traversal succeeds shows that no error
  arises, and the one on aborts assumes arguments that fit.
\<close>

section \<open>Formats and arguments\<close>

datatype kv_error = Unsupported_format string | Key_too_long | Bad_vararg

datatype fmt_arg =
    ArgStr cstr
  | ArgInt int
  | ArgLongLong int
  | ArgULong u64
  | ArgUInt u32
  | ArgULongLong u64
  | ArgDouble u64
  | ArgPtr u64

definition KVTREE_MAX_LINE :: nat where
  "KVTREE_MAX_LINE = 1024"

text \<open>\<open>strtok_r\<close> with the separator \<open>" "\<close>, called until it returns NULL: the maximal runs of other
  characters, in order.\<close>

fun strtok_tokens :: "string \<Rightarrow> string \<Rightarrow> string list" where
  "strtok_tokens cur [] = (if cur = [] then [] else [cur])"
| "strtok_tokens cur (c # cs) =
     (if c = CHR '' '' then (if cur = [] then strtok_tokens [] cs else cur # strtok_tokens [] cs)
      else strtok_tokens (cur @ [c]) cs)"

text \<open>The directives the loops accept: the argument is read with the type the directive names.\<close>

definition snprintf_key :: "string \<Rightarrow> fmt_arg option \<Rightarrow> kv_error + string" where
  "snprintf_key token arg =
     (if token = ''%s'' then (case arg of Some (ArgStr (Some s)) \<Rightarrow> Inr s | _ \<Rightarrow> Inl Bad_vararg)
      else if token = ''%d'' then (case arg of Some (ArgInt i) \<Rightarrow> Inr (fmt_signed i) | _ \<Rightarrow> Inl Bad_vararg)
      else if token = ''%lld'' then (case arg of Some (ArgLongLong i) \<Rightarrow> Inr (fmt_signed i) | _ \<Rightarrow> Inl Bad_vararg)
      else if token = ''%lu'' then (case arg of Some (ArgULong w) \<Rightarrow> Inr (fmt_unsigned (unat w)) | _ \<Rightarrow> Inl Bad_vararg)
      else if token = ''%#x'' then (case arg of Some (ArgUInt w) \<Rightarrow> Inr (fmt_hex_alt (unat w)) | _ \<Rightarrow> Inl Bad_vararg)
      else if token = ''%#lx'' then (case arg of Some (ArgULong w) \<Rightarrow> Inr (fmt_hex_alt (unat w)) | _ \<Rightarrow> Inl Bad_vararg)
      else if token = ''%llu'' then (case arg of Some (ArgULongLong w) \<Rightarrow> Inr (fmt_unsigned (unat w)) | _ \<Rightarrow> Inl Bad_vararg)
      else if token = ''%f'' then (case arg of Some (ArgDouble w) \<Rightarrow> Inr (fmt_f w) | _ \<Rightarrow> Inl Bad_vararg)
      else if token = ''%p'' then (case arg of Some (ArgPtr w) \<Rightarrow> Inr (fmt_ptr (unat w)) | _ \<Rightarrow> Inl Bad_vararg)
      else Inl (Unsupported_format token))"

text \<open>One round of the loops: fetch the argument, print it, check that it fits the key buffer.\<close>

definition next_key :: "string \<Rightarrow> fmt_arg list \<Rightarrow> kv_error + string" where
  "next_key token args =
     (case snprintf_key token (case args of [] \<Rightarrow> None | arg # _ \<Rightarrow> Some arg) of
        Inl e \<Rightarrow> Inl e
      | Inr key \<Rightarrow> if KVTREE_MAX_LINE \<le> length key then Inl Key_too_long else Inr key)"

section \<open>Traversals by format\<close>

text \<open>\<open>h\<close> is the cursor of the loop, a pointer into \<open>hash\<close>; \<open>i\<close> the number of keys consumed.\<close>

fun setf_loop :: "nat \<Rightarrow> kvtree option \<Rightarrow> kvtree option \<Rightarrow> kvpath option \<Rightarrow> nat \<Rightarrow> string list \<Rightarrow>
    fmt_arg list \<Rightarrow> kv_error + (kvtree option \<times> kvpath option)" where
  "setf_loop cnt hash_value hash h i [] args = Inr (hash, h)"
| "setf_loop cnt hash_value hash h i (token # tokens) args =
     (if \<not> (i < cnt \<and> h \<noteq> None) then Inr (hash, h)
      else case next_key token args of
             Inl e \<Rightarrow> Inl e
           | Inr key \<Rightarrow>
               (let (sub, p) = (if i + 1 < cnt then kvtree_get_or_new (kvtree_deref hash h) (Some key)
                                else kvtree_set (kvtree_deref hash h) (Some key) hash_value)
                in setf_loop cnt hash_value (kvtree_write_ptr hash h sub) (ptr_append h p) (i + 1)
                     tokens (tl args)))"

definition kvtree_setf :: "kvtree option \<Rightarrow> kvtree option \<Rightarrow> string \<Rightarrow> fmt_arg list \<Rightarrow>
    kv_error + (kvtree option \<times> kvpath option)" where
  "kvtree_setf hash hash_value fmt args =
     (case hash of
        None \<Rightarrow> Inr (None, None)
      | Some t \<Rightarrow>
          (let tokens = strtok_tokens [] fmt
           in setf_loop (length tokens) hash_value hash (Some []) 0 tokens args))"

fun getf_loop :: "nat \<Rightarrow> kvtree option \<Rightarrow> kvpath option \<Rightarrow> nat \<Rightarrow> string list \<Rightarrow>
    fmt_arg list \<Rightarrow> kv_error + kvpath option" where
  "getf_loop cnt hash h i [] args = Inr h"
| "getf_loop cnt hash h i (token # tokens) args =
     (if \<not> (i < cnt \<and> h \<noteq> None) then Inr h
      else case next_key token args of
             Inl e \<Rightarrow> Inl e
           | Inr key \<Rightarrow>
               getf_loop cnt hash (ptr_append h (kvtree_get_ptr (kvtree_deref hash h) (Some key)))
                 (i + 1) tokens (tl args))"

definition kvtree_getf :: "kvtree option \<Rightarrow> string \<Rightarrow> fmt_arg list \<Rightarrow> kv_error + kvpath option" where
  "kvtree_getf hash fmt args =
     (case hash of
        None \<Rightarrow> Inr None
      | Some t \<Rightarrow>
          (let tokens = strtok_tokens [] fmt
           in getf_loop (length tokens) hash (Some []) 0 tokens args))"

section \<open>Integer keys\<close>

definition kvtree_set_kv_int :: "kvtree option \<Rightarrow> cstr \<Rightarrow> int \<Rightarrow> kvtree option \<times> kvpath option" where
  "kvtree_set_kv_int hash key val = kvtree_set_kv hash key (Some (fmt_signed val))"

definition kvtree_get_kv_int :: "kvtree option \<Rightarrow> cstr \<Rightarrow> int \<Rightarrow> kvtree option" where
  "kvtree_get_kv_int hash key val = kvtree_get_kv hash key (Some (fmt_signed val))"

definition kvtree_unset_kv_int :: "kvtree option \<Rightarrow> cstr \<Rightarrow> int \<Rightarrow> int \<times> kvtree option" where
  "kvtree_unset_kv_int hash key val = kvtree_unset_kv hash key (Some (fmt_signed val))"

definition kvtree_elem_extract_int ::
    "kvtree option \<Rightarrow> int \<Rightarrow> kvtree_elem option \<times> kvtree option" where
  "kvtree_elem_extract_int hash key =
     (case kvtree_elem_get hash (Some (fmt_signed key)) of
        None \<Rightarrow> (None, hash)
      | Some e \<Rightarrow> (Some e, map_option (list_remove e) hash))"

text \<open>\<open>atoi\<close> of a NULL key is undefined in C: the result \<open>None\<close>.\<close>

definition kvtree_elem_key_int :: "kvtree_elem option \<Rightarrow> int option" where
  "kvtree_elem_key_int elem =
     (case elem of
        None \<Rightarrow> Some 0
      | Some e \<Rightarrow> map_option atoi (elem_key e))"

section \<open>The reference recursion\<close>

text \<open>What a traversal with keys \<open>ks\<close> means: descend, creating what is missing, and set the last key.\<close>

fun path_set :: "kvpath \<Rightarrow> kvtree option \<Rightarrow> kvtree option \<Rightarrow> kvtree option" where
  "path_set [] v hash = hash"
| "path_set [k] v hash = fst (kvtree_set hash (Some k) v)"
| "path_set (k # k' # ks) v hash =
     (let (hash1, p) = kvtree_get_or_new hash (Some k)
      in kvtree_assign hash1 [k] (path_set (k' # ks) v (kvtree_lookup hash1 [k])))"

text \<open>The keys a format and its arguments stand for, if no round of the loop aborts.\<close>

fun fmt_keys :: "string list \<Rightarrow> fmt_arg list \<Rightarrow> kv_error + kvpath" where
  "fmt_keys [] args = Inr []"
| "fmt_keys (token # tokens) args =
     (case next_key token args of
        Inl e \<Rightarrow> Inl e
      | Inr k \<Rightarrow> (case fmt_keys tokens (tl args) of Inl e \<Rightarrow> Inl e | Inr ks \<Rightarrow> Inr (k # ks)))"

section \<open>The loops compute the reference recursion\<close>

lemma get_or_new_ptr:
  assumes "kvtree_get_or_new (Some t) (Some k) = (hash, ptr)"
  obtains s where "ptr = Some [k]" and "kvtree_lookup hash [k] = Some s"
  using paths_get_or_new [OF assms] by blast

lemma setf_loop_step:
  "next_key token args = Inr k \<Longrightarrow> i + 1 < cnt \<Longrightarrow> kvtree_lookup hash p = Some t \<Longrightarrow>
     kvtree_get_or_new (Some t) (Some k) = (sub, Some [k]) \<Longrightarrow>
     setf_loop cnt v hash (Some p) i (token # tokens) args =
       setf_loop cnt v (kvtree_assign hash p sub) (Some (p @ [k])) (i + 1) tokens (tl args)"
  by simp

lemma setf_loop_eq:
  assumes "fmt_keys tokens args = Inr ks" and "tokens \<noteq> []" and "i + length tokens = cnt"
    and "kvtree_lookup hash p \<noteq> None"
  shows "setf_loop cnt v hash (Some p) i tokens args =
    Inr (kvtree_assign hash p (path_set ks v (kvtree_lookup hash p)),
         if v = None then None else Some (p @ ks))"
  using assms
proof (induction tokens arbitrary: args ks i hash p)
  case (Cons token tokens)
  from Cons.prems(1) obtain k ks' where k: "next_key token args = Inr k"
    and ks': "fmt_keys tokens (tl args) = Inr ks'" and ks: "ks = k # ks'"
    by (auto split: sum.splits)
  from Cons.prems(4) obtain t where t: "kvtree_lookup hash p = Some t" by blast
  show ?case
  proof (cases tokens)
    case Nil
    then show ?thesis
      using Cons.prems(3) k ks ks' t by (simp add: kvtree_set_eq)
  next
    case (Cons token' tokens')
    obtain sub ptr where g: "kvtree_get_or_new (Some t) (Some k) = (sub, ptr)" by force
    then obtain s where ptr: "ptr = Some [k]" and s: "kvtree_lookup sub [k] = Some s"
      by (rule get_or_new_ptr)
    let ?hash = "kvtree_assign hash p sub"
    have la: "kvtree_lookup ?hash p = sub"
      using Cons.prems(4) by (rule lookup_assign)
    then have lk: "kvtree_lookup ?hash (p @ [k]) = Some s"
      using s by (simp add: lookup_append)
    from ks' local.Cons obtain k' ks'' where ks'': "ks' = k' # ks''"
      by (auto split: sum.splits)
    have "setf_loop cnt v ?hash (Some (p @ [k])) (i + 1) tokens (tl args) =
        Inr (kvtree_assign ?hash (p @ [k]) (path_set ks' v (Some s)),
             if v = None then None else Some ((p @ [k]) @ ks'))"
      using Cons.IH [OF ks', of "i + 1" ?hash "p @ [k]"] local.Cons Cons.prems(3) lk by simp
    also have "kvtree_assign ?hash (p @ [k]) (path_set ks' v (Some s)) =
        kvtree_assign hash p (path_set ks v (Some t))"
      using assign_append [OF Cons.prems(4)] g s by (simp add: ks ks'' del: kvtree_lookup.simps)
    finally have "setf_loop cnt v ?hash (Some (p @ [k])) (i + 1) tokens (tl args) =
        Inr (kvtree_assign hash p (path_set ks v (Some t)), if v = None then None else Some (p @ ks))"
      by (simp add: ks)
    moreover have "i + 1 < cnt" using Cons.prems(3) local.Cons by simp
    ultimately show ?thesis
      using setf_loop_step [OF k _ t g [unfolded ptr]] by (simp only: t)
  qed
qed simp

lemma setf_loop_error:
  assumes "fmt_keys tokens args = Inl e" and "i + length tokens = cnt" and "kvtree_lookup hash p \<noteq> None"
  shows "setf_loop cnt v hash (Some p) i tokens args = Inl e"
  using assms
proof (induction tokens arbitrary: args i hash p)
  case (Cons token tokens)
  show ?case
  proof (cases "next_key token args")
    case (Inl e')
    with Cons.prems show ?thesis by simp
  next
    case (Inr k)
    with Cons.prems(1) have e: "fmt_keys tokens (tl args) = Inl e" by (auto split: sum.splits)
    then have more: "tokens \<noteq> []" by auto
    from Cons.prems(3) obtain t where t: "kvtree_lookup hash p = Some t" by blast
    obtain sub ptr where g: "kvtree_get_or_new (Some t) (Some k) = (sub, ptr)" by force
    then obtain s where ptr: "ptr = Some [k]" and s: "kvtree_lookup sub [k] = Some s"
      by (rule get_or_new_ptr)
    have "kvtree_lookup (kvtree_assign hash p sub) (p @ [k]) = Some s"
      using s lookup_assign [OF Cons.prems(3), of sub] by (simp add: lookup_append)
    then have "setf_loop cnt v (kvtree_assign hash p sub) (Some (p @ [k])) (i + 1) tokens (tl args) = Inl e"
      using Cons.prems(2) by (intro Cons.IH [OF e]) simp_all
    moreover have "i + 1 < cnt" using Cons.prems(2) more by (cases tokens) simp_all
    ultimately show ?thesis
      using setf_loop_step [OF Inr _ t g [unfolded ptr]] by (simp only:)
  qed
qed simp

lemma kvtree_setf_eq:
  assumes "fmt_keys (strtok_tokens [] fmt) args = Inr ks" and "ks \<noteq> []"
  shows "kvtree_setf (Some t) v fmt args =
    Inr (path_set ks v (Some t), if v = None then None else Some ks)"
proof -
  have "strtok_tokens [] fmt \<noteq> []" using assms by auto
  then show ?thesis
    using setf_loop_eq [OF assms(1), of 0 _ "Some t" "[]" v]
    by (simp add: kvtree_setf_def kvtree_assign.simps)
qed

lemma kvtree_setf_error:
  "fmt_keys (strtok_tokens [] fmt) args = Inl e \<Longrightarrow> kvtree_setf (Some t) v fmt args = Inl e"
  using setf_loop_error [of _ args e 0 _ "Some t" "[]" v] by (simp add: kvtree_setf_def)

lemma getf_loop_eq:
  assumes "fmt_keys tokens args = Inr ks" and "i + length tokens = cnt"
  shows "\<exists>r. getf_loop cnt hash h i tokens args = Inr r \<and>
    kvtree_deref hash r = kvtree_lookup (kvtree_deref hash h) ks"
  using assms
proof (induction tokens arbitrary: args ks i h)
  case (Cons token tokens)
  from Cons.prems(1) obtain k ks' where k: "next_key token args = Inr k"
    and ks': "fmt_keys tokens (tl args) = Inr ks'" and ks: "ks = k # ks'"
    by (auto split: sum.splits)
  show ?case
  proof (cases h)
    case None
    then show ?thesis by simp
  next
    case (Some p)
    have "kvtree_deref hash (ptr_append h (kvtree_get_ptr (kvtree_deref hash h) (Some k))) =
        kvtree_get (kvtree_deref hash h) (Some k)"
      by (simp add: Some lookup_append)
    with Cons.IH [OF ks', of "i + 1" "ptr_append h (kvtree_get_ptr (kvtree_deref hash h) (Some k))"]
    show ?thesis
      using Cons.prems(2) Some k by (simp add: ks)
  qed
qed simp

lemma lookup_path_set: "ks \<noteq> [] \<Longrightarrow> kvtree_lookup (path_set ks v (Some t)) ks = v"
proof (induction ks arbitrary: t)
  case (Cons k ks)
  show ?case
  proof (cases ks)
    case Nil
    then show ?thesis by (simp add: get_set_law)
  next
    case (Cons k' ks')
    obtain sub ptr where g: "kvtree_get_or_new (Some t) (Some k) = (sub, ptr)" by force
    then obtain s where s: "kvtree_lookup sub [k] = Some s"
      by (rule get_or_new_ptr)
    then have "kvtree_lookup (kvtree_assign sub [k] (path_set ks v (Some s))) [k] = path_set ks v (Some s)"
      by (intro lookup_assign) simp
    then show ?thesis
      using g s Cons.IH [of s] local.Cons by simp
  qed
qed simp

section \<open>What a traversal writes\<close>

lemma path_set_step:
  assumes "kvtree_wf t" and "is_cstring k" and "ks \<noteq> []"
  obtains t1 s where "kvtree_wf t1" and "kvtree_wf s" and "kvtree_paths t1 = insert [k] (kvtree_paths t)"
    and "kvtree_get (Some t1) (Some k) = Some s"
    and "path_set (k # ks) v (Some t) = kvtree_assign (Some t1) [k] (path_set ks v (Some s))"
proof -
  obtain hash ptr where g: "kvtree_get_or_new (Some t) (Some k) = (hash, ptr)" by force
  from paths_get_or_new [OF g] obtain t1 s where t1: "hash = Some t1"
    and s: "kvtree_get (Some t1) (Some k) = Some s" and paths: "kvtree_paths t1 = insert [k] (kvtree_paths t)"
    by (cases hash) auto
  have wf1: "kvtree_wf t1" using kvtree_get_or_new_wf [of "Some t" "Some k"] assms(1,2) g t1 by simp
  have wfs: "kvtree_wf s" using kvtree_get_wf [of "Some t1" "Some k"] wf1 s by simp
  have "path_set (k # ks) v (Some t) = kvtree_assign (Some t1) [k] (path_set ks v (Some s))"
    using assms(3) g t1 s by (cases ks) simp_all
  with wf1 wfs paths s show thesis by (rule that)
qed

lemma path_set_wf:
  assumes "kvtree_wf t" and "\<forall>k \<in> set ks. is_cstring k" and "hash_wf v"
  shows "hash_wf (path_set ks v (Some t))"
  using assms
proof (induction ks arbitrary: t)
  case (Cons k ks)
  show ?case
  proof (cases "ks = []")
    case True
    then show ?thesis using Cons.prems kvtree_set_wf [of "Some t" "Some k" v] by simp
  next
    case False
    obtain t1 s where "kvtree_wf t1" "kvtree_wf s"
      "path_set (k # ks) v (Some t) = kvtree_assign (Some t1) [k] (path_set ks v (Some s))"
      using path_set_step [of t k ks v] Cons.prems False by (metis list.set_intros(1))
    then show ?thesis using Cons by (simp add: assign_wf)
  qed
qed simp

lemma take_images:
  "{take i (k # ks) |i. i \<le> length (k # ks)} = insert [] ((#) k ` {take i ks |i. i \<le> length ks})"
  (is "?l = ?r")
proof (intro equalityI subsetI)
  fix p assume "p \<in> ?l"
  then obtain i where "p = take i (k # ks)" "i \<le> Suc (length ks)" by auto
  then show "p \<in> ?r" by (cases i) auto
next
  fix p assume "p \<in> ?r"
  then consider "p = take 0 (k # ks)" | i where "p = take (Suc i) (k # ks)" "i \<le> length ks" by auto
  then show "p \<in> ?l" by cases (blast, force)
qed

lemma path_set_paths:
  assumes "kvtree_wf t" and "ks \<noteq> []" and "\<forall>k \<in> set ks. is_cstring k"
  shows "hash_paths (path_set ks v (Some t)) =
      {p \<in> kvtree_paths t. \<nexists>q. p = ks @ q} \<union> {take i ks |i. i \<le> length ks} \<union> (@) ks ` hash_paths v"
  using assms
proof (induction ks arbitrary: t)
  case (Cons k ks)
  note takes = take_images [of k ks]
  show ?case
  proof (cases "ks = []")
    case True
    have "hash_paths (path_set (k # ks) v (Some t)) = prune k (kvtree_paths t) \<union> (#) k ` hash_paths v"
      using paths_set [OF Cons.prems(1)] True by simp
    also have "\<dots> = {p \<in> kvtree_paths t. \<nexists>q. p = (k # ks) @ q} \<union> insert [] ((#) k ` {take i ks |i. i \<le> length ks}) \<union>
        (@) (k # ks) ` hash_paths v"
      by (auto simp: True prune_def)
    finally show ?thesis by (simp only: takes)
  next
    case False
    obtain t1 s where wf: "kvtree_wf t1" "kvtree_wf s" and t1: "kvtree_paths t1 = insert [k] (kvtree_paths t)"
      and s: "kvtree_get (Some t1) (Some k) = Some s"
      and eq: "path_set (k # ks) v (Some t) = kvtree_assign (Some t1) [k] (path_set ks v (Some s))"
      using path_set_step [of t k ks v] Cons.prems(1,3) False by (metis list.set_intros(1))
    have "hash_paths (path_set (k # ks) v (Some t)) =
        prune k (kvtree_paths t1) \<union> (#) k ` hash_paths (path_set ks v (Some s))"
      unfolding eq by (rule paths_assign_key [OF wf(1) s])
    also have "hash_paths (path_set ks v (Some s)) =
        {p. k # p \<in> kvtree_paths t1 \<and> (\<nexists>q. p = ks @ q)} \<union> {take i ks |i. i \<le> length ks} \<union> (@) ks ` hash_paths v"
      using Cons.IH [OF wf(2) False] Cons.prems(3) get_paths_eq [OF wf(1) s] by simp
    also have "prune k (kvtree_paths t1) \<union> (#) k ` ({p. k # p \<in> kvtree_paths t1 \<and> (\<nexists>q. p = ks @ q)} \<union>
        {take i ks |i. i \<le> length ks} \<union> (@) ks ` hash_paths v) =
        {p \<in> kvtree_paths t. \<nexists>q. p = (k # ks) @ q} \<union> insert [] ((#) k ` {take i ks |i. i \<le> length ks}) \<union>
        (@) (k # ks) ` hash_paths v"
      by (auto simp: t1 prune_def image_iff)
    finally show ?thesis by (simp only: takes)
  qed
qed simp

lemma path_set_nonnull:
  assumes "kvtree_wf t" and "ks \<noteq> []" and "\<forall>k \<in> set ks. is_cstring k"
  shows "path_set ks v (Some t) \<noteq> None"
proof
  assume "path_set ks v (Some t) = None"
  then have "take (length ks) ks \<in> {[]}" using path_set_paths [OF assms, of v] by fastforce
  with assms(2) show False by simp
qed

section \<open>When a traversal aborts\<close>

text \<open>The documented directives, each with the type of its argument and the text it prints, stated apart
  from the code of the loops.\<close>

inductive prints_as :: "string \<Rightarrow> fmt_arg \<Rightarrow> string \<Rightarrow> bool" where
  "prints_as ''%s'' (ArgStr (Some s)) s"
| "prints_as ''%d'' (ArgInt i) (fmt_signed i)"
| "prints_as ''%lld'' (ArgLongLong i) (fmt_signed i)"
| "prints_as ''%lu'' (ArgULong w) (fmt_unsigned (unat w))"
| "prints_as ''%#x'' (ArgUInt w) (fmt_hex_alt (unat w))"
| "prints_as ''%#lx'' (ArgULong w) (fmt_hex_alt (unat w))"
| "prints_as ''%llu'' (ArgULongLong w) (fmt_unsigned (unat w))"
| "prints_as ''%f'' (ArgDouble w) (fmt_f w)"
| "prints_as ''%p'' (ArgPtr w) (fmt_ptr (unat w))"

definition directives :: "string set" where
  "directives = {''%s'', ''%d'', ''%lld'', ''%lu'', ''%#x'', ''%#lx'', ''%llu'', ''%f'', ''%p''}"

text \<open>Every directive finds an argument of its type: what a C caller has to guarantee.\<close>

definition args_fit :: "string list \<Rightarrow> fmt_arg list \<Rightarrow> bool" where
  "args_fit tokens args \<longleftrightarrow>
     (\<forall>i < length tokens. tokens ! i \<in> directives \<longrightarrow>
        i < length args \<and> (\<exists>k. prints_as (tokens ! i) (args ! i) k))"

definition key_error :: "string \<Rightarrow> fmt_arg \<Rightarrow> kv_error \<Rightarrow> bool" where
  "key_error token arg e \<longleftrightarrow>
     token \<notin> directives \<and> e = Unsupported_format token \<or>
     (\<exists>k. prints_as token arg k \<and> 1024 \<le> length k \<and> e = Key_too_long)"

lemma prints_as_directive: "prints_as token arg k \<Longrightarrow> token \<in> directives"
  by (induction rule: prints_as.induct) (simp_all add: directives_def)

lemma prints_as_snprintf: "prints_as token arg k \<Longrightarrow> snprintf_key token (Some arg) = Inr k"
  by (induction rule: prints_as.induct) (simp_all add: snprintf_key_def)

lemma prints_as_unique: "prints_as token arg k \<Longrightarrow> prints_as token arg k' \<Longrightarrow> k = k'"
  by (drule prints_as_snprintf)+ simp

lemma next_key_unsupported: "token \<notin> directives \<Longrightarrow> next_key token args = Inl (Unsupported_format token)"
  by (simp add: directives_def next_key_def snprintf_key_def)

lemma next_key_prints:
  "prints_as token arg k \<Longrightarrow>
     next_key token (arg # args) = (if 1024 \<le> length k then Inl Key_too_long else Inr k)"
  by (simp add: next_key_def prints_as_snprintf KVTREE_MAX_LINE_def)

lemma args_fit_Cons:
  assumes "args_fit (token # tokens) args" and "token \<in> directives"
  obtains arg args' k where "args = arg # args'" and "prints_as token arg k" and "args_fit tokens args'"
proof -
  from assms have "0 < length args" and p: "\<exists>k. prints_as token (args ! 0) k"
    by (force simp: args_fit_def)+
  then obtain arg args' where args: "args = arg # args'" by (cases args) auto
  moreover have "args_fit tokens args'"
    using assms(1) unfolding args args_fit_def by fastforce
  ultimately show thesis using that p by auto
qed

lemma ex_index_Cons:
  "(\<exists>i < length (x # xs). P i \<and> (\<forall>j < i. Q j)) \<longleftrightarrow>
     P 0 \<or> Q 0 \<and> (\<exists>i < length xs. P (Suc i) \<and> (\<forall>j < i. Q (Suc j)))"
  by (auto simp: Ex_less_Suc2 All_less_Suc2)

lemma fmt_keys_error_iff:
  "args_fit tokens args \<Longrightarrow>
     fmt_keys tokens args = Inl e \<longleftrightarrow>
     (\<exists>i < length tokens. key_error (tokens ! i) (args ! i) e \<and>
       (\<forall>j < i. \<exists>k. prints_as (tokens ! j) (args ! j) k \<and> length k < 1024))"
proof (induction tokens arbitrary: args)
  case (Cons token tokens)
  show ?case
  proof (cases "token \<in> directives")
    case False
    then have none: "\<not> prints_as token arg k" for arg k using prints_as_directive by blast
    then show ?thesis
      using False by (simp only: ex_index_Cons) (auto simp: next_key_unsupported key_error_def)
  next
    case True
    from Cons.prems True obtain arg args' k
      where args: "args = arg # args'" and k: "prints_as token arg k" and fit: "args_fit tokens args'"
      by (rule args_fit_Cons)
    have only: "prints_as token arg k' \<longleftrightarrow> k' = k" for k' using k prints_as_unique by blast
    show ?thesis
      using Cons.IH [OF fit] True
      by (simp only: ex_index_Cons)
        (auto simp: args only next_key_prints [OF k] key_error_def split: sum.splits)
  qed
qed simp

lemma kvtree_setf_error_iff:
  "kvtree_setf (Some t) v fmt args = Inl e \<longleftrightarrow> fmt_keys (strtok_tokens [] fmt) args = Inl e"
proof (cases "fmt_keys (strtok_tokens [] fmt) args")
  case (Inl e')
  then show ?thesis using kvtree_setf_error [OF Inl, of t v] by simp
next
  case (Inr ks)
  show ?thesis
  proof (cases "ks = []")
    case True
    with Inr have "strtok_tokens [] fmt = []" by (cases "strtok_tokens [] fmt") (auto split: sum.splits)
    then show ?thesis by (simp add: kvtree_setf_def)
  next
    case False
    then show ?thesis using kvtree_setf_eq [OF Inr False, of t v] Inr by simp
  qed
qed

section \<open>Properties\<close>

text \<open>C11. \<open>kvtree_setf\<close> with a format and arguments that name the keys \<open>ks\<close> writes the value at that
  path: it replaces what was below it, creates the missing keys on the way, keeps every other path
  and the well-formedness, and \<open>kvtree_getf\<close> with the same format and arguments returns the value.\<close>

theorem setf_then_getf:
  assumes "fmt_keys (strtok_tokens [] fmt) args = Inr ks" and "ks \<noteq> []" and "\<forall>k \<in> set ks. is_cstring k"
    and "kvtree_wf t" and "hash_wf v"
  shows "\<exists>u r. kvtree_setf (Some t) v fmt args = Inr (Some u, if v = None then None else Some ks) \<and>
    kvtree_wf u \<and>
    kvtree_paths u = {p \<in> kvtree_paths t. \<nexists>q. p = ks @ q} \<union> {take i ks |i. i \<le> length ks} \<union> (@) ks ` hash_paths v \<and>
    kvtree_getf (Some u) fmt args = Inr r \<and> kvtree_deref (Some u) r = v"
proof -
  obtain u where u: "path_set ks v (Some t) = Some u"
    using path_set_nonnull [OF assms(4,2,3)] by blast
  have "kvtree_setf (Some t) v fmt args = Inr (Some u, if v = None then None else Some ks)"
    using kvtree_setf_eq [OF assms(1,2)] u by simp
  moreover have "kvtree_wf u" using path_set_wf [OF assms(4,3,5)] u by simp
  moreover have "kvtree_paths u = {p \<in> kvtree_paths t. \<nexists>q. p = ks @ q} \<union> {take i ks |i. i \<le> length ks} \<union> (@) ks ` hash_paths v"
    using path_set_paths [OF assms(4,2,3), of v] u by simp
  moreover have "\<exists>r. kvtree_getf (Some u) fmt args = Inr r \<and> kvtree_deref (Some u) r = kvtree_lookup (Some u) ks"
    using getf_loop_eq [OF assms(1), of 0 _ "Some u" "Some []"] by (simp add: kvtree_getf_def Let_def)
  moreover have "kvtree_lookup (Some u) ks = v" using lookup_path_set [OF assms(2), of v t] u by simp
  ultimately show ?thesis by auto
qed

theorem setf_then_getf_witness:
  "\<exists>u r. kvtree_setf (Some kvtree_new) (Some kvtree_new) ''%s %d'' [ArgStr (Some ''rank''), ArgInt 7] =
      Inr (Some u, if Some kvtree_new = None then None else Some [''rank'', ''7'']) \<and>
    kvtree_wf u \<and>
    kvtree_paths u = {p \<in> kvtree_paths kvtree_new. \<nexists>q. p = [''rank'', ''7''] @ q} \<union>
      {take i [''rank'', ''7''] |i. i \<le> length [''rank'', ''7'']} \<union> (@) [''rank'', ''7''] ` hash_paths (Some kvtree_new) \<and>
    kvtree_getf (Some u) ''%s %d'' [ArgStr (Some ''rank''), ArgInt 7] = Inr r \<and>
    kvtree_deref (Some u) r = Some kvtree_new"
proof (rule setf_then_getf)
  show "fmt_keys (strtok_tokens [] ''%s %d'') [ArgStr (Some ''rank''), ArgInt 7] = Inr [''rank'', ''7'']"
    by code_simp
qed simp_all

text \<open>C30. The nine directives \<open>%s\<close>, \<open>%d\<close>, \<open>%lld\<close>, \<open>%lu\<close>, \<open>%#x\<close>, \<open>%#lx\<close>, \<open>%llu\<close>, \<open>%f\<close> and \<open>%p\<close> are the only
  tokens a format may hold. When every directive finds an argument of its type, \<open>kvtree_setf\<close> on a tree
  aborts exactly when some token is none of them (the unsupported format) or prints a key of 1024
  characters or more (the key that is too long), and the error is that of the first such token. A
  missing argument or one of another type is no abort but undefined in C, and excluded.\<close>

theorem setf_aborts_iff:
  assumes "args_fit (strtok_tokens [] fmt) args"
  shows "kvtree_setf (Some t) v fmt args = Inl e \<longleftrightarrow>
    (\<exists>i < length (strtok_tokens [] fmt).
       key_error (strtok_tokens [] fmt ! i) (args ! i) e \<and>
       (\<forall>j < i. \<exists>k. prints_as (strtok_tokens [] fmt ! j) (args ! j) k \<and> length k < 1024))"
  using kvtree_setf_error_iff fmt_keys_error_iff [OF assms] by simp

theorem setf_aborts_iff_witness:
  "kvtree_setf (Some kvtree_new) None ''%d %s %q'' [ArgInt 7, ArgStr (Some (replicate 1024 CHR ''a''))] =
     Inl Key_too_long"
proof -
  let ?args = "[ArgInt 7, ArgStr (Some (replicate 1024 CHR ''a''))]"
  have tokens: "strtok_tokens [] ''%d %s %q'' = [''%d'', ''%s'', ''%q'']" by code_simp
  have d: "prints_as ''%d'' (ArgInt 7) ''7''"
  proof -
    have "fmt_signed 7 = ''7''" by code_simp
    then show ?thesis using prints_as.intros(2) [of 7] by simp
  qed
  have s: "prints_as ''%s'' (ArgStr (Some (replicate 1024 CHR ''a''))) (replicate 1024 CHR ''a'')"
    by (rule prints_as.intros)
  have "args_fit (strtok_tokens [] ''%d %s %q'') ?args"
    using d s by (auto simp: args_fit_def tokens directives_def less_Suc_eq)
  note iff = setf_aborts_iff [OF this, of kvtree_new None Key_too_long, unfolded tokens]
  have "key_error ''%s'' (?args ! 1) Key_too_long" using s by (auto simp: key_error_def)
  then show ?thesis using d by (intro iff [THEN iffD2] exI [of _ 1]) auto
qed

end
