(* ===== verification/KV_Helpers.thy ===== *)
theory KV_Helpers
  imports KV_Prelude
begin

text \<open>
  Packing unsigned integers in network order (\<open>src/kvtree_helpers.c\<close>, \<open>src/kvtree_byteswap.h\<close>,
  \<open>src/kvtree_io.h\<close>). A buffer is a list of bytes; \<open>memcpy\<close> within it is \<open>mem_write\<close> and
  \<open>mem_read\<close>, which are \<open>None\<close> when an access leaves the allocation. The byte order of the host is
  a parameter. A pointer argument that the code compares with NULL is an option. The interface
  \<open>wire\<close> is what the callers rely on: what the bytes are, what is left alone, and when a call fails.
\<close>

section \<open>Memory\<close>

definition mem_write :: "byte list \<Rightarrow> nat \<Rightarrow> byte list \<Rightarrow> byte list option" where
  "mem_write buf pos bs =
     (if pos + length bs \<le> length buf
      then Some (take pos buf @ bs @ drop (pos + length bs) buf) else None)"

definition mem_read :: "byte list \<Rightarrow> nat \<Rightarrow> nat \<Rightarrow> byte list option" where
  "mem_read buf pos n = (if pos + n \<le> length buf then Some (take n (drop pos buf)) else None)"

text \<open>Addition of two values of \<open>size_t\<close>.\<close>

definition size_add :: "nat \<Rightarrow> nat \<Rightarrow> nat" where
  "size_add a b = (a + b) mod 2 ^ 64"

section \<open>Byte order\<close>

datatype endian = Little_endian | Big_endian

fun le_bytes :: "nat \<Rightarrow> 'a::len word \<Rightarrow> byte list" where
  "le_bytes 0 w = []"
| "le_bytes (Suc n) w = ucast w # le_bytes n (drop_bit 8 w)"

fun le_word :: "byte list \<Rightarrow> 'a::len word" where
  "le_word [] = 0"
| "le_word (b # bs) = ucast b OR push_bit 8 (le_word bs)"

text \<open>The bytes of a value as the host stores it, and the value of such bytes.\<close>

definition host_bytes :: "endian \<Rightarrow> nat \<Rightarrow> 'a::len word \<Rightarrow> byte list" where
  "host_bytes e n w =
     (case e of Little_endian \<Rightarrow> le_bytes n w | Big_endian \<Rightarrow> rev (le_bytes n w))"

definition host_word :: "endian \<Rightarrow> byte list \<Rightarrow> 'a::len word" where
  "host_word e bs = (case e of Little_endian \<Rightarrow> le_word bs | Big_endian \<Rightarrow> le_word (rev bs))"

definition be_bytes :: "nat \<Rightarrow> 'a::len word \<Rightarrow> byte list" where
  "be_bytes n w = rev (le_bytes n w)"

definition kvtree_bswap_16 :: "u16 \<Rightarrow> u16" where
  "kvtree_bswap_16 x = (drop_bit 8 x AND 0xff) OR push_bit 8 (x AND 0xff)"

definition kvtree_bswap_32 :: "u32 \<Rightarrow> u32" where
  "kvtree_bswap_32 x =
     drop_bit 24 (x AND 0xff000000) OR drop_bit 8 (x AND 0x00ff0000) OR
     push_bit 8 (x AND 0x0000ff00) OR push_bit 24 (x AND 0x000000ff)"

text \<open>The union of \<open>kvtree_bswap_64\<close>: the low half is member 0 on the little-endian hosts the
  macro is used on.\<close>

definition kvtree_bswap_64 :: "u64 \<Rightarrow> u64" where
  "kvtree_bswap_64 x =
     (let w0 = ucast x :: u32;
          w1 = ucast (drop_bit 32 x) :: u32;
          r0 = kvtree_bswap_32 w1;
          r1 = kvtree_bswap_32 w0
      in ucast r0 OR push_bit 32 (ucast r1))"

definition kvtree_hton16 :: "endian \<Rightarrow> u16 \<Rightarrow> u16" where
  "kvtree_hton16 e x = (case e of Little_endian \<Rightarrow> kvtree_bswap_16 x | Big_endian \<Rightarrow> x)"

definition kvtree_hton32 :: "endian \<Rightarrow> u32 \<Rightarrow> u32" where
  "kvtree_hton32 e x = (case e of Little_endian \<Rightarrow> kvtree_bswap_32 x | Big_endian \<Rightarrow> x)"

definition kvtree_hton64 :: "endian \<Rightarrow> u64 \<Rightarrow> u64" where
  "kvtree_hton64 e x = (case e of Little_endian \<Rightarrow> kvtree_bswap_64 x | Big_endian \<Rightarrow> x)"

definition kvtree_ntoh16 :: "endian \<Rightarrow> u16 \<Rightarrow> u16" where
  "kvtree_ntoh16 e x = (case e of Little_endian \<Rightarrow> kvtree_bswap_16 x | Big_endian \<Rightarrow> x)"

definition kvtree_ntoh32 :: "endian \<Rightarrow> u32 \<Rightarrow> u32" where
  "kvtree_ntoh32 e x = (case e of Little_endian \<Rightarrow> kvtree_bswap_32 x | Big_endian \<Rightarrow> x)"

definition kvtree_ntoh64 :: "endian \<Rightarrow> u64 \<Rightarrow> u64" where
  "kvtree_ntoh64 e x = (case e of Little_endian \<Rightarrow> kvtree_bswap_64 x | Big_endian \<Rightarrow> x)"

section \<open>Pack and unpack\<close>

text \<open>The common text of the three pack functions and of the three unpack functions; they differ
  in the width \<open>n\<close> and the conversion.\<close>

definition pack_uint ::
  "endian \<Rightarrow> nat \<Rightarrow> ('a::len word \<Rightarrow> 'a word) \<Rightarrow> byte list option \<Rightarrow> nat \<Rightarrow> nat option \<Rightarrow> 'a word
     \<Rightarrow> (int \<times> byte list option \<times> nat option) option" where
  "pack_uint e n hton buf buf_size buf_pos val =
     (case (buf, buf_pos) of
        (Some b, Some pos) \<Rightarrow>
          (let pos_final = size_add pos n
           in if pos_final > buf_size then Some (KVTREE_FAILURE, buf, buf_pos)
              else (case mem_write b pos (host_bytes e n (hton val)) of
                      None \<Rightarrow> None
                    | Some b' \<Rightarrow> Some (KVTREE_SUCCESS, Some b', Some pos_final)))
      | _ \<Rightarrow> Some (KVTREE_FAILURE, buf, buf_pos))"

definition unpack_uint ::
  "endian \<Rightarrow> nat \<Rightarrow> ('a::len word \<Rightarrow> 'a word) \<Rightarrow> byte list option \<Rightarrow> nat \<Rightarrow> nat option \<Rightarrow> 'a word option
     \<Rightarrow> (int \<times> nat option \<times> 'a word option) option" where
  "unpack_uint e n ntoh buf buf_size buf_pos val =
     (case (buf, buf_pos, val) of
        (Some b, Some pos, Some _) \<Rightarrow>
          (let pos_final = size_add pos n
           in if pos_final > buf_size then Some (KVTREE_FAILURE, buf_pos, val)
              else (case mem_read b pos n of
                      None \<Rightarrow> None
                    | Some bs \<Rightarrow>
                        Some (KVTREE_SUCCESS, Some pos_final, Some (ntoh (host_word e bs)))))
      | _ \<Rightarrow> Some (KVTREE_FAILURE, buf_pos, val))"

definition kvtree_pack_uint16_t ::
  "endian \<Rightarrow> byte list option \<Rightarrow> nat \<Rightarrow> nat option \<Rightarrow> u16 \<Rightarrow> (int \<times> byte list option \<times> nat option) option" where
  "kvtree_pack_uint16_t e = pack_uint e 2 (kvtree_hton16 e)"

definition kvtree_pack_uint32_t ::
  "endian \<Rightarrow> byte list option \<Rightarrow> nat \<Rightarrow> nat option \<Rightarrow> u32 \<Rightarrow> (int \<times> byte list option \<times> nat option) option" where
  "kvtree_pack_uint32_t e = pack_uint e 4 (kvtree_hton32 e)"

definition kvtree_pack_uint64_t ::
  "endian \<Rightarrow> byte list option \<Rightarrow> nat \<Rightarrow> nat option \<Rightarrow> u64 \<Rightarrow> (int \<times> byte list option \<times> nat option) option" where
  "kvtree_pack_uint64_t e = pack_uint e 8 (kvtree_hton64 e)"

definition kvtree_unpack_uint16_t ::
  "endian \<Rightarrow> byte list option \<Rightarrow> nat \<Rightarrow> nat option \<Rightarrow> u16 option \<Rightarrow> (int \<times> nat option \<times> u16 option) option" where
  "kvtree_unpack_uint16_t e = unpack_uint e 2 (kvtree_ntoh16 e)"

definition kvtree_unpack_uint32_t ::
  "endian \<Rightarrow> byte list option \<Rightarrow> nat \<Rightarrow> nat option \<Rightarrow> u32 option \<Rightarrow> (int \<times> nat option \<times> u32 option) option" where
  "kvtree_unpack_uint32_t e = unpack_uint e 4 (kvtree_ntoh32 e)"

definition kvtree_unpack_uint64_t ::
  "endian \<Rightarrow> byte list option \<Rightarrow> nat \<Rightarrow> nat option \<Rightarrow> u64 option \<Rightarrow> (int \<times> nat option \<times> u64 option) option" where
  "kvtree_unpack_uint64_t e = unpack_uint e 8 (kvtree_ntoh64 e)"

section \<open>Byte lists and words\<close>

lemma length_le_bytes [simp]: "length (le_bytes n w) = n"
  by (induction n w rule: le_bytes.induct) auto

lemma length_be_bytes [simp]: "length (be_bytes n w) = n"
  by (simp add: be_bytes_def)

lemma length_host_bytes [simp]: "length (host_bytes e n w) = n"
  by (cases e) (simp_all add: host_bytes_def)

lemma bit_le_word:
  fixes w :: "'a::len word"
  shows "bit (le_word (le_bytes n w) :: 'a word) i \<longleftrightarrow> i < 8 * n \<and> bit w i"
proof (induction n arbitrary: w i)
  case (Suc n)
  show ?case
    by (cases "i < LENGTH('a)") (auto simp: bit_simps Suc.IH dest: bit_imp_le_length)
qed simp

lemma le_word_le_bytes:
  fixes w :: "'a::len word"
  assumes "LENGTH('a) \<le> 8 * n"
  shows "le_word (le_bytes n w) = w"
  by (rule bit_word_eqI) (use assms in \<open>auto simp: bit_le_word\<close>)

lemma le_bytes_inject:
  fixes v w :: "'a::len word"
  assumes "LENGTH('a) \<le> 8 * n"
  shows "le_bytes n v = le_bytes n w \<longleftrightarrow> v = w"
  by (metis assms le_word_le_bytes)

lemma le_bytes_cong:
  fixes v w :: "'a::len word"
  shows "(\<And>i. i < 8 * n \<Longrightarrow> bit v i \<longleftrightarrow> bit w i) \<Longrightarrow> le_bytes n v = le_bytes n w"
proof (induction n arbitrary: v w)
  case (Suc n)
  have "ucast v = (ucast w :: byte)" by (rule bit_word_eqI) (simp add: bit_ucast_iff Suc.prems)
  moreover have "le_bytes n (drop_bit 8 v) = le_bytes n (drop_bit 8 w)"
    by (rule Suc.IH) (simp add: bit_drop_bit_eq Suc.prems)
  ultimately show ?case by simp
qed simp

lemma le_bytes_le_word:
  "8 * length bs \<le> LENGTH('a) \<Longrightarrow> le_bytes (length bs) (le_word bs :: 'a::len word) = bs"
proof (induction bs)
  case (Cons b bs)
  let ?w = "le_word bs :: 'a word"
  have "ucast (ucast b OR push_bit 8 ?w) = b"
    by (rule bit_word_eqI) (use Cons.prems in \<open>auto simp: bit_simps\<close>)
  moreover have "le_bytes (length bs) (drop_bit 8 (ucast b OR push_bit 8 ?w)) = le_bytes (length bs) ?w"
    by (rule le_bytes_cong) (use Cons.prems in \<open>auto simp: bit_simps dest: bit_imp_le_length\<close>)
  ultimately show ?case using Cons by simp
qed simp

lemma byte_masks:
  "(0xff :: 'a::len word) = mask 8"
  "(0xff00 :: u32) = push_bit 8 (mask 8)"
  "(0xff0000 :: u32) = push_bit 16 (mask 8)"
  "(0xff000000 :: u32) = push_bit 24 (mask 8)"
  by (simp_all add: mask_eq_exp_minus_1 push_bit_eq_mult)

lemmas bswap_defs = kvtree_bswap_16_def kvtree_bswap_32_def kvtree_bswap_64_def

lemma le_bytes_rec: "0 < n \<Longrightarrow> le_bytes n w = ucast w # le_bytes (n - 1) (drop_bit 8 w)"
  by (cases n) simp_all

lemmas bit_op_iffs = bit_or_iff bit_and_iff bit_drop_bit_eq bit_push_bit_iff bit_mask_iff o_apply

lemma bit_bswap_16:
  "bit (kvtree_bswap_16 x) i \<longleftrightarrow> (if i < 8 then bit x (8 + i) else i < 16 \<and> bit x (i - 8))"
  unfolding kvtree_bswap_16_def byte_masks bit_op_iffs
  by (cases "i < 8"; cases "i < 16") (auto dest: bit_imp_le_length)

lemma bit_bswap_32:
  "bit (kvtree_bswap_32 x) i \<longleftrightarrow>
     (if i < 8 then bit x (24 + i) else if i < 16 then bit x (8 + i)
      else if i < 24 then bit x (i - 8) else i < 32 \<and> bit x (i - 24))"
proof -
  consider "i < 8" | "8 \<le> i" "i < 16" | "16 \<le> i" "i < 24" | "24 \<le> i" "i < 32" | "32 \<le> i" by linarith
  then show ?thesis
    unfolding kvtree_bswap_32_def byte_masks bit_op_iffs
    by cases (simp_all, auto)
qed

lemma bit_bswap_64:
  "bit (kvtree_bswap_64 x) i \<longleftrightarrow>
     (if i < 32 then bit (kvtree_bswap_32 (ucast (drop_bit 32 x))) i
      else i < 64 \<and> bit (kvtree_bswap_32 (ucast x)) (i - 32))"
  unfolding kvtree_bswap_64_def Let_def
  by (cases "i < 32") (auto simp: bit_or_iff bit_push_bit_iff bit_ucast_iff dest: bit_imp_le_length)

lemma le_bytes_bswap:
  "le_bytes 2 (kvtree_bswap_16 x16) = rev (le_bytes 2 x16)"
  "le_bytes 4 (kvtree_bswap_32 x32) = rev (le_bytes 4 x32)"
  by (simp_all add: le_bytes_rec, safe intro!: bit_word_eqI)
    (simp_all add: bit_simps bit_bswap_16 bit_bswap_32)

lemma le_bytes_bswap_64: "le_bytes 8 (kvtree_bswap_64 x64) = rev (le_bytes 8 x64)"
  by (simp add: le_bytes_rec, safe intro!: bit_word_eqI)
    (simp_all add: bit_simps bit_bswap_64 bit_bswap_32)

lemmas hton_defs = kvtree_hton16_def kvtree_hton32_def kvtree_hton64_def
  kvtree_ntoh16_def kvtree_ntoh32_def kvtree_ntoh64_def

text \<open>What lies in the buffer after a conversion does not depend on the host.\<close>

lemma host_bytes_hton [simp]:
  "host_bytes e 2 (kvtree_hton16 e x16) = be_bytes 2 x16"
  "host_bytes e 4 (kvtree_hton32 e x32) = be_bytes 4 x32"
  "host_bytes e 8 (kvtree_hton64 e x64) = be_bytes 8 x64"
  by (cases e; simp add: host_bytes_def hton_defs be_bytes_def le_bytes_bswap le_bytes_bswap_64)+

lemma bswap_bswap [simp]:
  "kvtree_bswap_16 (kvtree_bswap_16 x16) = x16"
  "kvtree_bswap_32 (kvtree_bswap_32 x32) = x32"
  "kvtree_bswap_64 (kvtree_bswap_64 x64) = x64"
  by (simp_all flip: le_bytes_inject [where n = 2] le_bytes_inject [where n = 4] le_bytes_inject [where n = 8]
      add: le_bytes_bswap le_bytes_bswap_64)

lemma ntoh_be_bytes [simp]:
  "kvtree_ntoh16 e (host_word e (be_bytes 2 x16)) = x16"
  "kvtree_ntoh32 e (host_word e (be_bytes 4 x32)) = x32"
  "kvtree_ntoh64 e (host_word e (be_bytes 8 x64)) = x64"
  by (cases e; simp add: host_word_def hton_defs be_bytes_def le_word_le_bytes
      flip: le_bytes_bswap le_bytes_bswap_64)+

text \<open>Every byte string is the encoding of the value that is read from it.\<close>

lemma be_bytes_ntoh:
  "length bs = 2 \<Longrightarrow> be_bytes 2 (kvtree_ntoh16 e (host_word e bs)) = bs"
  "length bs = 4 \<Longrightarrow> be_bytes 4 (kvtree_ntoh32 e (host_word e bs)) = bs"
  "length bs = 8 \<Longrightarrow> be_bytes 8 (kvtree_ntoh64 e (host_word e bs)) = bs"
  using le_bytes_le_word [of bs, where 'a = 16] le_bytes_le_word [of "rev bs", where 'a = 16]
    le_bytes_le_word [of bs, where 'a = 32] le_bytes_le_word [of "rev bs", where 'a = 32]
    le_bytes_le_word [of bs, where 'a = 64] le_bytes_le_word [of "rev bs", where 'a = 64]
  by (cases e; simp add: host_word_def hton_defs be_bytes_def le_bytes_bswap le_bytes_bswap_64)+

section \<open>Buffers\<close>

text \<open>Bytes \<open>bs\<close> at offset \<open>pos\<close> of a buffer.\<close>

definition holds_at :: "byte list \<Rightarrow> nat \<Rightarrow> byte list \<Rightarrow> bool" where
  "holds_at buf pos bs \<longleftrightarrow> pos + length bs \<le> length buf \<and> take (length bs) (drop pos buf) = bs"

definition patch :: "byte list \<Rightarrow> nat \<Rightarrow> byte list \<Rightarrow> byte list" where
  "patch buf pos bs = take pos buf @ bs @ drop (pos + length bs) buf"

lemma mem_write_ok: "pos + length bs \<le> length buf \<Longrightarrow> mem_write buf pos bs = Some (patch buf pos bs)"
  by (simp add: mem_write_def patch_def)

lemma mem_read_ok: "holds_at buf pos bs \<Longrightarrow> length bs = n \<Longrightarrow> mem_read buf pos n = Some bs"
  by (auto simp: mem_read_def holds_at_def)

lemma length_patch [simp]: "pos + length bs \<le> length buf \<Longrightarrow> length (patch buf pos bs) = length buf"
  by (simp add: patch_def)

lemma holds_at_patch: "pos + length bs \<le> length buf \<Longrightarrow> holds_at (patch buf pos bs) pos bs"
  by (simp add: holds_at_def patch_def)

lemma patch_patch:
  "pos + length bs + length cs \<le> length buf \<Longrightarrow> p = pos + length bs \<Longrightarrow>
     patch (patch buf pos bs) p cs = patch buf pos (bs @ cs)"
  by (simp add: patch_def ac_simps)

lemma patch_0: "length bs \<le> length buf \<Longrightarrow> patch buf 0 bs = bs @ drop (length bs) buf"
  by (simp add: patch_def)

lemma holds_at_append:
  "holds_at buf pos (bs @ cs) \<longleftrightarrow> holds_at buf pos bs \<and> holds_at buf (pos + length bs) cs"
  by (cases "pos + length bs \<le> length buf")
    (auto simp: holds_at_def take_add add.commute drop_drop ac_simps)

lemma holds_at_drop: "holds_at buf pos bs \<Longrightarrow> drop pos buf = bs @ drop (pos + length bs) buf"
  using append_take_drop_id [of "length bs" "drop pos buf"] by (simp add: holds_at_def add.commute)

lemma holds_at_self: "holds_at (xs @ bs @ ys) (length xs) bs"
  by (simp add: holds_at_def)

section \<open>The contract of the pack functions\<close>

locale wire =
  fixes pack :: "byte list option \<Rightarrow> nat \<Rightarrow> nat option \<Rightarrow> 'w \<Rightarrow> (int \<times> byte list option \<times> nat option) option"
    and unpack :: "byte list option \<Rightarrow> nat \<Rightarrow> nat option \<Rightarrow> 'w option \<Rightarrow> (int \<times> nat option \<times> 'w option) option"
    and enc :: "'w \<Rightarrow> byte list" and width :: nat
  assumes enc_length: "length (enc v) = width"
    and enc_surj: "length bs = width \<Longrightarrow> \<exists>v. enc v = bs"
    and pack_ok: "pos + width \<le> buf_size \<Longrightarrow> buf_size \<le> length buf \<Longrightarrow> buf_size < 2 ^ 64 \<Longrightarrow>
      pack (Some buf) buf_size (Some pos) v = Some (KVTREE_SUCCESS, Some (patch buf pos (enc v)), Some (pos + width))"
    and unpack_ok: "holds_at buf pos (enc v) \<Longrightarrow> pos + width \<le> buf_size \<Longrightarrow> buf_size < 2 ^ 64 \<Longrightarrow>
      unpack (Some buf) buf_size (Some pos) (Some w) = Some (KVTREE_SUCCESS, Some (pos + width), Some v)"
    and pack_full: "buf_size < pos + width \<Longrightarrow> pos + width < 2 ^ 64 \<Longrightarrow>
      pack (Some buf) buf_size (Some pos) v = Some (KVTREE_FAILURE, Some buf, Some pos)"
    and unpack_full: "buf_size < pos + width \<Longrightarrow> pos + width < 2 ^ 64 \<Longrightarrow>
      unpack (Some buf) buf_size (Some pos) (Some w) = Some (KVTREE_FAILURE, Some pos, Some w)"
begin

text \<open>A value written is the value read back, wherever the position is.\<close>

lemma unpack_pack:
  assumes "pack (Some buf) (length buf) (Some pos) v = Some (KVTREE_SUCCESS, Some buf', Some pos')"
    and "pos + width < 2 ^ 64" "length buf < 2 ^ 64"
  shows "unpack (Some buf') (length buf') (Some pos) (Some w) = Some (KVTREE_SUCCESS, Some pos', Some v)"
proof (cases "pos + width \<le> length buf")
  case True
  then have buf': "buf' = patch buf pos (enc v)" "pos' = pos + width"
    using assms pack_ok [of pos "length buf" buf v] by simp_all
  with True have "holds_at buf' pos (enc v)" "length buf' = length buf"
    by (simp_all add: holds_at_patch enc_length)
  then show ?thesis using unpack_ok [of buf' pos v "length buf'" w] True assms(3) buf'(2) by simp
next
  case False
  then show ?thesis using assms pack_full [of "length buf" pos buf v] by simp
qed

lemma unpack_any:
  assumes "pos + width \<le> length buf" and "length buf < 2 ^ 64"
  obtains v where "enc v = take width (drop pos buf)"
    and "unpack (Some buf) (length buf) (Some pos) (Some w) = Some (KVTREE_SUCCESS, Some (pos + width), Some v)"
proof -
  obtain v where v: "enc v = take width (drop pos buf)"
    using enc_surj [of "take width (drop pos buf)"] assms(1) by auto
  with assms(1) have "holds_at buf pos (enc v)" by (simp add: holds_at_def)
  with v assms show thesis using that unpack_ok by blast
qed

lemma pack_frame:
  assumes "pack (Some buf) (length buf) (Some pos) v = Some (rc, Some buf', Some pos')"
    and "pos + width < 2 ^ 64" "length buf < 2 ^ 64" and "i < pos \<or> pos + width \<le> i" and "i < length buf"
  shows "length buf' = length buf \<and> buf' ! i = buf ! i"
proof (cases "pos + width \<le> length buf")
  case True
  then have "buf' = patch buf pos (enc v)" using assms pack_ok [of pos "length buf" buf v] by simp
  with True assms(4,5) show ?thesis
    by (auto simp: patch_def enc_length nth_append min_def)
next
  case False
  then show ?thesis using assms pack_full [of "length buf" pos buf v] by simp
qed

end

lemma pack_uint_ok:
  assumes "pos + n \<le> buf_size" "buf_size \<le> length buf" "buf_size < 2 ^ 64" "host_bytes e n (hton v) = bs"
  shows "pack_uint e n hton (Some buf) buf_size (Some pos) v =
    Some (KVTREE_SUCCESS, Some (patch buf pos bs), Some (pos + n))"
proof -
  have "length bs = n" using assms(4) by auto
  then show ?thesis using assms by (simp add: pack_uint_def size_add_def mem_write_ok Let_def)
qed

lemma unpack_uint_ok:
  assumes "holds_at buf pos bs" "length bs = n" "pos + n \<le> buf_size" "buf_size < 2 ^ 64"
    and "ntoh (host_word e bs) = v"
  shows "unpack_uint e n ntoh (Some buf) buf_size (Some pos) (Some w) = Some (KVTREE_SUCCESS, Some (pos + n), Some v)"
  using assms by (simp add: unpack_uint_def size_add_def mem_read_ok Let_def)

lemma uint_full:
  assumes "buf_size < pos + n" "pos + n < 2 ^ 64"
  shows "pack_uint e n hton (Some buf) buf_size (Some pos) v = Some (KVTREE_FAILURE, Some buf, Some pos)"
    and "unpack_uint e n ntoh (Some buf) buf_size (Some pos) (Some w) = Some (KVTREE_FAILURE, Some pos, Some w)"
  using assms by (simp_all add: pack_uint_def unpack_uint_def size_add_def Let_def)

lemmas uint_t_defs = kvtree_pack_uint16_t_def kvtree_pack_uint32_t_def kvtree_pack_uint64_t_def
  kvtree_unpack_uint16_t_def kvtree_unpack_uint32_t_def kvtree_unpack_uint64_t_def

interpretation w16: wire "kvtree_pack_uint16_t e" "kvtree_unpack_uint16_t e" "be_bytes 2" 2
  for e
  by unfold_locales (auto simp: uint_t_defs uint_full pack_uint_ok unpack_uint_ok intro: be_bytes_ntoh)

interpretation w32: wire "kvtree_pack_uint32_t e" "kvtree_unpack_uint32_t e" "be_bytes 4" 4
  for e
  by unfold_locales (auto simp: uint_t_defs uint_full pack_uint_ok unpack_uint_ok intro: be_bytes_ntoh)

interpretation w64: wire "kvtree_pack_uint64_t e" "kvtree_unpack_uint64_t e" "be_bytes 8" 8
  for e
  by unfold_locales (auto simp: uint_t_defs uint_full pack_uint_ok unpack_uint_ok intro: be_bytes_ntoh)

section \<open>Properties\<close>

text \<open>C25. A 64-bit value that fits in the buffer is packed into its eight bytes and no other byte is
  touched; a host of either byte order unpacks the same value from them.\<close>

theorem uint64_portable:
  assumes "pos + 8 \<le> length buf" and "length buf < 2 ^ 64"
  shows "\<exists>buf'. kvtree_pack_uint64_t e (Some buf) (length buf) (Some pos) v =
      Some (KVTREE_SUCCESS, Some buf', Some (pos + 8)) \<and>
    length buf' = length buf \<and> (\<forall>i. i < pos \<or> pos + 8 \<le> i \<longrightarrow> i < length buf \<longrightarrow> buf' ! i = buf ! i) \<and>
    kvtree_unpack_uint64_t e' (Some buf') (length buf') (Some pos) (Some w) =
      Some (KVTREE_SUCCESS, Some (pos + 8), Some v)"
proof -
  let ?b = "patch buf pos (be_bytes 8 v)"
  have pack: "kvtree_pack_uint64_t e (Some buf) (length buf) (Some pos) v =
      Some (KVTREE_SUCCESS, Some ?b, Some (pos + 8))"
    by (rule w64.pack_ok) (use assms in simp_all)
  have len: "length ?b = length buf" using assms(1) by simp
  have unpack: "kvtree_unpack_uint64_t e' (Some ?b) (length ?b) (Some pos) (Some w) =
      Some (KVTREE_SUCCESS, Some (pos + 8), Some v)"
    by (rule w64.unpack_ok) (use assms len in \<open>simp_all add: holds_at_patch\<close>)
  have "?b ! i = buf ! i" if "i < pos \<or> pos + 8 \<le> i" "i < length buf" for i
    using w64.pack_frame [OF pack _ assms(2) that(1) that(2)] assms by simp
  with pack len unpack show ?thesis by blast
qed

theorem uint64_portable_witness:
  "\<exists>buf'. kvtree_pack_uint64_t Little_endian (Some (replicate 10 0)) (length (replicate 10 (0 :: byte))) (Some 1) 513 =
      Some (KVTREE_SUCCESS, Some buf', Some (1 + 8)) \<and>
    length buf' = length (replicate 10 (0 :: byte)) \<and>
    (\<forall>i. i < 1 \<or> 1 + 8 \<le> i \<longrightarrow> i < length (replicate 10 (0 :: byte)) \<longrightarrow> buf' ! i = replicate 10 0 ! i) \<and>
    kvtree_unpack_uint64_t Big_endian (Some buf') (length buf') (Some 1) (Some 0) =
      Some (KVTREE_SUCCESS, Some (1 + 8), Some 513)"
  by (rule uint64_portable) simp_all

text \<open>Past the end of the buffer the functions fail and change nothing: neither the buffer and its
  position when packing, nor the position and the value when unpacking.\<close>

lemma uint32_bounds:
  assumes "length buf < pos + 4" and "pos + 4 < 2 ^ 64"
  shows "kvtree_pack_uint32_t e (Some buf) (length buf) (Some pos) v = Some (KVTREE_FAILURE, Some buf, Some pos) \<and>
    kvtree_unpack_uint32_t e (Some buf) (length buf) (Some pos) (Some w) = Some (KVTREE_FAILURE, Some pos, Some w)"
  using w32.pack_full [OF assms] w32.unpack_full [OF assms] by simp

end
