(* ===== verification/KV_Pack.thy ===== *)
theory KV_Pack
  imports KV_Paths KV_Helpers "HOL-Library.Monad_Syntax"
begin

text \<open>
  Packing a tree into a buffer and back (\<open>src/kvtree.c\<close>). The functions write and read one buffer in
  place at an offset, as the code does through \<open>buf + size\<close>; an access outside the buffer is \<open>None\<close>.
  \<open>kvtree_pack\<close> is proved to write the bytes of the reference encoding \<open>enc_hash\<close>, exactly
  \<open>kvtree_pack_size\<close> of them, and \<open>kvtree_unpack\<close> to rebuild the tree from them with each list
  reversed. Sizes are naturals: a tree that fits in memory packs into fewer bytes than it occupies,
  so a \<open>size_t\<close> cannot wrap.
\<close>

section \<open>Sizes\<close>

fun kvtree_pack_size :: "kvtree option \<Rightarrow> nat" and kvtree_elem_pack_size :: "kvtree_elem option \<Rightarrow> nat" where
  "kvtree_pack_size None = 4"
| "kvtree_pack_size (Some (Kvtree es)) = foldl (\<lambda>sz elem. sz + kvtree_elem_pack_size (Some elem)) 4 es"
| "kvtree_elem_pack_size None = 1 + kvtree_pack_size None"
| "kvtree_elem_pack_size (Some (Kvtree_elem key hash)) =
     (case key of None \<Rightarrow> 1 | Some k \<Rightarrow> length k + 1) + kvtree_pack_size hash"

section \<open>Packing\<close>

definition char_byte :: "char \<Rightarrow> byte" where
  "char_byte c = word_of_nat (of_char c)"

definition byte_char :: "byte \<Rightarrow> char" where
  "byte_char b = char_of (unat b)"

text \<open>\<open>strcpy\<close> writes the characters and the terminating NUL.\<close>

definition mem_strcpy :: "byte list \<Rightarrow> nat \<Rightarrow> string \<Rightarrow> byte list option" where
  "mem_strcpy buf at s = mem_write buf at (map char_byte s @ [0])"

fun kvtree_pack :: "endian \<Rightarrow> byte list \<Rightarrow> nat \<Rightarrow> kvtree option \<Rightarrow> (byte list \<times> nat) option"
  and kvtree_pack_elems :: "endian \<Rightarrow> byte list \<Rightarrow> nat \<Rightarrow> nat \<Rightarrow> kvtree_elem list \<Rightarrow> (byte list \<times> nat) option"
  and kvtree_elem_pack :: "endian \<Rightarrow> byte list \<Rightarrow> nat \<Rightarrow> kvtree_elem option \<Rightarrow> (byte list \<times> nat) option"
where
  "kvtree_pack e buf at (Some (Kvtree es)) =
     (let count = fold (\<lambda>_ n. n + 1) es (0 :: u32);
          count_network = kvtree_hton32 e count
      in do {
        buf1 \<leftarrow> mem_write buf at (host_bytes e 4 count_network);
        kvtree_pack_elems e buf1 at 4 es
      })"
| "kvtree_pack e buf at None =
     (let count_network = kvtree_hton32 e 0
      in do {
        buf1 \<leftarrow> mem_write buf at (host_bytes e 4 count_network);
        Some (buf1, 4)
      })"
| "kvtree_pack_elems e buf at sz [] = Some (buf, sz)"
| "kvtree_pack_elems e buf at sz (elem # es) =
     do {
       (buf1, n) \<leftarrow> kvtree_elem_pack e buf (at + sz) (Some elem);
       kvtree_pack_elems e buf1 at (sz + n) es
     }"
| "kvtree_elem_pack e buf at (Some (Kvtree_elem key hash)) =
     do {
       (buf1, sz) \<leftarrow>
         (case key of
            Some k \<Rightarrow> do { b \<leftarrow> mem_strcpy buf at k; Some (b, length k + 1) }
          | None \<Rightarrow> do { b \<leftarrow> mem_write buf at [0]; Some (b, 1) });
       (buf2, n) \<leftarrow> kvtree_pack e buf1 (at + sz) hash;
       Some (buf2, sz + n)
     }"
| "kvtree_elem_pack e buf at None =
     do {
       buf1 \<leftarrow> mem_write buf at [0];
       (buf2, n) \<leftarrow> kvtree_pack e buf1 (at + 1) None;
       Some (buf2, 1 + n)
     }"

section \<open>Unpacking\<close>

text \<open>\<open>strlen\<close> of the string at an offset: reading past the end of the buffer when there is no NUL.\<close>

definition mem_strlen :: "byte list \<Rightarrow> nat \<Rightarrow> nat option" where
  "mem_strlen buf at =
     (if 0 \<in> set (drop at buf) then Some (length (takeWhile (\<lambda>b. b \<noteq> 0) (drop at buf))) else None)"

definition mem_string :: "byte list \<Rightarrow> nat \<Rightarrow> string" where
  "mem_string buf at = map byte_char (takeWhile (\<lambda>b. b \<noteq> 0) (drop at buf))"

lemma length_takeWhile_mem: "x \<in> set xs \<Longrightarrow> length (takeWhile (\<lambda>b. b \<noteq> x) xs) < length xs"
  by (induction xs) auto

lemma mem_strlen_bound: "mem_strlen buf at = Some n \<Longrightarrow> at + n < length buf"
proof -
  assume "mem_strlen buf at = Some n"
  then have "0 \<in> set (drop at buf)" and n: "n = length (takeWhile (\<lambda>b. b \<noteq> 0) (drop at buf))"
    by (auto simp: mem_strlen_def split: if_splits)
  then have "n < length (drop at buf)"
    by (simp only: length_takeWhile_mem)
  then show ?thesis by simp
qed

text \<open>The code counts the elements with an \<open>int\<close> \<open>i\<close> up from 0 and compares it, converted to unsigned, with the
  32 bit count; the model counts the elements that are left. The two agree up to \<open>INT_MAX\<close>
  elements, and above where the increment wraps around; a strict reading of C leaves the
  overflow of \<open>i\<close> undefined there, in a buffer of more than 10 GiB.\<close>

function kvtree_unpack :: "endian \<Rightarrow> byte list \<Rightarrow> nat \<Rightarrow> kvtree option \<Rightarrow> (kvtree option \<times> nat) option"
  and kvtree_unpack_loop ::
    "endian \<Rightarrow> byte list \<Rightarrow> nat \<Rightarrow> nat \<Rightarrow> nat \<Rightarrow> kvtree \<Rightarrow> (kvtree option \<times> nat) option"
  and kvtree_elem_unpack ::
    "endian \<Rightarrow> byte list \<Rightarrow> nat \<Rightarrow> kvtree_elem option \<Rightarrow> (kvtree_elem option \<times> nat) option"
where
  "kvtree_unpack e buf at None = Some (None, 0)"
| "kvtree_unpack e buf at (Some hash) =
     do {
       bs \<leftarrow> mem_read buf at 4;
       let count = kvtree_ntoh32 e (host_word e bs);
       kvtree_unpack_loop e buf at 4 (unat count) hash
     }"
| "kvtree_unpack_loop e buf at sz 0 hash = Some (Some hash, sz)"
| "kvtree_unpack_loop e buf at sz (Suc n) hash =
     do {
       (elem, k) \<leftarrow> kvtree_elem_unpack e buf (at + sz) (Some kvtree_elem_new);
       el \<leftarrow> elem;
       kvtree_unpack_loop e buf at (sz + k) n (list_insert_head el hash)
     }"
| "kvtree_elem_unpack e buf at None = Some (None, 0)"
| "kvtree_elem_unpack e buf at (Some elem) =
     do {
       n \<leftarrow> mem_strlen buf at;
       let key = mem_string buf at;
       let sz = n + 1;
       (hash, k) \<leftarrow> kvtree_unpack e buf (at + sz) (Some kvtree_new);
       Some (kvtree_elem_init (Some elem) (Some key) hash, sz + k)
     }"
  by pat_completeness auto

termination
proof (relation "measures
    [\<lambda>x. case x of Inl (e, buf, at, hash) \<Rightarrow> length buf - at
                  | Inr (Inl (e, buf, at, sz, n, hash)) \<Rightarrow> length buf - (at + sz)
                  | Inr (Inr (e, buf, at, elem)) \<Rightarrow> length buf - at,
     \<lambda>x. case x of Inl _ \<Rightarrow> 0 | Inr (Inl (e, buf, at, sz, n, hash)) \<Rightarrow> Suc n | Inr (Inr _) \<Rightarrow> 0]",
   goal_cases)
qed (auto simp: mem_read_def split: if_splits dest!: mem_strlen_bound)

section \<open>The reference encoding\<close>

fun enc_hash :: "kvtree option \<Rightarrow> byte list" and enc_elem :: "kvtree_elem \<Rightarrow> byte list" where
  "enc_hash None = be_bytes 4 (0 :: u32)"
| "enc_hash (Some (Kvtree es)) = be_bytes 4 (word_of_nat (length es) :: u32) @ concat (map enc_elem es)"
| "enc_elem (Kvtree_elem key hash) =
     (case key of None \<Rightarrow> [0] | Some k \<Rightarrow> map char_byte k @ [0]) @ enc_hash hash"

text \<open>What a reader rebuilds: every list reversed, a NULL key empty, a NULL subtree empty.\<close>

fun unpacked :: "kvtree \<Rightarrow> kvtree" and unpacked_elem :: "kvtree_elem \<Rightarrow> kvtree_elem" where
  "unpacked (Kvtree es) = Kvtree (rev (map unpacked_elem es))"
| "unpacked_elem (Kvtree_elem key hash) =
     Kvtree_elem (Some (case key of None \<Rightarrow> [] | Some k \<Rightarrow> k))
       (Some (case hash of None \<Rightarrow> kvtree_new | Some t \<Rightarrow> unpacked t))"

text \<open>The trees whose packed form is unambiguous: every list is short enough for its count and a
  key holds no NUL.\<close>

fun packable :: "kvtree \<Rightarrow> bool" and elem_packable :: "kvtree_elem \<Rightarrow> bool" where
  "packable (Kvtree es) \<longleftrightarrow> length es < 2 ^ 32 \<and> (\<forall>e \<in> set es. elem_packable e)"
| "elem_packable (Kvtree_elem key hash) \<longleftrightarrow>
     (case key of None \<Rightarrow> True | Some k \<Rightarrow> is_cstring k) \<and> (case hash of None \<Rightarrow> True | Some t \<Rightarrow> packable t)"

section \<open>Packing writes the encoding\<close>

lemma fold_count_word: "fold (\<lambda>_ n. n + 1) xs (m :: 'a::len word) = m + word_of_nat (length xs)"
  by (induction xs arbitrary: m) (simp_all add: ac_simps)

lemma foldl_add: "foldl (\<lambda>sz x. sz + f x) (a :: nat) xs = a + sum_list (map f xs)"
  by (induction xs arbitrary: a) simp_all

lemma pack_size_enc:
  "kvtree_pack_size hash = length (enc_hash hash)"
  "kvtree_elem_pack_size elem = (case elem of None \<Rightarrow> 5 | Some x \<Rightarrow> length (enc_elem x))"
proof (induction hash and elem rule: kvtree_pack_size_kvtree_elem_pack_size.induct)
  case (2 es)
  then have "map (\<lambda>x. kvtree_elem_pack_size (Some x)) es = map (length \<circ> enc_elem) es" by simp
  then have "(\<Sum>x\<leftarrow>es. kvtree_elem_pack_size (Some x)) = (\<Sum>x\<leftarrow>es. length (enc_elem x))"
    by (simp only: comp_def)
  then show ?case by (simp add: foldl_add length_concat comp_def)
qed (auto split: option.splits)

lemma pack_size_elem: "kvtree_elem_pack_size (Some x) = length (enc_elem x)"
  by (simp add: pack_size_enc)

lemma byte_char_char_byte [simp]: "byte_char (char_byte c) = c"
proof -
  have "(of_char c :: nat) mod 256 = of_char c" by (rule of_char_mod_256)
  then show ?thesis by (simp add: byte_char_def char_byte_def unsigned_of_nat take_bit_eq_mod)
qed

lemma char_byte_0 [simp]: "char_byte c = 0 \<longleftrightarrow> c = CHR 0x00"
  using byte_char_char_byte [of c] by (auto simp: char_byte_def byte_char_def char_of_def)

lemma pack_writes:
  "at + length (enc_hash hash) \<le> length buf \<Longrightarrow>
     kvtree_pack e buf at hash = Some (patch buf at (enc_hash hash), length (enc_hash hash))"
  "at + sz + length (concat (map enc_elem es)) \<le> length buf \<Longrightarrow>
     kvtree_pack_elems e buf at sz es =
       Some (patch buf (at + sz) (concat (map enc_elem es)), sz + length (concat (map enc_elem es)))"
  "at + kvtree_elem_pack_size elem \<le> length buf \<Longrightarrow>
     kvtree_elem_pack e buf at elem =
       Some (patch buf at (case elem of None \<Rightarrow> [0] @ enc_hash None | Some x \<Rightarrow> enc_elem x), kvtree_elem_pack_size elem)"
proof (induction e buf at hash and e buf at sz es and e buf at elem
    rule: kvtree_pack_kvtree_pack_elems_kvtree_elem_pack.induct)
  case (1 e buf at es)
  then show ?case
    by (simp add: Let_def fold_count_word mem_write_ok patch_patch)
next
  case (4 e buf at sz elem es)
  then show ?case by (simp add: pack_size_elem patch_patch add.assoc)
next
  case (5 e buf at key hash)
  let ?kb = "case key of None \<Rightarrow> [0] | Some k \<Rightarrow> map char_byte k @ [0]"
  have fit: "at + length ?kb + length (enc_hash hash) \<le> length buf"
    using "5.prems" by (simp add: pack_size_enc)
  then have key: "(case key of
            Some k \<Rightarrow> do { b \<leftarrow> mem_strcpy buf at k; Some (b, length k + 1) }
          | None \<Rightarrow> do { b \<leftarrow> mem_write buf at [0]; Some (b, 1) }) = Some (patch buf at ?kb, length ?kb)"
    by (cases key) (simp_all add: mem_strcpy_def mem_write_ok)
  have "kvtree_pack e (patch buf at ?kb) (at + length ?kb) hash =
      Some (patch (patch buf at ?kb) (at + length ?kb) (enc_hash hash), length (enc_hash hash))"
    using "5.IH" [OF key refl] fit by simp
  with key fit show ?case by (simp add: patch_patch pack_size_enc)
qed (simp_all add: mem_write_ok patch_patch patch_def ac_simps)

lemma kvtree_pack_eq:
  "at + kvtree_pack_size hash \<le> length buf \<Longrightarrow>
     kvtree_pack e buf at hash = Some (patch buf at (enc_hash hash), kvtree_pack_size hash)"
  by (simp add: pack_writes(1) pack_size_enc(1))

text \<open>A buffer that is too short is overrun.\<close>

lemma mem_write_Some: "mem_write buf pos bs = Some b \<Longrightarrow> pos + length bs \<le> length buf \<and> length b = length buf"
  by (auto simp: mem_write_def split: if_splits)

lemma pack_fits:
  "kvtree_pack e buf at hash = Some (b, n) \<Longrightarrow>
     length b = length buf \<and> n = length (enc_hash hash) \<and> at + n \<le> length buf"
  "kvtree_pack_elems e buf at sz es = Some (b, n) \<Longrightarrow> at + sz \<le> length buf \<Longrightarrow>
     length b = length buf \<and> n = sz + length (concat (map enc_elem es)) \<and> at + n \<le> length buf"
  "kvtree_elem_pack e buf at elem = Some (b, n) \<Longrightarrow>
     length b = length buf \<and> n = kvtree_elem_pack_size elem \<and> at + n \<le> length buf"
proof (induction e buf at hash and e buf at sz es and e buf at elem arbitrary: b n and b n and b n
    rule: kvtree_pack_kvtree_pack_elems_kvtree_elem_pack.induct)
  case (1 e buf at es)
  then show ?case by (fastforce simp: bind_eq_Some_conv dest: mem_write_Some)
next
  case (4 e buf at sz elem es)
  then show ?case by (fastforce simp: bind_eq_Some_conv pack_size_elem)
next
  case (5 e buf at key hash)
  then show ?case
    by (fastforce simp: bind_eq_Some_conv mem_strcpy_def pack_size_enc dest: mem_write_Some split: option.splits)
qed (auto simp: bind_eq_Some_conv dest!: mem_write_Some)

lemma kvtree_pack_overrun:
  "length buf < at + kvtree_pack_size hash \<Longrightarrow> kvtree_pack e buf at hash = None"
  using pack_fits(1) [of e buf at hash] by (cases "kvtree_pack e buf at hash") (auto simp: pack_size_enc)

section \<open>Unpacking reads it back\<close>

lemma enc_elem_parts:
  "enc_elem (Kvtree_elem key hash) = map char_byte (case key of None \<Rightarrow> [] | Some k \<Rightarrow> k) @ [0] @ enc_hash hash"
  by (cases key) simp_all

lemma mem_string_at:
  assumes "holds_at buf at (map char_byte k @ [0] @ bs)" and "is_cstring k"
  shows "mem_strlen buf at = Some (length k)" and "mem_string buf at = k"
proof -
  obtain rest where buf: "drop at buf = map char_byte k @ 0 # rest"
    using holds_at_drop [OF assms(1)] that by (simp only: append_assoc append_Cons append_Nil)
  have "takeWhile (\<lambda>b. b \<noteq> 0) (drop at buf) = map char_byte k"
    using assms(2) unfolding buf by (induction k) auto
  then show "mem_strlen buf at = Some (length k)" "mem_string buf at = k"
    by (simp_all add: mem_strlen_def mem_string_def buf comp_def)
qed


text \<open>The loop over the elements, given that the subtrees are read back.\<close>

lemma unpack_loop_enc:
  assumes sub: "\<And>k t at. Kvtree_elem k (Some t) \<in> set es \<Longrightarrow> packable t \<Longrightarrow>
      holds_at buf at (enc_hash (Some t)) \<Longrightarrow>
      kvtree_unpack e buf at (Some kvtree_new) = Some (Some (unpacked t), length (enc_hash (Some t)))"
    and "holds_at buf (at + sz) (concat (map enc_elem es))" and "\<forall>x \<in> set es. elem_packable x"
  shows "kvtree_unpack_loop e buf at sz (length es) u =
    Some (Some (Kvtree (rev (map unpacked_elem es) @ elems u)), sz + length (concat (map enc_elem es)))"
  using assms
proof (induction es arbitrary: sz u)
  case (Cons x es)
  obtain key hash where x: "x = Kvtree_elem key hash" by (cases x)
  let ?k = "case key of None \<Rightarrow> [] | Some k \<Rightarrow> k"
  have at: "holds_at buf (at + sz) (map char_byte ?k @ [0] @ enc_hash hash)"
    and rest: "holds_at buf (at + (sz + length (enc_elem x))) (concat (map enc_elem es))"
    using Cons.prems(2)
    by (simp_all add: x enc_elem_parts holds_at_append add.assoc del: enc_elem.simps append_Cons append_Nil)
  have k: "is_cstring ?k" using Cons.prems(3) by (auto simp: x split: option.splits)
  have str: "mem_strlen buf (at + sz) = Some (length ?k)" "mem_string buf (at + sz) = ?k"
    using mem_string_at [OF at k] by blast+
  have hash_at: "holds_at buf (at + sz + (length ?k + 1)) (enc_hash hash)"
    using at by (simp add: holds_at_append del: append_Cons append_Nil)
  have "kvtree_unpack e buf (at + sz + (length ?k + 1)) (Some kvtree_new) =
      Some (Some (case hash of None \<Rightarrow> kvtree_new | Some t \<Rightarrow> unpacked t), length (enc_hash hash))"
  proof (cases hash)
    case None
    then show ?thesis using hash_at by (simp add: mem_read_ok)
  next
    case (Some t)
    then show ?thesis using hash_at Cons.prems(1) [of key t] Cons.prems(3)
      by (simp add: x del: kvtree_unpack.simps)
  qed
  then have "kvtree_elem_unpack e buf (at + sz) (Some kvtree_elem_new) =
      Some (Some (unpacked_elem x), length (enc_elem x))"
    by (simp add: str Let_def kvtree_elem_init_def x enc_elem_parts
        del: kvtree_unpack.simps enc_elem.simps)
  moreover have "kvtree_unpack_loop e buf at (sz + length (enc_elem x)) (length es) v =
      Some (Some (Kvtree (rev (map unpacked_elem es) @ elems v)),
        sz + length (enc_elem x) + length (concat (map enc_elem es)))" for v
    by (rule Cons.IH) (use Cons.prems(1,3) rest in \<open>auto simp del: kvtree_unpack.simps\<close>)
  ultimately show ?case by (simp add: add.assoc list_insert_head_def)
qed simp

lemma unpack_enc:
  "packable t \<Longrightarrow> holds_at buf at (enc_hash (Some t)) \<Longrightarrow>
     kvtree_unpack e buf at (Some u) =
       Some (Some (Kvtree (elems (unpacked t) @ elems u)), length (enc_hash (Some t)))"
proof (induction t arbitrary: at u rule: kvtree_tree_induct)
  case (sub es)
  have at: "holds_at buf at (be_bytes 4 (word_of_nat (length es) :: u32))"
    and rest: "holds_at buf (at + 4) (concat (map enc_elem es))"
    using sub.prems(2) by (simp_all add: holds_at_append)
  have "unat (word_of_nat (length es) :: u32) = length es"
    using sub.prems(1) by (simp add: unsigned_of_nat take_bit_nat_eq_self)
  then show ?case
    using sub.IH sub.prems(1) unpack_loop_enc [OF _ rest, of e u] by (simp add: mem_read_ok [OF at])
qed

section \<open>A reader that returns stayed inside the buffer\<close>

lemma mem_read_extends:
  "mem_read buf at n = Some bs \<Longrightarrow> mem_read (buf @ rest) at n = Some bs \<and> at + n \<le> length buf"
  by (auto simp: mem_read_def split: if_splits)

lemma mem_strlen_extends:
  assumes "mem_strlen buf at = Some n"
  shows "mem_strlen (buf @ rest) at = Some n" and "mem_string (buf @ rest) at = mem_string buf at"
proof -
  from assms have nul: "0 \<in> set (drop at buf)" by (auto simp: mem_strlen_def split: if_splits)
  then have "takeWhile (\<lambda>b. b \<noteq> 0) (drop at (buf @ rest)) = takeWhile (\<lambda>b. b \<noteq> 0) (drop at buf)"
    by (simp only: drop_append) (rule takeWhile_append1, auto)
  then show "mem_strlen (buf @ rest) at = Some n" "mem_string (buf @ rest) at = mem_string buf at"
    using assms nul by (auto simp: mem_strlen_def mem_string_def)
qed

lemma unpack_extends:
  "kvtree_unpack e buf at (Some hash) = Some (r, k) \<Longrightarrow>
     kvtree_unpack e (buf @ rest) at (Some hash) = Some (r, k) \<and> at + k \<le> length buf"
  "kvtree_unpack_loop e buf at sz n h = Some (r, k) \<Longrightarrow> at + sz \<le> length buf \<Longrightarrow>
     kvtree_unpack_loop e (buf @ rest) at sz n h = Some (r, k) \<and> at + k \<le> length buf"
  "kvtree_elem_unpack e buf at (Some elem) = Some (x, k) \<Longrightarrow>
     kvtree_elem_unpack e (buf @ rest) at (Some elem) = Some (x, k) \<and> at + k \<le> length buf"
proof (induction e buf at "Some hash" and e buf at sz n h and e buf at "Some elem"
    arbitrary: hash r k and r k and elem x k
    rule: kvtree_unpack_kvtree_unpack_loop_kvtree_elem_unpack.induct)
  case (2 e buf at t)
  then obtain bs where bs: "mem_read buf at 4 = Some bs"
    and loop: "kvtree_unpack_loop e buf at 4 (unat (kvtree_ntoh32 e (host_word e bs))) t = Some (r, k)"
    by (auto split: Option.bind_splits)
  show ?case
    using mem_read_extends [OF bs, of rest] "2.hyps" [OF bs refl loop] loop by (simp add: Let_def)
next
  case (4 e buf at sz n h)
  then obtain el m where el: "kvtree_elem_unpack e buf (at + sz) (Some kvtree_elem_new) = Some (Some el, m)"
    and loop: "kvtree_unpack_loop e buf at (sz + m) n (list_insert_head el h) = Some (r, k)"
    by (auto split: Option.bind_splits)
  show ?case
    using 4 el loop by (auto simp: add.assoc)
next
  case (6 e buf at elem')
  then obtain n h m where n: "mem_strlen buf at = Some n"
    and sub: "kvtree_unpack e buf (at + (n + 1)) (Some kvtree_new) = Some (h, m)"
    and res: "x = kvtree_elem_init (Some elem') (Some (mem_string buf at)) h" "k = n + 1 + m"
    by (auto simp: Let_def split: Option.bind_splits)
  from "6.hyps" [OF n refl refl sub] show ?case
    using mem_strlen_extends [OF n, of rest] by (simp add: res Let_def add.assoc del: kvtree_unpack.simps)
qed simp_all

declare kvtree_unpack.simps [simp del]

section \<open>What is kept of the tree\<close>

lemma unpacked_elem_fields:
  "elem_key (unpacked_elem x) = Some (case elem_key x of None \<Rightarrow> [] | Some k \<Rightarrow> k)"
  "elem_hash (unpacked_elem x) = Some (case elem_hash x of None \<Rightarrow> kvtree_new | Some t \<Rightarrow> unpacked t)"
  by (cases x; simp)+

lemma unpacked_keys: "(\<And>x. x \<in> set es \<Longrightarrow> elem_key x \<noteq> None) \<Longrightarrow> map elem_key (map unpacked_elem es) = map elem_key es"
  by (simp, safe) (fastforce simp: unpacked_elem_fields)

lemma kvtree_wf_unpacked [kv_wf]: "kvtree_wf t \<Longrightarrow> kvtree_wf (unpacked t)"
proof (induction t rule: kvtree_tree_induct)
  case (sub es)
  have elem: "elem_wf x" if "x \<in> set es" for x using sub.prems that by (simp add: kvtree_wf_iff)
  have "distinct (map elem_key (map unpacked_elem es))"
    using sub.prems elem by (subst unpacked_keys) (auto simp: kvtree_wf_iff elem_wf_iff)
  moreover have "elem_wf (unpacked_elem x)" if "x \<in> set es" for x
    using elem [OF that] sub.IH [of "elem_key x"] that
    by (cases x; cases "elem_hash x") (auto simp: elem_wf_iff)
  ultimately show ?case by (simp add: kvtree_wf_iff flip: rev_map)
qed

lemma kvtree_paths_unpacked [kv_abs]: "kvtree_wf t \<Longrightarrow> kvtree_paths (unpacked t) = kvtree_paths t"
proof (induction t rule: kvtree_tree_induct)
  case (sub es)
  have "elem_paths (unpacked_elem x) = elem_paths x" if x: "x \<in> set es" for x
  proof -
    obtain k where k: "elem_key x = Some k" "hash_wf (elem_hash x)"
      using sub.prems x by (force simp: kvtree_wf_iff elem_wf_iff)
    then have "hash_paths (elem_hash (unpacked_elem x)) = hash_paths (elem_hash x)"
      using sub.IH [of "elem_key x"] x
      by (cases x; cases "elem_hash x") (auto simp: unpacked_elem_fields kvtree_new_def paths_elems)
    with k show ?thesis by (simp add: elem_paths_key unpacked_elem_fields)
  qed
  then show ?case by (simp add: paths_elems)
qed

text \<open>A second trip restores the order: only NULL pointers are not restored.\<close>

lemma unpacked_thrice: "unpacked (unpacked (unpacked t)) = unpacked t"
proof (induction t rule: kvtree_tree_induct)
  case (sub es)
  have "unpacked_elem (unpacked_elem (unpacked_elem x)) = unpacked_elem x" if "x \<in> set es" for x
    using sub.IH [of "elem_key x"] that
    by (cases x; cases "elem_hash x") (auto simp: kvtree_new_def)
  then show ?case by (simp add: rev_map)
qed

lemma packable_unpacked: "packable t \<Longrightarrow> packable (unpacked t)"
proof (induction t rule: kvtree_tree_induct)
  case (sub es)
  have "elem_packable (unpacked_elem x)" if "x \<in> set es" for x
    using sub.IH [of "elem_key x"] sub.prems that
    by (cases x; cases "elem_key x"; cases "elem_hash x") (auto simp: kvtree_new_def)
  then show ?case using sub.prems by simp
qed

text \<open>A well-formed tree of less than 4 GiB is packable.\<close>

lemma length_le_concat: "(\<And>x. x \<in> set xs \<Longrightarrow> xs' x \<noteq> []) \<Longrightarrow> length xs \<le> length (concat (map xs' xs))"
proof (induction xs)
  case (Cons a xs)
  then have "0 < length (xs' a)" "length xs \<le> length (concat (map xs' xs))" by simp_all
  then show ?case by (simp del: length_greater_0_conv)
qed simp

lemma wf_packable: "kvtree_wf t \<Longrightarrow> kvtree_pack_size (Some t) < 2 ^ 32 \<Longrightarrow> packable t"
proof (induction t rule: kvtree_tree_induct)
  case (sub es)
  have len: "length (concat (map enc_elem es)) < 2 ^ 32" using sub.prems(2) by (simp add: pack_size_enc(1))
  have "enc_elem x \<noteq> []" for x by (cases x) (simp add: enc_elem_parts del: enc_elem.simps)
  then have "length es < 2 ^ 32" using len length_le_concat [of es enc_elem] by force
  moreover have "elem_packable x" if x: "x \<in> set es" for x
  proof -
    have part: "length (enc_elem x) \<le> length (concat (map enc_elem es))"
      using split_list [OF x] by (auto simp del: enc_elem.simps)
    have "packable t" if "elem_hash x = Some t" for t
      using sub.IH [of "elem_key x" t] sub.prems(1) x that part len
      by (cases x) (auto simp: kvtree_wf_iff elem_wf_iff pack_size_enc(1) enc_elem_parts simp del: enc_elem.simps)
    moreover have "elem_wf x" using sub.prems(1) x by (simp add: kvtree_wf_iff)
    ultimately show ?thesis by (cases x) (auto simp: elem_wf_iff split: option.splits)
  qed
  ultimately show ?case by simp
qed

section \<open>Properties\<close>

text \<open>C4. Packing a well-formed tree at an offset where it fits writes exactly \<open>kvtree_pack_size\<close> bytes and
  none outside them, and a host of either byte order that unpacks them gets a well-formed tree with the
  same key paths and consumes the same number of bytes.\<close>

theorem pack_unpack_roundtrip:
  assumes "kvtree_wf t" and "packable t" and "at + kvtree_pack_size (Some t) \<le> length buf"
  shows "\<exists>buf' u. kvtree_pack e buf at (Some t) = Some (buf', kvtree_pack_size (Some t)) \<and>
    length buf' = length buf \<and> take at buf' = take at buf \<and>
    drop (at + kvtree_pack_size (Some t)) buf' = drop (at + kvtree_pack_size (Some t)) buf \<and>
    kvtree_unpack e' buf' at (Some kvtree_new) = Some (Some u, kvtree_pack_size (Some t)) \<and>
    kvtree_wf u \<and> kvtree_paths u = kvtree_paths t"
proof -
  let ?b = "patch buf at (enc_hash (Some t))"
  have fit: "at + length (enc_hash (Some t)) \<le> length buf" using assms(3) by (simp add: pack_size_enc(1))
  have "kvtree_pack e buf at (Some t) = Some (?b, kvtree_pack_size (Some t))"
    by (rule kvtree_pack_eq [OF assms(3)])
  moreover have "length ?b = length buf" using fit by simp
  moreover have "take at ?b = take at buf" "drop (at + kvtree_pack_size (Some t)) ?b = drop (at + kvtree_pack_size (Some t)) buf"
    using fit by (simp_all add: patch_def pack_size_enc(1))
  moreover have "kvtree_unpack e' ?b at (Some kvtree_new) = Some (Some (unpacked t), kvtree_pack_size (Some t))"
    using unpack_enc [OF assms(2) holds_at_patch [OF fit], of e' kvtree_new]
    by (simp add: kvtree_new_def pack_size_enc(1))
  ultimately show ?thesis using kvtree_wf_unpacked [OF assms(1)] kvtree_paths_unpacked [OF assms(1)] by blast
qed

theorem pack_unpack_roundtrip_witness:
  "\<exists>buf' u. kvtree_pack Little_endian (replicate 20 7) 1 (Some (Kvtree [Kvtree_elem (Some ''a'') None])) =
      Some (buf', kvtree_pack_size (Some (Kvtree [Kvtree_elem (Some ''a'') None]))) \<and>
    length buf' = length (replicate 20 (7 :: byte)) \<and> take 1 buf' = take 1 (replicate 20 7) \<and>
    drop (1 + kvtree_pack_size (Some (Kvtree [Kvtree_elem (Some ''a'') None]))) buf' =
      drop (1 + kvtree_pack_size (Some (Kvtree [Kvtree_elem (Some ''a'') None]))) (replicate 20 7) \<and>
    kvtree_unpack Big_endian buf' 1 (Some kvtree_new) =
      Some (Some u, kvtree_pack_size (Some (Kvtree [Kvtree_elem (Some ''a'') None]))) \<and>
    kvtree_wf u \<and> kvtree_paths u = kvtree_paths (Kvtree [Kvtree_elem (Some ''a'') None])"
  by (rule pack_unpack_roundtrip) (simp_all add: kvtree_wf.simps)

text \<open>C12. \<open>kvtree_pack_size\<close> is the exact space needed: packing stays inside the buffer when that many bytes
  follow the offset, and runs over its end when fewer do.\<close>

theorem pack_size_exact:
  "kvtree_pack e buf at hash = None \<longleftrightarrow> length buf < at + kvtree_pack_size hash"
  using kvtree_pack_eq [of at hash buf e] kvtree_pack_overrun [of buf at hash e]
  by (cases "length buf < at + kvtree_pack_size hash") simp_all

text \<open>C39. The reader takes no length and trusts the counts in the buffer: of a packed tree that was cut
  short anywhere, so that the buffer announces more than it holds (after the count, between two
  elements, within a key or a sub-tree), it reads past the end, on every host.\<close>

theorem unpack_overruns_short_buffer:
  assumes "packable t" and "kvtree_pack e buf 0 (Some t) = Some (buf', sz)" and "n < sz"
  shows "kvtree_unpack e' (take n buf') 0 (Some hash) = None"
proof (rule ccontr)
  assume "kvtree_unpack e' (take n buf') 0 (Some hash) \<noteq> None"
  then obtain h k where "kvtree_unpack e' (take n buf') 0 (Some hash) = Some (h, k)" by auto
  from unpack_extends(1) [OF this, of "drop n buf'"]
  have whole: "kvtree_unpack e' buf' 0 (Some hash) = Some (h, k)" and k: "k \<le> n" by auto
  have fits: "0 + kvtree_pack_size (Some t) \<le> length buf"
    using assms(2) kvtree_pack_overrun [of buf 0 "Some t" e] by (cases "length buf < 0 + kvtree_pack_size (Some t)") auto
  then have buf': "buf' = patch buf 0 (enc_hash (Some t))" and sz: "sz = length (enc_hash (Some t))"
    using assms(2) kvtree_pack_eq [OF fits, of e] by (simp_all add: pack_size_enc(1))
  have "holds_at buf' 0 (enc_hash (Some t))"
    unfolding buf' using fits by (intro holds_at_patch) (simp add: pack_size_enc(1))
  then have "k = sz" using unpack_enc [OF assms(1), of buf' 0 e' hash] whole sz by simp
  with k assms(3) show False by simp
qed

theorem unpack_overruns_short_buffer_witness:
  "kvtree_unpack Big_endian
     (take 10 (fst (the (kvtree_pack Little_endian (replicate 16 0) 0
       (Some (Kvtree [Kvtree_elem (Some ''a'') None, Kvtree_elem (Some ''b'') None])))))) 0
     (Some kvtree_new) = None"
proof (rule unpack_overruns_short_buffer [where e = Little_endian and buf = "replicate 16 0" and sz = 16])
  let ?t = "Kvtree [Kvtree_elem (Some ''a'') None, Kvtree_elem (Some ''b'') None]"
  show "packable ?t" by simp
  have "kvtree_pack_size (Some ?t) = 16" by simp
  then show "kvtree_pack Little_endian (replicate 16 0) 0 (Some ?t) =
      Some (fst (the (kvtree_pack Little_endian (replicate 16 0) 0 (Some ?t))), 16)"
    using kvtree_pack_eq [of 0 "Some ?t" "replicate 16 0" Little_endian] by (simp del: kvtree_pack_size.simps)
qed simp

end
