(* ===== verification/KV_Sort.thy ===== *)
theory KV_Sort
  imports KV_Format
begin

text \<open>
  Sorting a tree and listing its keys (\<open>src/kvtree.c\<close>). \<open>qsort\<close> is the merge sort of the C library:
  what it promises depends on the comparison function being a total preorder on the sorted
  elements, the interface \<open>comparator\<close>. The string comparisons always are; the integer comparisons
  subtract at 32 bits and are only where the difference cannot overflow.
\<close>

section \<open>The C library: strcmp and qsort\<close>

fun strcmp :: "string \<Rightarrow> string \<Rightarrow> int" where
  "strcmp [] [] = 0"
| "strcmp [] (b # bs) = - int (of_char b)"
| "strcmp (a # as) [] = int (of_char a)"
| "strcmp (a # as) (b # bs) = (if a = b then strcmp as bs else int (of_char a) - int (of_char b))"

fun qsort_merge :: "('a \<Rightarrow> 'a \<Rightarrow> int) \<Rightarrow> 'a list \<Rightarrow> 'a list \<Rightarrow> 'a list" where
  "qsort_merge cmp [] ys = ys"
| "qsort_merge cmp xs [] = xs"
| "qsort_merge cmp (x # xs) (y # ys) =
     (if cmp x y \<le> 0 then x # qsort_merge cmp xs (y # ys) else y # qsort_merge cmp (x # xs) ys)"

fun qsort :: "('a \<Rightarrow> 'a \<Rightarrow> int) \<Rightarrow> 'a list \<Rightarrow> 'a list" where
  "qsort cmp xs =
     (let n = length xs
      in if n \<le> 1 then xs
         else qsort_merge cmp (qsort cmp (take (n div 2) xs)) (qsort cmp (drop (n div 2) xs)))"

declare qsort.simps [simp del]

section \<open>Comparison functions\<close>

type_synonym sort_elem_str = "string \<times> kvtree_elem"
type_synonym sort_elem_int = "int \<times> kvtree_elem"

definition kvtree_cmp_fn_str_asc :: "sort_elem_str \<Rightarrow> sort_elem_str \<Rightarrow> int" where
  "kvtree_cmp_fn_str_asc a b = strcmp (fst a) (fst b)"

definition kvtree_cmp_fn_str_desc :: "sort_elem_str \<Rightarrow> sort_elem_str \<Rightarrow> int" where
  "kvtree_cmp_fn_str_desc a b = strcmp (fst b) (fst a)"

definition kvtree_cmp_fn_int_asc :: "int \<times> 'a \<Rightarrow> int \<times> 'a \<Rightarrow> int" where
  "kvtree_cmp_fn_int_asc a b = to_int32 (fst a - fst b)"

definition kvtree_cmp_fn_int_desc :: "int \<times> 'a \<Rightarrow> int \<times> 'a \<Rightarrow> int" where
  "kvtree_cmp_fn_int_desc a b = to_int32 (fst b - fst a)"

definition KVTREE_SORT_DESCENDING :: int where
  "KVTREE_SORT_DESCENDING = 1"

definition KVTREE_SORT_ASCENDING :: int where
  "KVTREE_SORT_ASCENDING = 0"

section \<open>Sort\<close>

text \<open>The walk over the sorted array from its end: each element is unlinked by its address and
  linked in front.\<close>

fun relink :: "kvtree_elem list \<Rightarrow> kvtree \<Rightarrow> kvtree" where
  "relink [] t = t"
| "relink (e # es) t = relink es (list_insert_head e (list_remove e t))"

text \<open>The comparison dereferences the keys: with two or more elements a NULL key is undefined in C,
  here the result \<open>None\<close>.\<close>

definition kvtree_sort :: "kvtree option \<Rightarrow> int \<Rightarrow> (int \<times> kvtree option) option" where
  "kvtree_sort hash direction =
     (case hash of
        None \<Rightarrow> Some (KVTREE_SUCCESS, None)
      | Some t \<Rightarrow>
          if length (elems t) < 2 then Some (KVTREE_SUCCESS, Some t)
          else case those (map elem_key (elems t)) of
                 None \<Rightarrow> None
               | Some keys \<Rightarrow>
                   (let list = zip keys (elems t);
                        fn = (if direction = KVTREE_SORT_DESCENDING then kvtree_cmp_fn_str_desc
                              else kvtree_cmp_fn_str_asc);
                        sorted_list = qsort fn list
                    in Some (KVTREE_SUCCESS, Some (relink (rev (map snd sorted_list)) t))))"

definition kvtree_sort_int :: "kvtree option \<Rightarrow> int \<Rightarrow> (int \<times> kvtree option) option" where
  "kvtree_sort_int hash direction =
     (case hash of
        None \<Rightarrow> Some (KVTREE_SUCCESS, None)
      | Some t \<Rightarrow>
          (case those (map (\<lambda>e. kvtree_elem_key_int (Some e)) (elems t)) of
             None \<Rightarrow> None
           | Some keys \<Rightarrow>
               (let list = zip keys (elems t);
                    fn = (if direction = KVTREE_SORT_DESCENDING then kvtree_cmp_fn_int_desc
                          else kvtree_cmp_fn_int_asc);
                    sorted_list = qsort fn list
                in Some (KVTREE_SUCCESS, Some (relink (rev (map snd sorted_list)) t)))))"

text \<open>\<open>kvtree_list_int\<close> sorts a plain array of \<open>int\<close> with the comparison function of
  \<open>sort_elem_int\<close>, whose key is its first member: each entry is read as an element whose key is the
  entry. The result is the count and the array (\<open>None\<close> is the NULL array).\<close>

definition kvtree_list_int :: "kvtree option \<Rightarrow> (int \<times> int \<times> int list option) option" where
  "kvtree_list_int hash =
     (if kvtree_size hash = 0 then Some (KVTREE_SUCCESS, 0, None)
      else case hash of
             None \<Rightarrow> Some (KVTREE_SUCCESS, 0, None)
           | Some t \<Rightarrow>
               (case those (map (\<lambda>e. kvtree_elem_key_int (Some e)) (elems t)) of
                  None \<Rightarrow> None
                | Some keys \<Rightarrow>
                    (let list = map fst (qsort kvtree_cmp_fn_int_asc (map (\<lambda>k. (k, ())) keys))
                     in Some (KVTREE_SUCCESS, int (length keys), Some list))))"

section \<open>qsort permutes, and sorts what is comparable\<close>

lemma mset_qsort_merge [simp]: "mset (qsort_merge cmp xs ys) = mset xs + mset ys"
  by (induction cmp xs ys rule: qsort_merge.induct) auto

lemma set_qsort_merge [simp]: "set (qsort_merge cmp xs ys) = set xs \<union> set ys"
  by (metis mset_qsort_merge set_mset_mset set_mset_union)

lemma mset_qsort [simp]: "mset (qsort cmp xs) = mset xs"
proof (induction cmp xs rule: qsort.induct)
  case (1 cmp xs)
  show ?case
  proof (cases "length xs \<le> 1")
    case True
    then show ?thesis by (simp add: qsort.simps [of cmp xs])
  next
    case False
    let ?n = "length xs div 2"
    have "mset (qsort cmp xs) = mset (qsort cmp (take ?n xs)) + mset (qsort cmp (drop ?n xs))"
      using False by (simp add: qsort.simps [of cmp xs] Let_def)
    also have "\<dots> = mset (take ?n xs) + mset (drop ?n xs)"
      using "1.IH" False by simp
    also have "\<dots> = mset xs" by (simp flip: mset_append)
    finally show ?thesis .
  qed
qed

lemma set_qsort [simp]: "set (qsort cmp xs) = set xs"
  by (metis mset_qsort set_mset_mset)

lemma length_qsort [simp]: "length (qsort cmp xs) = length xs"
  by (metis mset_qsort size_mset)

lemma elems_relink:
  assumes "distinct (elems t)" and "distinct es"
  shows "elems (relink es t) = rev es @ filter (\<lambda>e. e \<notin> set es) (elems t)"
  using assms
proof (induction es arbitrary: t)
  case (Cons e es)
  have [simp]: "list_insert_head e (list_remove e t) = Kvtree (e # filter (\<lambda>x. x \<noteq> e) (elems t))"
    using Cons.prems by (simp add: list_insert_head_def list_remove_def distinct_remove1_removeAll removeAll_filter_not_eq eq_commute)
  have "elems (relink (e # es) t) =
      rev es @ filter (\<lambda>x. x \<notin> set es) (e # filter (\<lambda>x. x \<noteq> e) (elems t))"
    using Cons.prems Cons.IH [of "Kvtree (e # filter (\<lambda>x. x \<noteq> e) (elems t))"] by simp
  then show ?case using Cons.prems by (simp add: conj_commute)
qed simp

locale comparator =
  fixes cmp :: "'a \<Rightarrow> 'a \<Rightarrow> int" and A :: "'a set"
  assumes total: "x \<in> A \<Longrightarrow> y \<in> A \<Longrightarrow> cmp x y \<le> 0 \<or> cmp y x \<le> 0"
    and trans: "x \<in> A \<Longrightarrow> y \<in> A \<Longrightarrow> z \<in> A \<Longrightarrow> cmp x y \<le> 0 \<Longrightarrow> cmp y z \<le> 0 \<Longrightarrow> cmp x z \<le> 0"
begin

lemma merge_sorted:
  assumes "set xs \<subseteq> A" "set ys \<subseteq> A"
    and "sorted_wrt (\<lambda>x y. cmp x y \<le> 0) xs" "sorted_wrt (\<lambda>x y. cmp x y \<le> 0) ys"
  shows "sorted_wrt (\<lambda>x y. cmp x y \<le> 0) (qsort_merge cmp xs ys)"
  using assms
proof (induction xs arbitrary: ys)
  case (Cons x xs)
  note outer_IH = Cons.IH and outer_prems = Cons.prems
  from Cons.prems(2,4) show ?case
  proof (induction ys)
    case Nil
    with outer_prems show ?case by simp
  next
    case (Cons y ys)
    have mem: "x \<in> A" "y \<in> A" "set xs \<subseteq> A" "set ys \<subseteq> A"
      using outer_prems Cons.prems by auto
    show ?case
    proof (cases "cmp x y \<le> 0")
      case True
      then have "\<forall>z \<in> set xs \<union> set (y # ys). cmp x z \<le> 0"
        using outer_prems Cons.prems mem by (auto intro: trans)
      moreover have "sorted_wrt (\<lambda>x y. cmp x y \<le> 0) (qsort_merge cmp xs (y # ys))"
        using outer_IH [of "y # ys"] outer_prems Cons.prems mem by simp
      ultimately show ?thesis using True by simp
    next
      case False
      then have "cmp y x \<le> 0" using total mem by blast
      then have "\<forall>z \<in> set (x # xs) \<union> set ys. cmp y z \<le> 0"
        using outer_prems Cons.prems mem by (auto intro: trans)
      moreover have "sorted_wrt (\<lambda>x y. cmp x y \<le> 0) (qsort_merge cmp (x # xs) ys)"
        using Cons.IH Cons.prems by simp
      ultimately show ?thesis using False by simp
    qed
  qed
qed simp

lemma qsort_sorted: "set xs \<subseteq> A \<Longrightarrow> sorted_wrt (\<lambda>x y. cmp x y \<le> 0) (qsort cmp xs)"
proof (induction xs rule: length_induct)
  case (1 xs)
  show ?case
  proof (cases "length xs \<le> 1")
    case True
    then have "qsort cmp xs = xs" by (simp add: qsort.simps [of cmp xs])
    with True show ?thesis by (cases xs) auto
  next
    case False
    let ?l = "take (length xs div 2) xs" and ?r = "drop (length xs div 2) xs"
    have sub: "set ?l \<subseteq> A" "set ?r \<subseteq> A" using "1.prems" set_take_subset set_drop_subset by fast+
    have "length ?l < length xs" "length ?r < length xs" using False by auto
    then have "sorted_wrt (\<lambda>x y. cmp x y \<le> 0) (qsort cmp ?l)"
      "sorted_wrt (\<lambda>x y. cmp x y \<le> 0) (qsort cmp ?r)"
      using "1.IH" sub by blast+
    then have "sorted_wrt (\<lambda>x y. cmp x y \<le> 0) (qsort_merge cmp (qsort cmp ?l) (qsort cmp ?r))"
      using sub by (intro merge_sorted) auto
    then show ?thesis using False by (simp add: qsort.simps [of cmp xs] Let_def)
  qed
qed

end

section \<open>The comparison functions are orders\<close>

lemma of_char_int_less: "int (of_char a) < int (of_char b) \<longleftrightarrow> (of_char a :: nat) < of_char b"
  by simp

lemma of_char_pos: "c \<noteq> CHR 0x00 \<Longrightarrow> 0 < (of_char c :: nat)"
  using of_char_eq_iff [of c "CHR 0x00", where 'a = nat] by simp

lemma strcmp_swap: "strcmp t s = - strcmp s t"
  by (induction s t rule: strcmp.induct) auto

lemma strcmp_eq_0: "is_cstring s \<Longrightarrow> is_cstring t \<Longrightarrow> strcmp s t = 0 \<longleftrightarrow> s = t"
  by (induction s t rule: strcmp.induct) (auto dest: of_char_pos)

lemma strcmp_trans:
  assumes "is_cstring s" "is_cstring t" "is_cstring u" "strcmp s t \<le> 0" "strcmp t u \<le> 0"
  shows "strcmp s u \<le> 0"
  using assms
proof (induction s t arbitrary: u rule: strcmp.induct)
  case (1 u)
  then show ?case by simp
next
  case (2 b bs)
  then show ?case by (cases u) (auto dest: of_char_pos)
next
  case (3 a as)
  then show ?case by (auto dest: of_char_pos)
next
  case (4 a as b bs)
  then show ?case by (cases u) (auto dest: of_char_pos split: if_splits)
qed

lemmas cmp_fn_str_defs = kvtree_cmp_fn_str_asc_def kvtree_cmp_fn_str_desc_def
lemmas cmp_fn_int_defs = kvtree_cmp_fn_int_asc_def kvtree_cmp_fn_int_desc_def

lemma strcmp_total: "strcmp s t \<le> 0 \<or> strcmp t s \<le> 0"
  using strcmp_swap [of s t] by auto

locale key_comparator = comparator cmp A
  for cmp :: "'k \<times> kvtree_elem \<Rightarrow> 'k \<times> kvtree_elem \<Rightarrow> int" and A
begin

text \<open>What the walk leaves in the tree: the elements in the order of the sorted array.\<close>

lemma relink_sorted:
  assumes "distinct (elems t)" and "\<forall>e \<in> set (elems t). (k e, e) \<in> A"
  defines "u \<equiv> relink (rev (map snd (qsort cmp (zip (map k (elems t)) (elems t))))) t"
  shows "mset (elems u) = mset (elems t)"
    and "sorted_wrt (\<lambda>a b. cmp (k a, a) (k b, b) \<le> 0) (elems u)"
proof -
  let ?l = "qsort cmp (zip (map k (elems t)) (elems t))"
  have zip: "zip (map k (elems t)) (elems t) = map (\<lambda>e. (k e, e)) (elems t)"
    by (simp add: zip_map1 zip_same_conv_map)
  have perm: "mset (map snd ?l) = mset (elems t)"
    by (simp only: mset_map mset_qsort) (simp add: map_snd_zip flip: mset_map)
  then have "set (map snd ?l) = set (elems t)" "distinct (map snd ?l)"
    using assms(1) by (metis set_mset_mset, metis distinct_count_atmost_1 set_mset_mset)
  then have u: "elems u = map snd ?l" by (simp add: u_def elems_relink assms(1))
  show "mset (elems u) = mset (elems t)" by (simp only: u perm)
  have sorted: "sorted_wrt (\<lambda>x y. cmp x y \<le> 0) ?l"
    using assms(2) by (intro qsort_sorted) (auto simp: zip)
  show "sorted_wrt (\<lambda>a b. cmp (k a, a) (k b, b) \<le> 0) (elems u)"
    unfolding u sorted_wrt_map by (rule sorted_wrt_mono_rel [OF _ sorted]) (auto simp: zip)
qed

end

interpretation str_asc: key_comparator kvtree_cmp_fn_str_asc "{p. is_cstring (fst p)}"
  by unfold_locales (auto simp: cmp_fn_str_defs strcmp_total intro: strcmp_trans)

interpretation str_desc: key_comparator kvtree_cmp_fn_str_desc "{p. is_cstring (fst p)}"
  by unfold_locales (auto simp: cmp_fn_str_defs strcmp_total intro: strcmp_trans)

text \<open>On keys that differ by at most \<open>INT_MAX\<close> the difference is exact.\<close>

lemma cmp_int_exact:
  "lo \<le> fst a \<and> fst a \<le> lo + INT_MAX \<Longrightarrow> lo \<le> fst b \<and> fst b \<le> lo + INT_MAX \<Longrightarrow>
     kvtree_cmp_fn_int_asc a b = fst a - fst b \<and> kvtree_cmp_fn_int_desc a b = fst b - fst a"
  unfolding cmp_fn_int_defs
  by (auto intro!: to_int32_id simp: is_int32_def INT_MIN_def INT_MAX_def)

interpretation int_asc: comparator kvtree_cmp_fn_int_asc "{p. lo \<le> fst p \<and> fst p \<le> lo + INT_MAX}"
  for lo
  by unfold_locales (auto simp: cmp_int_exact [of lo])

interpretation int_desc: comparator kvtree_cmp_fn_int_desc "{p. lo \<le> fst p \<and> fst p \<le> lo + INT_MAX}"
  for lo
  by unfold_locales (auto simp: cmp_int_exact [of lo])

interpretation elem_asc: key_comparator kvtree_cmp_fn_int_asc "{p. lo \<le> fst p \<and> fst p \<le> lo + INT_MAX}"
  for lo
  by unfold_locales

interpretation elem_desc: key_comparator kvtree_cmp_fn_int_desc "{p. lo \<le> fst p \<and> fst p \<le> lo + INT_MAX}"
  for lo
  by unfold_locales

section \<open>What a sort leaves\<close>

abbreviation key_of :: "kvtree_elem \<Rightarrow> string" where
  "key_of e \<equiv> the (elem_key e)"

lemma those_map_Some: "(\<And>x. x \<in> set xs \<Longrightarrow> f x = Some (g x)) \<Longrightarrow> those (map f xs) = Some (map g xs)"
  by (induction xs) auto

lemma wf_keys:
  assumes "kvtree_wf t"
  shows "distinct (elems t)" "e \<in> set (elems t) \<Longrightarrow> elem_key e = Some (key_of e)"
    "e \<in> set (elems t) \<Longrightarrow> is_cstring (key_of e)"
    "those (map elem_key (elems t)) = Some (map key_of (elems t))"
    "those (map (\<lambda>e. kvtree_elem_key_int (Some e)) (elems t)) = Some (map (\<lambda>e. atoi (key_of e)) (elems t))"
proof -
  show "distinct (elems t)" using assms by (auto simp: kvtree_wf_iff distinct_map)
  have key: "elem_key e = Some (key_of e)" "is_cstring (key_of e)" if "e \<in> set (elems t)" for e
    using assms that by (auto simp: kvtree_wf_iff elem_wf_iff)
  show "e \<in> set (elems t) \<Longrightarrow> elem_key e = Some (key_of e)" "e \<in> set (elems t) \<Longrightarrow> is_cstring (key_of e)"
    using key by blast+
  show "those (map elem_key (elems t)) = Some (map key_of (elems t))"
    by (rule those_map_Some) (rule key)
  show "those (map (\<lambda>e. kvtree_elem_key_int (Some e)) (elems t)) = Some (map (\<lambda>e. atoi (key_of e)) (elems t))"
    by (rule those_map_Some) (use key in \<open>auto simp: kvtree_elem_key_int_def\<close>)
qed

lemma permutation_wf_paths:
  assumes "mset (elems u) = mset (elems t)"
  shows "kvtree_wf u \<longleftrightarrow> kvtree_wf t" and "kvtree_paths u = kvtree_paths t"
proof -
  have set: "set (elems u) = set (elems t)" using assms by (metis set_mset_mset)
  have "mset (map elem_key (elems u)) = mset (map elem_key (elems t))" using assms by simp
  then have "distinct (map elem_key (elems u)) = distinct (map elem_key (elems t))"
    by (rule mset_eq_imp_distinct_iff)
  then show "kvtree_wf u \<longleftrightarrow> kvtree_wf t" by (simp add: kvtree_wf_iff set)
  show "kvtree_paths u = kvtree_paths t" by (simp add: paths_elems set)
qed

lemma kvtree_sort_spec:
  assumes "kvtree_wf t"
  shows "\<exists>u. kvtree_sort (Some t) direction = Some (KVTREE_SUCCESS, Some u)
    \<and> mset (elems u) = mset (elems t)
    \<and> sorted_wrt (\<lambda>a b. (if direction = KVTREE_SORT_DESCENDING then strcmp b a else strcmp a b) \<le> 0)
        (map key_of (elems u))"
proof (cases "length (elems t) < 2")
  case True
  then have "sorted_wrt R (map key_of (elems t))" for R
    by (cases "elems t") (auto simp: less_Suc_eq numeral_2_eq_2)
  with True show ?thesis by (auto simp: kvtree_sort_def)
next
  case False
  note keys = wf_keys [OF assms]
  show ?thesis
    using False keys(3) str_asc.relink_sorted [OF keys(1), of key_of]
      str_desc.relink_sorted [OF keys(1), of key_of]
    by (simp add: kvtree_sort_def keys(4) Let_def sorted_wrt_map cmp_fn_str_defs)
qed

lemma kvtree_sort_int_spec:
  assumes "kvtree_wf t" and "\<forall>e \<in> set (elems t). lo \<le> atoi (key_of e) \<and> atoi (key_of e) \<le> lo + INT_MAX"
  shows "\<exists>u. kvtree_sort_int (Some t) direction = Some (KVTREE_SUCCESS, Some u)
    \<and> mset (elems u) = mset (elems t)
    \<and> sorted_wrt (if direction = KVTREE_SORT_DESCENDING then (\<ge>) else (\<le>))
        (map (\<lambda>e. atoi (key_of e)) (elems u))"
proof -
  note keys = wf_keys [OF assms(1)]
  let ?k = "\<lambda>e. atoi (key_of e)"
  let ?fn = "if direction = KVTREE_SORT_DESCENDING then kvtree_cmp_fn_int_desc else kvtree_cmp_fn_int_asc"
  let ?u = "relink (rev (map snd (qsort ?fn (zip (map ?k (elems t)) (elems t))))) t"
  have u: "mset (elems ?u) = mset (elems t)" "sorted_wrt (\<lambda>a b. ?fn (?k a, a) (?k b, b) \<le> 0) (elems ?u)"
    using assms(2) elem_asc.relink_sorted [OF keys(1), of ?k lo] elem_desc.relink_sorted [OF keys(1), of ?k lo]
    by simp_all
  have "set (elems ?u) = set (elems t)" using u(1) by (metis set_mset_mset)
  then have "sorted_wrt (\<lambda>a b. (if direction = KVTREE_SORT_DESCENDING then (\<ge>) else (\<le>)) (?k a) (?k b)) (elems ?u)"
    using assms(2)
    by (intro sorted_wrt_mono_rel [OF _ u(2)]) (auto simp: cmp_int_exact [of lo])
  with u(1) show ?thesis
    by (auto simp: kvtree_sort_int_def keys(5) Let_def sorted_wrt_map)
qed

lemma kvtree_list_int_spec:
  assumes "kvtree_wf t" and "elems t \<noteq> []"
    and "\<forall>e \<in> set (elems t). lo \<le> atoi (key_of e) \<and> atoi (key_of e) \<le> lo + INT_MAX"
  shows "\<exists>list. kvtree_list_int (Some t) = Some (KVTREE_SUCCESS, int (length list), Some list)
    \<and> sorted list \<and> mset list = image_mset (\<lambda>e. atoi (key_of e)) (mset (elems t))"
proof -
  let ?ks = "map (\<lambda>e. (atoi (key_of e), ())) (elems t)"
  let ?l = "qsort kvtree_cmp_fn_int_asc ?ks"
  have sub: "set ?ks \<subseteq> {p. lo \<le> fst p \<and> fst p \<le> lo + INT_MAX}" using assms(3) by auto
  then have "sorted_wrt (\<lambda>a b. kvtree_cmp_fn_int_asc a b \<le> 0) ?l" by (rule int_asc.qsort_sorted)
  then have "sorted_wrt (\<lambda>a b. fst a \<le> fst b) ?l"
    by (rule sorted_wrt_mono_rel [rotated]) (use assms(3) in \<open>auto simp: cmp_int_exact [of lo]\<close>)
  then have sorted: "sorted (map fst ?l)" by (simp add: sorted_wrt_map)
  have perm: "mset (map fst ?l) = image_mset (\<lambda>e. atoi (key_of e)) (mset (elems t))"
    by (simp add: image_mset.compositionality comp_def)
  have "kvtree_size (Some t) \<noteq> 0" using assms(2) by (simp add: kvtree_size_eq)
  then have "kvtree_list_int (Some t) = Some (KVTREE_SUCCESS, int (length (map fst ?l)), Some (map fst ?l))"
    by (simp add: kvtree_list_int_def wf_keys(5) [OF assms(1)] comp_def)
  with sorted perm show ?thesis by blast
qed

text \<open>Where the difference of two \<open>int\<close> values leaves the range it wraps once.\<close>

lemma atoi_int32: "is_int32 (atoi s)"
  using sint_range_size [of "word_of_int (strtol 10 s) :: u32"]
  by (simp add: atoi_def to_int32_def is_int32_def INT_MIN_def INT_MAX_def word_size)

lemma to_int32_wrap:
  "to_int32 (d + 2 ^ 32) = to_int32 d" "to_int32 (d - 2 ^ 32) = to_int32 d"
proof -
  have "word_of_int (2 ^ 32) = (0 :: u32)" by simp
  then show "to_int32 (d + 2 ^ 32) = to_int32 d" "to_int32 (d - 2 ^ 32) = to_int32 d"
    by (simp_all only: to_int32_def of_int_add of_int_diff add_0_right diff_0_right)
qed

lemma to_int32_above: "is_int32 (d + 2 ^ 32) \<Longrightarrow> to_int32 d = d + 2 ^ 32"
  using to_int32_wrap(1) [of d] to_int32_id [of "d + 2 ^ 32"] by simp

lemma to_int32_below: "is_int32 (d - 2 ^ 32) \<Longrightarrow> to_int32 d = d - 2 ^ 32"
  using to_int32_wrap(2) [of d] to_int32_id [of "d - 2 ^ 32"] by simp

section \<open>Properties\<close>

text \<open>C22. \<open>kvtree_sort\<close> on a well-formed tree succeeds and permutes the elements so that the keys are in
  the order of \<open>strcmp\<close> asked for; the tree stays well formed with the same key paths.\<close>

theorem sort_sorts:
  assumes "kvtree_wf t"
  shows "\<exists>u. kvtree_sort (Some t) direction = Some (KVTREE_SUCCESS, Some u) \<and>
    mset (elems u) = mset (elems t) \<and> kvtree_wf u \<and> kvtree_paths u = kvtree_paths t \<and>
    sorted_wrt (\<lambda>a b. (if direction = KVTREE_SORT_DESCENDING then strcmp b a else strcmp a b) \<le> 0)
      (map key_of (elems u))"
proof -
  obtain u where u: "kvtree_sort (Some t) direction = Some (KVTREE_SUCCESS, Some u)" "mset (elems u) = mset (elems t)"
    "sorted_wrt (\<lambda>a b. (if direction = KVTREE_SORT_DESCENDING then strcmp b a else strcmp a b) \<le> 0)
      (map key_of (elems u))"
    using kvtree_sort_spec [OF assms, of direction] by blast
  with permutation_wf_paths [OF u(2)] assms show ?thesis by blast
qed

theorem sort_sorts_witness:
  "\<exists>u. kvtree_sort (Some (Kvtree [Kvtree_elem (Some ''b'') None, Kvtree_elem (Some ''a'') None])) 0 =
      Some (KVTREE_SUCCESS, Some u) \<and>
    mset (elems u) = mset (elems (Kvtree [Kvtree_elem (Some ''b'') None, Kvtree_elem (Some ''a'') None])) \<and>
    kvtree_wf u \<and>
    kvtree_paths u = kvtree_paths (Kvtree [Kvtree_elem (Some ''b'') None, Kvtree_elem (Some ''a'') None]) \<and>
    sorted_wrt (\<lambda>a b. (if 0 = KVTREE_SORT_DESCENDING then strcmp b a else strcmp a b) \<le> 0)
      (map key_of (elems u))"
  by (rule sort_sorts) (simp add: kvtree_wf.simps)

text \<open>C23. \<open>kvtree_sort_int\<close> sorts by the integer values of the keys whenever any two of them differ by at
  most \<open>INT_MAX\<close>, for example when none is negative.\<close>

theorem sort_int_sorts:
  assumes "kvtree_wf t"
    and "\<forall>e \<in> set (elems t). lo \<le> atoi (key_of e) \<and> atoi (key_of e) \<le> lo + INT_MAX"
  shows "\<exists>u. kvtree_sort_int (Some t) direction = Some (KVTREE_SUCCESS, Some u) \<and>
    mset (elems u) = mset (elems t) \<and> kvtree_wf u \<and> kvtree_paths u = kvtree_paths t \<and>
    sorted_wrt (if direction = KVTREE_SORT_DESCENDING then (\<ge>) else (\<le>)) (map (\<lambda>e. atoi (key_of e)) (elems u))"
proof -
  obtain u where u: "kvtree_sort_int (Some t) direction = Some (KVTREE_SUCCESS, Some u)" "mset (elems u) = mset (elems t)"
    "sorted_wrt (if direction = KVTREE_SORT_DESCENDING then (\<ge>) else (\<le>)) (map (\<lambda>e. atoi (key_of e)) (elems u))"
    using kvtree_sort_int_spec [OF assms, of direction] by blast
  with permutation_wf_paths [OF u(2)] assms(1) show ?thesis by blast
qed

theorem sort_int_sorts_witness:
  "\<exists>u. kvtree_sort_int (Some (Kvtree [Kvtree_elem (Some ''10'') None, Kvtree_elem (Some ''9'') None])) 0 =
      Some (KVTREE_SUCCESS, Some u) \<and>
    mset (elems u) = mset (elems (Kvtree [Kvtree_elem (Some ''10'') None, Kvtree_elem (Some ''9'') None])) \<and>
    kvtree_wf u \<and>
    kvtree_paths u = kvtree_paths (Kvtree [Kvtree_elem (Some ''10'') None, Kvtree_elem (Some ''9'') None]) \<and>
    sorted_wrt (if 0 = KVTREE_SORT_DESCENDING then (\<ge>) else (\<le>)) (map (\<lambda>e. atoi (key_of e)) (elems u))"
proof (rule sort_int_sorts [where lo = 0])
  have "atoi ''10'' = 10" "atoi ''9'' = 9" by code_simp+
  then show "\<forall>e \<in> set (elems (Kvtree [Kvtree_elem (Some ''10'') None, Kvtree_elem (Some ''9'') None])).
      0 \<le> atoi (key_of e) \<and> atoi (key_of e) \<le> 0 + INT_MAX"
    by (simp add: INT_MAX_def)
qed (simp add: kvtree_wf.simps)

text \<open>C38. Further apart they are not: the comparison functions subtract at 32 bits, and of two keys whose
  values differ by more than \<open>2 ^ 31\<close> the difference wraps to the wrong sign. A tree of two such keys,
  whatever their sub-trees and their order, is left in the opposite of the order asked for, ascending
  and descending.\<close>

theorem sort_int_overflow:
  assumes "atoi a + 2 ^ 31 < atoi b"
    and "es = [Kvtree_elem (Some a) v, Kvtree_elem (Some b) w] \<or>
         es = [Kvtree_elem (Some b) w, Kvtree_elem (Some a) v]"
  shows "kvtree_sort_int (Some (Kvtree es)) direction =
    Some (KVTREE_SUCCESS, Some (Kvtree
      (if direction = KVTREE_SORT_DESCENDING
       then [Kvtree_elem (Some a) v, Kvtree_elem (Some b) w]
       else [Kvtree_elem (Some b) w, Kvtree_elem (Some a) v])))"
proof -
  have diff: "to_int32 (atoi a - atoi b) = atoi a - atoi b + 2 ^ 32"
    "to_int32 (atoi b - atoi a) = atoi b - atoi a - 2 ^ 32"
    by (intro to_int32_above to_int32_below;
        use assms(1) atoi_int32 [of a] atoi_int32 [of b] in \<open>simp add: is_int32_def INT_MIN_def INT_MAX_def\<close>)+
  have "a \<noteq> b" using assms(1) by auto
  moreover have "0 < atoi a - atoi b + 2 ^ 32" "atoi b - atoi a - 2 ^ 32 < 0"
    using assms(1) atoi_int32 [of a] atoi_int32 [of b] by (auto simp: is_int32_def INT_MIN_def INT_MAX_def)
  ultimately show ?thesis
    using assms(2)
    by (auto simp: kvtree_sort_int_def kvtree_elem_key_int_def qsort.simps cmp_fn_int_defs diff
        KVTREE_SORT_DESCENDING_def list_insert_head_def list_remove_def)
qed

theorem sort_int_overflow_witness:
  "kvtree_sort_int (Some (Kvtree [Kvtree_elem (Some ''-2'') None, Kvtree_elem (Some ''2147483647'') None]))
     KVTREE_SORT_ASCENDING =
   Some (KVTREE_SUCCESS, Some (Kvtree
     (if KVTREE_SORT_ASCENDING = KVTREE_SORT_DESCENDING
      then [Kvtree_elem (Some ''-2'') None, Kvtree_elem (Some ''2147483647'') None]
      else [Kvtree_elem (Some ''2147483647'') None, Kvtree_elem (Some ''-2'') None])))"
proof (rule sort_int_overflow)
  have "fmt_signed 2147483647 = ''2147483647''" "fmt_signed (- 2) = ''-2''"
    by (simp_all add: fmt_signed_def nat_digits.simps digit_char_def char_of_def bit_0)
  then have "atoi ''2147483647'' = 2147483647" "atoi ''-2'' = - 2"
    using codec_d.parse_fmt [of 2147483647] codec_d.parse_fmt [of "- 2"]
    by (simp_all add: is_int32_def INT_MIN_def INT_MAX_def)
  then show "atoi ''-2'' + 2 ^ 31 < atoi ''2147483647''" by simp
qed simp

text \<open>C24. On a tree that is not empty and whose keys have values at most \<open>INT_MAX\<close> apart from each other,
  \<open>kvtree_list_int\<close> returns the integer values of all keys, in ascending order, with their number.\<close>

theorem list_int_sorted:
  assumes "kvtree_wf t" and "elems t \<noteq> []"
    and "\<forall>e \<in> set (elems t). lo \<le> atoi (key_of e) \<and> atoi (key_of e) \<le> lo + INT_MAX"
  shows "\<exists>list. kvtree_list_int (Some t) = Some (KVTREE_SUCCESS, kvtree_size (Some t), Some list) \<and>
    sorted list \<and> mset list = image_mset (\<lambda>e. atoi (key_of e)) (mset (elems t))"
proof -
  obtain list where l: "kvtree_list_int (Some t) = Some (KVTREE_SUCCESS, int (length list), Some list)"
    "sorted list" "mset list = image_mset (\<lambda>e. atoi (key_of e)) (mset (elems t))"
    using kvtree_list_int_spec [OF assms] by blast
  have "size (mset list) = length (elems t)" unfolding l(3) by simp
  then have "int (length list) = kvtree_size (Some t)" by simp
  then show ?thesis using l by metis
qed

theorem list_int_sorted_witness:
  "\<exists>list. kvtree_list_int (Some (Kvtree [Kvtree_elem (Some ''10'') None, Kvtree_elem (Some ''9'') None])) =
      Some (KVTREE_SUCCESS,
        kvtree_size (Some (Kvtree [Kvtree_elem (Some ''10'') None, Kvtree_elem (Some ''9'') None])), Some list) \<and>
    sorted list \<and> mset list = image_mset (\<lambda>e. atoi (key_of e))
      (mset (elems (Kvtree [Kvtree_elem (Some ''10'') None, Kvtree_elem (Some ''9'') None])))"
proof (rule list_int_sorted [where lo = 0])
  have "atoi ''10'' = 10" "atoi ''9'' = 9" by code_simp+
  then show "\<forall>e \<in> set (elems (Kvtree [Kvtree_elem (Some ''10'') None, Kvtree_elem (Some ''9'') None])).
      0 \<le> atoi (key_of e) \<and> atoi (key_of e) \<le> 0 + INT_MAX"
    by (simp add: INT_MAX_def)
qed (simp_all add: kvtree_wf.simps)

end
