(* ===== verification/KV_Keys.thy ===== *)
theory KV_Keys
  imports KV_Format KV_Pack KV_Sort
begin

text \<open>
  Trees indexed by numbers. The clients of the library file data under the printed form of an \<open>int\<close>: ranks in
  the exchange, ranks and part numbers in gathered files. This theory has what they share: ranks as keys, the
  pair of calls that merges a tree below \<open><key>/<int>\<close>, and the packed size as a sum over the key paths.
\<close>

text \<open>The elements that a loop from \<open>kvtree_elem_first\<close> along \<open>kvtree_elem_next\<close> visits.\<close>

definition hash_elems :: "kvtree option \<Rightarrow> kvtree_elem list" where
  "hash_elems hash = (case hash of None \<Rightarrow> [] | Some t \<Rightarrow> elems t)"

text \<open>The code files a tree under a number with \<open>kvtree_set_kv_int\<close> and \<open>kvtree_merge\<close> into the result.\<close>

definition kvtree_merge_kv_int :: "kvtree option \<Rightarrow> string \<Rightarrow> int \<Rightarrow> kvtree option \<Rightarrow> kvtree option" where
  "kvtree_merge_kv_int hash key val h =
     (let (hash, ptr) = kvtree_set_kv_int hash (Some key) val
      in kvtree_write_ptr hash ptr (snd (kvtree_merge (kvtree_deref hash ptr) h)))"

section \<open>The packed size as a sum over the key paths\<close>

definition path_cost :: "kvpath \<Rightarrow> nat" where
  "path_cost p = (if p = [] then 4 else 5 + length (last p))"

lemma finite_paths [simp]: "finite (kvtree_paths t)" "finite (hash_paths hash)"
proof -
  show fin: "finite (kvtree_paths t)" for t
  proof (induction t rule: kvtree_tree_induct)
    case (sub es)
    have "finite (elem_paths x)" if "x \<in> set es" for x
      using sub.IH that by (cases x; cases "elem_key x"; cases "elem_hash x") auto
    then show ?case by (simp add: paths_elems)
  qed
  show "finite (hash_paths hash)" using fin by (cases hash) simp_all
qed

lemma paths_nonempty [simp]: "hash_paths h \<noteq> {}"
  using Nil_in_paths(2) by blast

lemma ex_path [simp]: "\<exists>p. p \<in> hash_paths h"
  using Nil_in_paths(2) by blast

lemma cost_under_key:
  "(\<Sum>p \<in> (#) k ` hash_paths h. path_cost p) = (\<Sum>p \<in> hash_paths h. path_cost p) + length k + 1"
proof -
  let ?A = "hash_paths h - {[]}"
  have split: "hash_paths h = insert [] ?A" by auto
  have "(\<Sum>p \<in> (#) k ` hash_paths h. path_cost p) = (\<Sum>p \<in> hash_paths h. path_cost (k # p))"
    by (simp add: sum.reindex inj_on_def)
  also have "\<dots> = path_cost [k] + (\<Sum>p \<in> ?A. path_cost (k # p))"
    by (subst split, subst sum.insert) simp_all
  also have "(\<Sum>p \<in> ?A. path_cost (k # p)) = (\<Sum>p \<in> ?A. path_cost p)"
    by (rule sum.cong) (auto simp: path_cost_def)
  finally have "(\<Sum>p \<in> (#) k ` hash_paths h. path_cost p) = path_cost [k] + (\<Sum>p \<in> ?A. path_cost p)" .
  moreover have "(\<Sum>p \<in> hash_paths h. path_cost p) = 4 + (\<Sum>p \<in> ?A. path_cost p)"
    by (subst split, subst sum.insert) (simp_all add: path_cost_def)
  ultimately show ?thesis by (simp add: path_cost_def)
qed

lemma pack_size_cost: "kvtree_wf t \<Longrightarrow> kvtree_pack_size (Some t) = (\<Sum>p \<in> kvtree_paths t. path_cost p)"
proof (induction t rule: kvtree_tree_induct)
  case (sub es)
  have wf: "elem_wf x" if "x \<in> set es" for x using sub.prems that by (simp add: kvtree_wf_iff)
  have elem: "kvtree_elem_pack_size (Some x) = (\<Sum>p \<in> elem_paths x. path_cost p)" if x: "x \<in> set es" for x
  proof -
    obtain k h where kh: "x = Kvtree_elem (Some k) h" "hash_wf h" using wf [OF x] by (cases x) (auto simp: elem_wf_iff)
    have "kvtree_pack_size h = (\<Sum>p \<in> hash_paths h. path_cost p)"
      using sub.IH [of "Some k"] x kh by (cases h) (auto simp: path_cost_def)
    then show ?thesis by (simp add: kh(1) cost_under_key)
  qed
  have dist: "distinct (map elem_key es)" using sub.prems by (simp add: kvtree_wf_iff)
  have disj: "elem_paths x \<inter> elem_paths y = {}" if "x \<in> set es" "y \<in> set es" "x \<noteq> y" for x y
  proof -
    have "elem_key x \<noteq> elem_key y" using dist that by (auto simp: distinct_map inj_on_def)
    then show ?thesis using wf [OF that(1)] wf [OF that(2)]
      by (cases x; cases y) (auto simp: elem_wf_iff)
  qed
  have fin: "finite (elem_paths x)" if "x \<in> set es" for x
    using wf [OF that] by (cases x) (auto simp: elem_wf_iff)
  have "(\<Sum>x\<leftarrow>es. kvtree_elem_pack_size (Some x)) = (\<Sum>x \<in> set es. \<Sum>p \<in> elem_paths x. path_cost p)"
    using dist elem by (simp add: sum_list_distinct_conv_sum_set distinct_map)
  also have "\<dots> = (\<Sum>p \<in> (\<Union>x \<in> set es. elem_paths x). path_cost p)"
    using disj fin by (subst sum.UNION_disjoint) auto
  finally have "kvtree_pack_size (Some (Kvtree es)) = 4 + (\<Sum>p \<in> (\<Union>x \<in> set es. elem_paths x). path_cost p)"
    by (simp add: foldl_add)
  moreover have "[] \<notin> (\<Union>x \<in> set es. elem_paths x)" using wf by (force simp: elem_wf_iff elem_paths_key)
  ultimately show ?case using fin by (simp add: paths_elems path_cost_def)
qed

section \<open>Ranks as keys\<close>

definition rank_key :: "nat \<Rightarrow> string" where
  "rank_key d = fmt_signed (int d)"

lemma rank_int32: "d < 2 ^ 31 \<Longrightarrow> is_int32 (int d)"
  by (simp add: is_int32_def INT_MIN_def INT_MAX_def)

lemma atoi_key: "d < 2 ^ 31 \<Longrightarrow> atoi (rank_key d) = int d"
  using codec_d.parse_fmt [OF rank_int32] by (simp add: rank_key_def)

lemma rank_key_inj: "d < 2 ^ 31 \<Longrightarrow> d' < 2 ^ 31 \<Longrightarrow> rank_key d = rank_key d' \<longleftrightarrow> d = d'"
  using codec_d.fmt_inj [OF rank_int32 rank_int32] by (simp add: rank_key_def)

lemma cstring_key [simp]: "is_cstring (rank_key d)"
  by (simp add: rank_key_def cstring_signed)

text \<open>Trees and lists of elements whose top-level keys are the ranks below \<open>n\<close>.\<close>

definition indexed_by_ranks :: "nat \<Rightarrow> kvtree \<Rightarrow> bool" where
  "indexed_by_ranks n t \<longleftrightarrow> kvtree_wf t \<and> (\<forall>k. [k] \<in> kvtree_paths t \<longrightarrow> (\<exists>d < n. k = rank_key d))"

definition rank_keys :: "nat \<Rightarrow> kvtree_elem list \<Rightarrow> bool" where
  "rank_keys n es \<longleftrightarrow> (\<forall>x \<in> set es. hash_wf (elem_hash x) \<and> (\<exists>d < n. elem_key x = Some (rank_key d)))"

lemma rank_keys_simps [simp]:
  "rank_keys n []"
  "rank_keys n (x # es) \<longleftrightarrow> hash_wf (elem_hash x) \<and> (\<exists>d < n. elem_key x = Some (rank_key d)) \<and> rank_keys n es"
  by (auto simp: rank_keys_def)

lemma paths_via_elems:
  "kvtree_wf t \<Longrightarrow> k # p \<in> kvtree_paths t \<longleftrightarrow> (\<exists>x \<in> set (elems t). elem_key x = Some k \<and> p \<in> hash_paths (elem_hash x))"
  by (auto simp: paths_elems [of t] kvtree_wf_iff elem_wf_iff elem_paths_key; force simp: elem_paths_key)

lemma rank_keys_tree:
  assumes "kvtree_wf t" and "\<And>k. [k] \<in> kvtree_paths t \<Longrightarrow> \<exists>d < n. k = rank_key d"
  shows "rank_keys n (elems t)"
proof -
  have "hash_wf (elem_hash x) \<and> (\<exists>d < n. elem_key x = Some (rank_key d))" if x: "x \<in> set (elems t)" for x
  proof -
    obtain k where k: "elem_key x = Some k" "hash_wf (elem_hash x)"
      using assms(1) x by (auto simp: kvtree_wf_iff elem_wf_iff)
    then have "[k] \<in> kvtree_paths t" using x by (auto simp: paths_via_elems [OF assms(1)])
    with assms(2) k show ?thesis by blast
  qed
  then show ?thesis by (simp add: rank_keys_def)
qed

section \<open>Merging at a key\<close>

lemma merge_at:
  assumes "kvtree_wf t" and "kvtree_lookup (Some t) p = Some s" and "hash_wf h"
  shows "\<exists>u. kvtree_assign (Some t) p (snd (kvtree_merge (Some s) h)) = Some u \<and> kvtree_wf u \<and>
    kvtree_paths u = kvtree_paths t \<union> (@) p ` hash_paths h"
proof -
  have s: "kvtree_wf s" "kvtree_paths s = {q. p @ q \<in> kvtree_paths t}"
    using lookup_paths [OF assms(1,2)] by blast+
  obtain m where m: "kvtree_merge (Some s) h = (KVTREE_SUCCESS, Some m)" "kvtree_wf m"
    "kvtree_paths m = kvtree_paths s \<union> hash_paths h" using merge_eq [OF s(1) assms(3)] by blast
  let ?u = "kvtree_assign (Some t) p (Some m)"
  have "hash_paths ?u = kvtree_paths t \<union> (@) p ` kvtree_paths m"
    using paths_assign [OF assms(2), of "Some m"] m(3) by simp
  also have "\<dots> = kvtree_paths t \<union> (@) p ` hash_paths h" unfolding m(3) s(2) by auto
  finally have "hash_paths ?u = kvtree_paths t \<union> (@) p ` hash_paths h" .
  moreover have "hash_wf ?u" using assms(1) m(2) by (intro assign_wf) simp_all
  moreover have "?u \<noteq> None" by (rule kvtree_assign_nonnull) simp_all
  ultimately show ?thesis using m(1) by auto
qed

lemma set_kv_int_spec:
  assumes "kvtree_wf t" and "is_cstring k"
  shows "\<exists>u s. kvtree_set_kv_int (Some t) (Some k) i = (Some u, Some [k, fmt_signed i]) \<and> kvtree_wf u \<and>
    kvtree_lookup (Some u) [k, fmt_signed i] = Some s \<and>
    kvtree_paths u = kvtree_paths t \<union> {[k], [k, fmt_signed i]}"
proof -
  obtain hash ptr where eq: "kvtree_set_kv (Some t) (Some k) (Some (fmt_signed i)) = (hash, ptr)" by force
  from kvtree_set_kv_eq [OF eq] obtain u s where u: "hash = Some u" "ptr = Some [k, fmt_signed i]"
    "kvtree_lookup (Some u) [k, fmt_signed i] = Some s"
    "kvtree_paths u = kvtree_paths t \<union> {[k], [k, fmt_signed i]}" by (cases hash) auto
  moreover have "hash_wf (fst (kvtree_set_kv (Some t) (Some k) (Some (fmt_signed i))))"
    using assms by (intro kvtree_set_kv_wf) (simp_all add: cstring_signed)
  ultimately show ?thesis using eq by (simp add: kvtree_set_kv_int_def)
qed

lemma merge_kv_int_spec:
  assumes "kvtree_wf t" and "is_cstring k" and "hash_wf h"
  shows "\<exists>u. kvtree_merge_kv_int (Some t) k i h = Some u \<and> kvtree_wf u \<and>
    kvtree_paths u = kvtree_paths t \<union> insert [k] ((@) [k, fmt_signed i] ` hash_paths h)"
proof -
  let ?p = "[k, fmt_signed i]"
  obtain u s where u: "kvtree_set_kv_int (Some t) (Some k) i = (Some u, Some ?p)"
    "kvtree_wf u" "kvtree_lookup (Some u) ?p = Some s" "kvtree_paths u = kvtree_paths t \<union> {[k], ?p}"
    using set_kv_int_spec [OF assms(1,2)] by blast
  obtain v where v: "kvtree_assign (Some u) ?p (snd (kvtree_merge (Some s) h)) = Some v"
    "kvtree_wf v" "kvtree_paths v = kvtree_paths u \<union> (@) ?p ` hash_paths h"
    using merge_at [OF u(2,3) assms(3)] by blast
  have "?p \<in> (@) ?p ` hash_paths h" using Nil_in_paths(2) [of h] by force
  then show ?thesis using u v by (auto simp: kvtree_merge_kv_int_def simp del: kvtree_lookup.simps)
qed

section \<open>Formats with one number\<close>

lemma fmt_keys_d: "is_int32 i \<Longrightarrow> fmt_keys (strtok_tokens [] ''%d'') [ArgInt i] = Inr [fmt_signed i]"
  using codec_d.fmt_short [of i] by (simp add: next_key_def snprintf_key_def KVTREE_MAX_LINE_def)

lemma getf_key:
  "is_int32 i \<Longrightarrow> kvtree_getf (Some t) ''%d'' [ArgInt i] =
    Inr (if kvtree_get (Some t) (Some (fmt_signed i)) = None then None else Some [fmt_signed i])"
  using fmt_keys_d [of i] by (auto simp: kvtree_getf_def split: sum.splits)

lemma setf_new_key:
  assumes "kvtree_wf t" and "is_int32 i" and "hash_wf v" and "\<And>q. fmt_signed i # q \<in> kvtree_paths t \<Longrightarrow> q = []"
  shows "\<exists>u p. kvtree_setf (Some t) v ''%d'' [ArgInt i] = Inr (Some u, p) \<and> kvtree_wf u \<and>
    kvtree_paths u = kvtree_paths t \<union> (#) (fmt_signed i) ` hash_paths v"
proof -
  from kvtree_setf_eq [OF fmt_keys_d [OF assms(2)], of t v]
  have "kvtree_setf (Some t) v ''%d'' [ArgInt i] =
      Inr (fst (kvtree_set (Some t) (Some (fmt_signed i)) v), if v = None then None else Some [fmt_signed i])" by simp
  moreover have "hash_wf (fst (kvtree_set (Some t) (Some (fmt_signed i)) v))"
    using assms by (intro kvtree_set_wf) (simp_all add: cstring_signed)
  moreover have "hash_paths (fst (kvtree_set (Some t) (Some (fmt_signed i)) v)) =
      kvtree_paths t \<union> (#) (fmt_signed i) ` hash_paths v"
    unfolding paths_set [OF assms(1)] prune_def using assms(4) Nil_in_paths(2) [of v] by blast
  moreover have "fst (kvtree_set (Some t) (Some (fmt_signed i)) v) \<noteq> None" by (simp add: kvtree_set_eq)
  ultimately show ?thesis by auto
qed

lemmas setf_rank = setf_new_key [OF _ rank_int32, folded rank_key_def]

section \<open>Reading numbers and children\<close>

lemma card_keys:
  assumes "\<And>x. x \<in> set es \<Longrightarrow> elem_key x \<noteq> None" and "distinct (map elem_key es)"
  shows "card {k. [k] \<in> (\<Union>x \<in> set es. elem_paths x)} = length es"
proof -
  have path: "[k] \<in> elem_paths x \<longleftrightarrow> k = key_of x" if "x \<in> set es" for x k
    using assms(1) [OF that] Nil_in_paths(2) [of "elem_hash x"] by (auto simp: elem_paths_key)
  then have "{k. [k] \<in> (\<Union>x \<in> set es. elem_paths x)} = key_of ` set es" by auto
  moreover have "inj_on key_of (set es)"
  proof (rule inj_onI)
    fix x y assume xy: "x \<in> set es" "y \<in> set es" "key_of x = key_of y"
    then have "elem_key x = elem_key y" using assms(1) [of x] assms(1) [of y] by (cases "elem_key x"; cases "elem_key y") auto
    then show "x = y" using assms(2) xy by (auto simp: distinct_map dest: inj_onD)
  qed
  moreover have "distinct es" using assms(2) by (simp add: distinct_map)
  ultimately show ?thesis by (simp add: card_image distinct_card)
qed

lemma size_keys: "kvtree_wf t \<Longrightarrow> length (elems t) = card {k. [k] \<in> kvtree_paths t}"
  by (subst card_keys [of "elems t", symmetric]) (auto simp: kvtree_wf_iff elem_wf_iff paths_elems)

lemma get_child:
  assumes "kvtree_wf t" and "k # k' # q \<in> kvtree_paths t"
  obtains s where "kvtree_get (Some t) (Some k) = Some s" and "kvtree_wf s"
    and "kvtree_paths s = {p. k # p \<in> kvtree_paths t}"
proof (cases "kvtree_get (Some t) (Some k)")
  case None
  then show thesis using get_none_paths [OF assms(1) None] assms(2) by auto
next
  case (Some s)
  then show thesis using that get_paths_eq [OF assms(1) Some] kvtree_get_wf [of "Some t" "Some k"] assms(1) by simp
qed

lemma single_value:
  assumes "kvtree_wf t" and "[k, v] \<in> kvtree_paths t" and "\<And>q. k # q \<in> kvtree_paths t \<Longrightarrow> q = [] \<or> q = [v]"
  shows "kvtree_get_val (Some t) (Some k) = Some v"
proof -
  obtain s where s: "kvtree_get (Some t) (Some k) = Some s" "kvtree_wf s" "kvtree_paths s = {p. k # p \<in> kvtree_paths t}"
    by (rule get_child [OF assms(1,2)])
  have "{k'. [k'] \<in> kvtree_paths s} = {v}" using assms(2,3) by (auto simp: s(3))
  then have "length (elems s) = 1" using size_keys [OF s(2)] by simp
  then obtain x where x: "elems s = [x]" by (auto simp: length_Suc_conv)
  then have key: "elem_key x = Some (key_of x)" using wf_keys(2) [OF s(2)] by simp
  then have "[key_of x] \<in> elem_paths x" using elem_paths_key [OF key] Nil_in_paths(2) by auto
  then have "[key_of x] \<in> kvtree_paths s" using x by (auto simp: paths_elems)
  then have "key_of x = v" using assms(3) by (auto simp: s(3))
  then show ?thesis using s(1) x key by (simp add: kvtree_get_val_def kvtree_elem_first_def kvtree_elem_key_def)
qed

lemma strtoul_signed: "0 \<le> i \<Longrightarrow> i < 2 ^ 63 \<Longrightarrow> strtoul 0 (fmt_signed i) = word_of_int i"
proof -
  assume i: "0 \<le> i" "i < 2 ^ 63"
  then have "unat (word_of_int i :: u64) = nat i"
    by (simp add: unsigned_of_int take_bit_int_eq_self)
  moreover have "fmt_signed i = fmt_unsigned (nat i)" using i(1) by (simp add: fmt_signed_def fmt_unsigned_def)
  ultimately show ?thesis using codec_lu.parse_fmt [of "word_of_int i"] by simp
qed

end
