(* ===== verification/KV_OS.thy ===== *)
theory KV_OS
  imports KV_Helpers KV_Cnum "HOL-Library.AList"
begin

text \<open>
  The file functions of \<open>src/kvtree_io.c\<close> over the system calls they make. The state of the
  operating system is a record: the contents of the files, the open descriptors with their offsets
  and locks, and a script. Each system call takes the next entry of the script, which decides
  whether it fails, is cut short or runs to completion; an exhausted script means completion. A
  theorem for every script is one for every behaviour with finitely many disturbances. Messages
  printed by the functions are left out.
\<close>

section \<open>The operating system\<close>

datatype errno = EINTR | EAGAIN | EBADF | ENOENT | EIO

text \<open>\<open>Partial k\<close> transfers at most \<open>k + 1\<close> bytes, \<open>Zero\<close> makes a \<open>write\<close> return 0.\<close>

datatype outcome = Complete | Partial nat | Zero | Error errno

datatype oflag = O_RDONLY | O_WRONLY | O_RDWR | O_CREAT | O_TRUNC

datatype lock_op = LOCK_SH | LOCK_EX | LOCK_UN

datatype whence = SEEK_SET | SEEK_CUR | SEEK_END

record open_file =
  of_name :: string
  of_off :: nat
  of_read :: bool
  of_write :: bool
  of_lock :: lock_op

record os =
  os_files :: "string \<rightharpoonup> byte list"
  os_fds :: "(int \<times> open_file) list"
  os_script :: "outcome list"
  os_umask :: u32
  os_junk :: "nat \<Rightarrow> byte"

definition next_outcome :: "os \<Rightarrow> outcome \<times> os" where
  "next_outcome os =
     (case os_script os of
        [] \<Rightarrow> (Complete, os)
      | x # xs \<Rightarrow> (x, os\<lparr>os_script := xs\<rparr>))"

definition fd_fresh :: "(int \<times> open_file) list \<Rightarrow> int" where
  "fd_fresh fds = hd (filter (\<lambda>i. i \<notin> fst ` set fds) (map int [0..<Suc (length fds)]))"

definition file_content :: "os \<Rightarrow> string \<Rightarrow> byte list" where
  "file_content os name = (case os_files os name of None \<Rightarrow> [] | Some bs \<Rightarrow> bs)"

definition set_fd :: "int \<Rightarrow> open_file \<Rightarrow> os \<Rightarrow> os" where
  "set_fd fd f os = os\<lparr>os_fds := AList.update fd f (os_fds os)\<rparr>"

definition sys_open :: "os \<Rightarrow> string \<Rightarrow> oflag set \<Rightarrow> u32 \<Rightarrow> os \<times> int" where
  "sys_open os file flags mode =
     (case next_outcome os of
        (Error _, os1) \<Rightarrow> (os1, -1)
      | (_, os1) \<Rightarrow>
          if os_files os1 file = None \<and> O_CREAT \<notin> flags then (os1, -1)
          else
            (let fd = fd_fresh (os_fds os1);
                 content = (if O_TRUNC \<in> flags then [] else file_content os1 file);
                 f = \<lparr>of_name = file, of_off = 0, of_read = O_WRONLY \<notin> flags,
                      of_write = (O_WRONLY \<in> flags \<or> O_RDWR \<in> flags), of_lock = LOCK_UN\<rparr>
             in (set_fd fd f (os1\<lparr>os_files := (os_files os1)(file \<mapsto> content)\<rparr>), fd)))"

text \<open>One call of \<open>read\<close> or \<open>write\<close> transfers at most \<open>0x7ffff000\<close> bytes on Linux, whatever the size it
  is asked for (see their manual pages).\<close>

definition MAX_RW_COUNT :: nat where
  "MAX_RW_COUNT = 0x7FFFF000"

lemma MAX_RW_COUNT_pos [simp]: "0 < MAX_RW_COUNT" "MAX_RW_COUNT \<noteq> 0"
  by (simp_all add: MAX_RW_COUNT_def)

definition sys_read :: "os \<Rightarrow> int \<Rightarrow> nat \<Rightarrow> os \<times> (errno + byte list)" where
  "sys_read os fd n =
     (case next_outcome os of
        (Error er, os1) \<Rightarrow> (os1, Inl er)
      | (oc, os1) \<Rightarrow>
          (case map_of (os_fds os1) fd of
             None \<Rightarrow> (os1, Inl EBADF)
           | Some f \<Rightarrow>
               if \<not> of_read f then (os1, Inl EBADF)
               else
                 (let avail = take (min n MAX_RW_COUNT) (drop (of_off f) (file_content os1 (of_name f)));
                      bs = (case oc of Partial k \<Rightarrow> take (Suc k) avail | _ \<Rightarrow> avail)
                  in (set_fd fd (f\<lparr>of_off := of_off f + length bs\<rparr>) os1, Inr bs))))"

text \<open>A write at an offset: the file grows when needed, a gap is filled with zeros.\<close>

definition overwrite :: "byte list \<Rightarrow> nat \<Rightarrow> byte list \<Rightarrow> byte list" where
  "overwrite content off bs =
     take off content @ replicate (off - length content) 0 @ bs @ drop (off + length bs) content"

definition sys_write :: "os \<Rightarrow> int \<Rightarrow> byte list \<Rightarrow> os \<times> (errno + nat)" where
  "sys_write os fd bs =
     (case next_outcome os of
        (Error er, os1) \<Rightarrow> (os1, Inl er)
      | (Zero, os1) \<Rightarrow> (os1, Inr 0)
      | (oc, os1) \<Rightarrow>
          (case map_of (os_fds os1) fd of
             None \<Rightarrow> (os1, Inl EBADF)
           | Some f \<Rightarrow>
               if \<not> of_write f then (os1, Inl EBADF)
               else
                 (let avail = take MAX_RW_COUNT bs;
                      ws = (case oc of Partial k \<Rightarrow> take (Suc k) avail | _ \<Rightarrow> avail);
                      content = overwrite (file_content os1 (of_name f)) (of_off f) ws
                  in (set_fd fd (f\<lparr>of_off := of_off f + length ws\<rparr>)
                        (os1\<lparr>os_files := (os_files os1)(of_name f \<mapsto> content)\<rparr>),
                      Inr (length ws)))))"

definition sys_fsync :: "os \<Rightarrow> int \<Rightarrow> os \<times> int" where
  "sys_fsync os fd =
     (case next_outcome os of
        (Error _, os1) \<Rightarrow> (os1, -1)
      | (_, os1) \<Rightarrow> (os1, if map_of (os_fds os1) fd = None then -1 else 0))"

text \<open>A descriptor is released by \<open>close\<close> even when it reports an error.\<close>

definition sys_close :: "os \<Rightarrow> int \<Rightarrow> os \<times> int" where
  "sys_close os fd =
     (case next_outcome os of
        (oc, os1) \<Rightarrow>
          (os1\<lparr>os_fds := AList.delete fd (os_fds os1)\<rparr>,
           if map_of (os_fds os1) fd = None then -1
           else case oc of Error _ \<Rightarrow> -1 | _ \<Rightarrow> 0))"

definition sys_flock :: "os \<Rightarrow> int \<Rightarrow> lock_op \<Rightarrow> os \<times> int" where
  "sys_flock os fd op =
     (case next_outcome os of
        (Error _, os1) \<Rightarrow> (os1, -1)
      | (_, os1) \<Rightarrow>
          (case map_of (os_fds os1) fd of
             None \<Rightarrow> (os1, -1)
           | Some f \<Rightarrow> (set_fd fd (f\<lparr>of_lock := op\<rparr>) os1, 0)))"

definition sys_lseek :: "os \<Rightarrow> int \<Rightarrow> int \<Rightarrow> whence \<Rightarrow> os \<times> int" where
  "sys_lseek os fd pos whence =
     (case next_outcome os of
        (Error _, os1) \<Rightarrow> (os1, -1)
      | (_, os1) \<Rightarrow>
          (case map_of (os_fds os1) fd of
             None \<Rightarrow> (os1, -1)
           | Some f \<Rightarrow>
               (let target = pos + (case whence of SEEK_SET \<Rightarrow> 0 | SEEK_CUR \<Rightarrow> int (of_off f)
                                     | SEEK_END \<Rightarrow> int (length (file_content os1 (of_name f))))
                in if target < 0 then (os1, -1)
                   else (set_fd fd (f\<lparr>of_off := nat target\<rparr>) os1, target))))"

definition sys_ftruncate :: "os \<Rightarrow> int \<Rightarrow> nat \<Rightarrow> os \<times> int" where
  "sys_ftruncate os fd n =
     (case next_outcome os of
        (Error _, os1) \<Rightarrow> (os1, -1)
      | (_, os1) \<Rightarrow>
          (case map_of (os_fds os1) fd of
             None \<Rightarrow> (os1, -1)
           | Some f \<Rightarrow>
               if \<not> of_write f then (os1, -1)
               else
                 (let content = file_content os1 (of_name f)
                  in (os1\<lparr>os_files := (os_files os1)(of_name f \<mapsto>
                        take n content @ replicate (n - length content) 0)\<rparr>, 0))))"

definition sys_access_R_OK :: "os \<Rightarrow> string \<Rightarrow> os \<times> int" where
  "sys_access_R_OK os file =
     (case next_outcome os of
        (Error _, os1) \<Rightarrow> (os1, -1)
      | (_, os1) \<Rightarrow> (os1, if os_files os1 file = None then -1 else 0))"

section \<open>The functions of kvtree_io.c\<close>

definition kvtree_getmode :: "os \<Rightarrow> int \<Rightarrow> int \<Rightarrow> int \<Rightarrow> os \<times> u32" where
  "kvtree_getmode os rd wr execute =
     (let old_mask = os_umask os;
          os1 = os\<lparr>os_umask := 0x12\<rparr>;
          os2 = os1\<lparr>os_umask := old_mask\<rparr>;
          bits = 0;
          bits = (if rd \<noteq> 0 then bits OR 0x124 else bits);
          bits = (if wr \<noteq> 0 then bits OR 0x92 else bits);
          bits = (if execute \<noteq> 0 then bits OR 0x49 else bits)
      in (os2, bits AND NOT old_mask AND 0x1FF))"

definition KVTREE_OPEN_TRIES :: nat where
  "KVTREE_OPEN_TRIES = 5"

fun open_retry :: "os \<Rightarrow> string \<Rightarrow> oflag set \<Rightarrow> u32 \<Rightarrow> nat \<Rightarrow> int \<Rightarrow> os \<times> int" where
  "open_retry os file flags mode 0 fd = (os, fd)"
| "open_retry os file flags mode (Suc tries) fd =
     (if fd < 0
      then (let (os1, fd1) = sys_open os file flags mode in open_retry os1 file flags mode tries fd1)
      else (os, fd))"

text \<open>The mode is read from the argument list only when the flags contain \<open>O_CREAT\<close>.\<close>

definition kvtree_open :: "os \<Rightarrow> string \<Rightarrow> oflag set \<Rightarrow> u32 \<Rightarrow> os \<times> int" where
  "kvtree_open os file flags mode_arg =
     (let mode = (if O_CREAT \<in> flags then mode_arg else 0);
          (os1, fd) = sys_open os file flags mode
      in if fd < 0 then open_retry os1 file flags mode KVTREE_OPEN_TRIES fd else (os1, fd))"

definition kvtree_close :: "os \<Rightarrow> string \<Rightarrow> int \<Rightarrow> os \<times> int" where
  "kvtree_close os file fd =
     (let (os1, _) = sys_fsync os fd;
          (os2, rc) = sys_close os1 fd
      in if rc \<noteq> 0 then (os2, KVTREE_FAILURE) else (os2, KVTREE_SUCCESS))"

definition kvtree_file_lock_read_write :: "os \<Rightarrow> string \<Rightarrow> int \<Rightarrow> int \<Rightarrow> os \<times> int" where
  "kvtree_file_lock_read_write os file fd wr =
     (let lock_op = (if wr \<noteq> 0 then LOCK_EX else LOCK_SH);
          (os1, rc) = sys_flock os fd lock_op
      in if rc \<noteq> 0 then (os1, KVTREE_FAILURE) else (os1, KVTREE_SUCCESS))"

definition kvtree_file_unlock :: "os \<Rightarrow> string \<Rightarrow> int \<Rightarrow> os \<times> int" where
  "kvtree_file_unlock os file fd =
     (let (os1, rc) = sys_flock os fd LOCK_UN
      in if rc \<noteq> 0 then (os1, KVTREE_FAILURE) else (os1, KVTREE_SUCCESS))"

definition kvtree_open_with_lock :: "os \<Rightarrow> string \<Rightarrow> oflag set \<Rightarrow> u32 \<Rightarrow> int \<Rightarrow> os \<times> int" where
  "kvtree_open_with_lock os file flags mode wr =
     (let (os1, fd) = kvtree_open os file flags mode
      in if fd < 0 then (os1, fd)
         else (let (os2, ret) = kvtree_file_lock_read_write os1 file fd wr
               in if ret \<noteq> KVTREE_SUCCESS then (fst (sys_close os2 fd), ret) else (os2, fd)))"

definition kvtree_close_with_unlock :: "os \<Rightarrow> string \<Rightarrow> int \<Rightarrow> os \<times> int" where
  "kvtree_close_with_unlock os file fd =
     (let (os1, ret) = kvtree_file_unlock os file fd
      in if ret \<noteq> KVTREE_SUCCESS then (os1, ret) else kvtree_close os1 file fd)"

definition kvtree_lseek :: "os \<Rightarrow> string \<Rightarrow> int \<Rightarrow> int \<Rightarrow> whence \<Rightarrow> os \<times> int" where
  "kvtree_lseek os file fd pos whence =
     (let (os1, rc) = sys_lseek os fd pos whence
      in if rc = -1 then (os1, KVTREE_FAILURE) else (os1, KVTREE_SUCCESS))"

definition kvtree_file_is_readable :: "os \<Rightarrow> string \<Rightarrow> os \<times> int" where
  "kvtree_file_is_readable os file =
     (let (os1, rc) = sys_access_R_OK os file
      in if rc < 0 then (os1, KVTREE_FAILURE) else (os1, KVTREE_SUCCESS))"

text \<open>The retry loops. The buffer of a read is the list of the bytes stored so far, whose length is
  the counter \<open>n\<close>; a write takes the bytes from the offset \<open>n\<close> on. The read loop keeps the result of
  \<open>read\<close> in an \<open>int\<close>, the write loop that of \<open>write\<close> in a \<open>ssize_t\<close>: the former narrows it to 32 bits. A
  count above \<open>INT_MAX\<close> would come out negative and be taken for an error (the model counts it as a
  serious one; the code would look at the \<open>errno\<close> some earlier call left). \<open>read_rc\<close> shows that the limit
  on one transfer is what keeps the narrowing harmless.\<close>

lemma next_outcome_script:
  "next_outcome os = (oc, os1) \<Longrightarrow> length (os_script os1) \<le> length (os_script os)"
  "next_outcome os = (Error er, os1) \<Longrightarrow> length (os_script os1) < length (os_script os)"
  by (auto simp: next_outcome_def split: list.splits)

lemma set_fd_script [simp]: "os_script (set_fd fd f os) = os_script os"
  by (simp add: set_fd_def)

definition serious :: "errno \<Rightarrow> bool" where
  "serious er \<longleftrightarrow> \<not> (er = EINTR \<or> er = EAGAIN)"

lemma sys_read_script:
  "sys_read os fd n = (os1, r) \<Longrightarrow> length (os_script os1) \<le> length (os_script os)"
  "sys_read os fd n = (os1, Inl er) \<Longrightarrow> \<not> serious er \<Longrightarrow> length (os_script os1) < length (os_script os)"
  by (auto simp: sys_read_def Let_def serious_def dest: next_outcome_script
      split: prod.splits outcome.splits option.splits if_splits)

lemma sys_write_script:
  "sys_write os fd bs = (os1, r) \<Longrightarrow> length (os_script os1) \<le> length (os_script os)"
  "sys_write os fd bs = (os1, Inl er) \<Longrightarrow> \<not> serious er \<Longrightarrow> length (os_script os1) < length (os_script os)"
  by (auto simp: sys_write_def Let_def serious_def dest: next_outcome_script
      split: prod.splits outcome.splits option.splits if_splits)

lemma read_advances:
  assumes "n < sz" and "0 < to_int32 (int m)"
  shows "sz - (n + min m (nat (to_int32 (int m)))) < sz - n"
proof -
  have "0 < m" using assms(2) by (cases m) (simp_all add: to_int32_def)
  with assms show ?thesis by simp
qed

function read_attempt_loop :: "os \<Rightarrow> int \<Rightarrow> nat \<Rightarrow> byte list \<Rightarrow> nat \<Rightarrow> os \<times> int \<times> byte list" where
  "read_attempt_loop os fd sz buf retries =
     (if length buf < sz then
        (case sys_read os fd (sz - length buf) of
           (os1, Inr bs) \<Rightarrow>
             (let rc = to_int32 (int (length bs))
              in if rc > 0 then read_attempt_loop os1 fd sz (buf @ take (nat rc) bs) retries
                 else if rc = 0 then (os1, int (length buf), buf)
                 else
                   (let retries1 = retries - 1
                    in if retries1 \<noteq> 0 then read_attempt_loop os1 fd sz buf retries1
                       else (os1, -1, buf)))
         | (os1, Inl er) \<Rightarrow>
             if er = EINTR \<or> er = EAGAIN then read_attempt_loop os1 fd sz buf retries
             else
               (let retries1 = retries - 1
                in if retries1 \<noteq> 0 then read_attempt_loop os1 fd sz buf retries1
                   else (os1, -1, buf)))
      else (os, int (length buf), buf))"
  by pat_completeness auto

termination
  by (relation "measures [\<lambda>(os, fd, sz, buf, retries). sz - length buf,
      \<lambda>(os, fd, sz, buf, retries). retries, \<lambda>(os, fd, sz, buf, retries). length (os_script os)]")
    (auto simp: serious_def read_advances dest: sys_read_script [OF sym])

declare read_attempt_loop.simps [simp del]

function write_attempt_loop :: "os \<Rightarrow> int \<Rightarrow> byte list \<Rightarrow> nat \<Rightarrow> nat \<Rightarrow> os \<times> int" where
  "write_attempt_loop os fd buf n retries =
     (if n < length buf then
        (case sys_write os fd (drop n buf) of
           (os1, Inr rc) \<Rightarrow>
             if rc > 0 then write_attempt_loop os1 fd buf (n + rc) retries
             else (os1, -1)
         | (os1, Inl er) \<Rightarrow>
             if er = EINTR \<or> er = EAGAIN then write_attempt_loop os1 fd buf n retries
             else
               (let retries1 = retries - 1
                in if retries1 \<noteq> 0 then write_attempt_loop os1 fd buf n retries1
                   else (os1, -1)))
      else (os, int n))"
  by pat_completeness auto

termination
  by (relation "measures [\<lambda>(os, fd, buf, n, retries). length buf - n,
      \<lambda>(os, fd, buf, n, retries). retries, \<lambda>(os, fd, buf, n, retries). length (os_script os)]")
    (auto simp: serious_def dest: sys_write_script [OF sym])

declare write_attempt_loop.simps [simp del]

definition kvtree_read_attempt :: "os \<Rightarrow> string \<Rightarrow> int \<Rightarrow> nat \<Rightarrow> os \<times> int \<times> byte list" where
  "kvtree_read_attempt os file fd sz = read_attempt_loop os fd sz [] 10"

definition kvtree_write_attempt :: "os \<Rightarrow> string \<Rightarrow> int \<Rightarrow> byte list \<Rightarrow> os \<times> int" where
  "kvtree_write_attempt os file fd buf = write_attempt_loop os fd buf 0 10"

section \<open>The narrowed result of read\<close>

lemma sys_read_length:
  "sys_read os fd n = (os1, Inr bs) \<Longrightarrow> length bs \<le> min n MAX_RW_COUNT"
  by (auto simp: sys_read_def Let_def split: prod.splits outcome.splits option.splits if_splits)

lemma read_rc:
  assumes "sys_read os fd n = (os1, Inr bs)"
  shows "to_int32 (int (length bs)) = int (length bs)"
  using sys_read_length [OF assms]
  by (intro to_int32_id) (simp add: is_int32_def INT_MIN_def INT_MAX_def MAX_RW_COUNT_def)

text \<open>The loop as it runs, and its induction rule, with the counts read exactly.\<close>

lemma read_attempt_loop_step:
  "read_attempt_loop os fd sz buf retries =
     (if length buf < sz then
        (case sys_read os fd (sz - length buf) of
           (os1, Inr bs) \<Rightarrow>
             if bs \<noteq> [] then read_attempt_loop os1 fd sz (buf @ bs) retries
             else (os1, int (length buf), buf)
         | (os1, Inl er) \<Rightarrow>
             if er = EINTR \<or> er = EAGAIN then read_attempt_loop os1 fd sz buf retries
             else
               (let retries1 = retries - 1
                in if retries1 \<noteq> 0 then read_attempt_loop os1 fd sz buf retries1
                   else (os1, -1, buf)))
      else (os, int (length buf), buf))"
proof (cases "sys_read os fd (sz - length buf)")
  case (Pair os1 r)
  show ?thesis
  proof (cases r)
    case (Inl er)
    with Pair show ?thesis by (simp add: read_attempt_loop.simps [of os])
  next
    case (Inr bs)
    with Pair read_rc [of os fd "sz - length buf" os1 bs] show ?thesis
      by (simp add: read_attempt_loop.simps [of os])
  qed
qed

lemma read_attempt_loop_induct:
  assumes "\<And>os fd sz buf retries.
      (\<And>os1 er. length buf < sz \<Longrightarrow> sys_read os fd (sz - length buf) = (os1, Inl er) \<Longrightarrow>
        er = EINTR \<or> er = EAGAIN \<Longrightarrow> P os1 fd sz buf retries) \<Longrightarrow>
      (\<And>os1 er. length buf < sz \<Longrightarrow> sys_read os fd (sz - length buf) = (os1, Inl er) \<Longrightarrow>
        \<not> (er = EINTR \<or> er = EAGAIN) \<Longrightarrow> retries - 1 \<noteq> 0 \<Longrightarrow> P os1 fd sz buf (retries - 1)) \<Longrightarrow>
      (\<And>os1 bs. length buf < sz \<Longrightarrow> sys_read os fd (sz - length buf) = (os1, Inr bs) \<Longrightarrow>
        bs \<noteq> [] \<Longrightarrow> P os1 fd sz (buf @ bs) retries) \<Longrightarrow>
      P os fd sz buf retries"
  shows "P os fd sz buf (retries :: nat)"
proof (induction os fd sz buf retries rule: read_attempt_loop.induct)
  case (1 os fd sz buf retries)
  show ?case
  proof (rule assms)
    fix os1 bs
    assume r: "length buf < sz" "sys_read os fd (sz - length buf) = (os1, Inr bs)" "bs \<noteq> []"
    then show "P os1 fd sz (buf @ bs) retries"
      using "1.IH"(3) [OF r(1) r(2) [symmetric] refl refl] read_rc [OF r(2)] by simp
  qed (use 1 in fastforce)+
qed

section \<open>What the system calls leave\<close>

definition outcome_of :: "os \<Rightarrow> outcome" where
  "outcome_of os = (case os_script os of [] \<Rightarrow> Complete | oc # _ \<Rightarrow> oc)"

lemma next_outcome_eq: "next_outcome os = (outcome_of os, os\<lparr>os_script := tl (os_script os)\<rparr>)"
  by (simp add: next_outcome_def outcome_of_def split: list.splits)

lemma file_content_script [simp]: "file_content (os\<lparr>os_script := sc\<rparr>) = file_content os"
  by (simp add: file_content_def fun_eq_iff)

lemmas sys_defs = sys_open_def sys_read_def sys_write_def sys_fsync_def sys_close_def sys_flock_def
  sys_lseek_def sys_ftruncate_def sys_access_R_OK_def next_outcome_eq

lemma set_fd_fields [simp]:
  "os_files (set_fd fd f os) = os_files os" "os_junk (set_fd fd f os) = os_junk os"
  "os_umask (set_fd fd f os) = os_umask os" "file_content (set_fd fd f os) = file_content os"
  "map_of (os_fds (set_fd fd f os)) = (map_of (os_fds os))(fd \<mapsto> f)"
  by (auto simp: set_fd_def file_content_def update_conv fun_eq_iff)

lemma file_content_upd [simp]:
  "file_content (os\<lparr>os_files := (os_files os)(g \<mapsto> bs)\<rparr>) = (file_content os)(g := bs)"
  by (auto simp: file_content_def fun_eq_iff)

text \<open>A script without failures: transfers may only be cut short.\<close>

definition calm :: "outcome list \<Rightarrow> bool" where
  "calm script \<longleftrightarrow> (\<forall>oc \<in> set script. oc = Complete \<or> (\<exists>k. oc = Partial k))"

lemma calm_tl [simp]: "calm script \<Longrightarrow> calm (tl script)"
  by (cases script) (simp_all add: calm_def)

lemma calm_simps [simp]:
  assumes "calm (os_script os)"
  shows "outcome_of os \<noteq> Zero" "outcome_of os \<noteq> Error er"
  using assms by (cases "os_script os"; auto simp: calm_def outcome_of_def)+

lemma overwrite_overwrite:
  "overwrite (overwrite c off a) (off + length a) b = overwrite c off (a @ b)"
  by (auto simp: overwrite_def min_def ac_simps)

lemma overwrite_Nil: "off \<le> length c \<Longrightarrow> overwrite c off [] = c"
  by (simp add: overwrite_def)

lemma sys_write_error:
  assumes "sys_write os fd bs = (os1, Inl er)"
  shows "os_files os1 = os_files os" "os_fds os1 = os_fds os" "os_junk os1 = os_junk os"
  using assms
  by (auto simp: sys_defs Let_def split: prod.splits outcome.splits option.splits if_splits)

lemma sys_write_done:
  assumes "sys_write os fd bs = (os1, Inr rc)" and "0 < rc" and "map_of (os_fds os) fd = Some f"
  shows "rc \<le> length bs"
    and "os_files os1 = (os_files os)(of_name f \<mapsto> overwrite (file_content os (of_name f)) (of_off f) (take rc bs))"
    and "map_of (os_fds os1) = (map_of (os_fds os))(fd \<mapsto> f\<lparr>of_off := of_off f + rc\<rparr>)"
    and "os_junk os1 = os_junk os"
  using assms
  by (auto simp: sys_defs Let_def min_def split: prod.splits outcome.splits option.splits if_splits)

lemma sys_write_calm:
  assumes "sys_write os fd bs = (os1, r)" and "calm (os_script os)" and "map_of (os_fds os) fd = Some f"
    and "of_write f" and "bs \<noteq> []"
  shows "calm (os_script os1) \<and> (\<exists>rc. r = Inr rc \<and> 0 < rc)"
  using assms
  by (auto simp: sys_defs Let_def split: prod.splits outcome.splits option.splits if_splits)

lemma sys_read_error:
  assumes "sys_read os fd n = (os1, Inl er)"
  shows "os_files os1 = os_files os" "os_fds os1 = os_fds os" "os_junk os1 = os_junk os"
  using assms
  by (auto simp: sys_defs Let_def split: prod.splits outcome.splits option.splits if_splits)

lemma sys_read_done:
  assumes "sys_read os fd n = (os1, Inr bs)" and "map_of (os_fds os) fd = Some f"
  defines "avail \<equiv> take n (drop (of_off f) (file_content os (of_name f)))"
  shows "bs = take (length bs) avail" and "bs = [] \<longleftrightarrow> avail = []"
    and "os_files os1 = os_files os" and "os_junk os1 = os_junk os"
    and "map_of (os_fds os1) = (map_of (os_fds os))(fd \<mapsto> f\<lparr>of_off := of_off f + length bs\<rparr>)"
  using assms
  by (auto simp: sys_defs Let_def min_def split: prod.splits outcome.splits option.splits if_splits)

lemma sys_read_calm:
  assumes "sys_read os fd n = (os1, r)" and "calm (os_script os)" and "map_of (os_fds os) fd = Some f"
    and "of_read f"
  shows "calm (os_script os1) \<and> (\<exists>bs. r = Inr bs)"
  using assms
  by (auto simp: sys_defs Let_def split: prod.splits outcome.splits option.splits if_splits)

section \<open>The retry loops transfer everything or report failure\<close>

lemma write_attempt_loop_spec:
  assumes "write_attempt_loop os fd buf n retries = (os', rc)" and "0 \<le> rc"
    and "map_of (os_fds os) fd = Some f" and "of_off f = off + n" and "n \<le> length buf"
    and "os_files os (of_name f) = Some (overwrite c off (take n buf))"
  shows "rc = int (length buf) \<and>
    os_files os' = (os_files os)(of_name f \<mapsto> overwrite c off buf) \<and>
    map_of (os_fds os') = (map_of (os_fds os))(fd \<mapsto> f\<lparr>of_off := off + length buf\<rparr>) \<and>
    os_junk os' = os_junk os"
  using assms
proof (induction os fd buf n retries arbitrary: f rule: write_attempt_loop.induct)
  case (1 os fd buf n retries)
  show ?case
  proof (cases "n < length buf")
    case False
    then show ?thesis using "1.prems"
      by (auto simp: write_attempt_loop.simps [of os] fun_upd_idem_iff)
  next
    case True
    obtain os1 r where w: "sys_write os fd (drop n buf) = (os1, r)" by fastforce
    show ?thesis
    proof (cases r)
      case (Inr k)
      then have k: "0 < k" using "1.prems"(1,2) True w by (auto simp: write_attempt_loop.simps [of os] split: if_splits)
      note d = sys_write_done [OF w [unfolded Inr] k "1.prems"(3)]
      have "overwrite (overwrite c off (take n buf)) (off + n) (take k (drop n buf)) = overwrite c off (take (n + k) buf)"
        using overwrite_overwrite [of c off "take n buf" "take k (drop n buf)"] True by (simp add: take_add)
      moreover have "file_content os (of_name f) = overwrite c off (take n buf)"
        using "1.prems"(6) by (simp add: file_content_def)
      moreover have "write_attempt_loop os1 fd buf (n + k) retries = (os', rc)"
        using "1.prems"(1) True w Inr k by (simp add: write_attempt_loop.simps [of os])
      ultimately show ?thesis
        using "1.IH"(3) [OF True w [symmetric] Inr k] "1.prems"(2,4) d True by (auto simp: fun_eq_iff)
    next
      case (Inl er)
      note d = sys_write_error [OF w [unfolded Inl]]
      show ?thesis
        using "1.IH"(1,2) [OF True w [symmetric] Inl] "1.prems" True w Inl d
        by (auto simp: write_attempt_loop.simps [of os] Let_def split: if_splits)
    qed
  qed
qed

lemma write_attempt_loop_calm:
  assumes "write_attempt_loop os fd buf n retries = (os', rc)"
    and "calm (os_script os)" and "map_of (os_fds os) fd = Some f" and "of_write f" and "n \<le> length buf"
  shows "0 \<le> rc \<and> calm (os_script os')"
  using assms
proof (induction os fd buf n retries arbitrary: f rule: write_attempt_loop.induct)
  case (1 os fd buf n retries)
  show ?case
  proof (cases "n < length buf")
    case False
    then show ?thesis using "1.prems" by (auto simp: write_attempt_loop.simps [of os])
  next
    case True
    obtain os1 r where w: "sys_write os fd (drop n buf) = (os1, r)" by fastforce
    obtain k where r: "r = Inr k" "0 < k" and calm1: "calm (os_script os1)"
      using sys_write_calm [OF w "1.prems"(2-4)] True by auto
    note d = sys_write_done [OF w [unfolded r] r(2) "1.prems"(3)]
    have "write_attempt_loop os1 fd buf (n + k) retries = (os', rc)"
      using "1.prems"(1) True w r by (simp add: write_attempt_loop.simps [of os])
    then show ?thesis
      using "1.IH"(3) [OF True w [symmetric] r] calm1 d "1.prems"(4) True by simp
  qed
qed

lemma take_extend:
  assumes "buf = take (length buf) d" and "ws = take (length ws) (take m (drop (length buf) d))"
  shows "buf @ ws = take (length (buf @ ws)) d" and "length ws \<le> m"
proof -
  show m: "length ws \<le> m" using arg_cong [OF assms(2), of length] by simp
  then have "ws = take (length ws) (drop (length buf) d)" using assms(2) by simp
  with assms(1) show "buf @ ws = take (length (buf @ ws)) d" by (simp add: take_add)
qed

lemma read_attempt_loop_spec:
  assumes "read_attempt_loop os fd sz buf retries = (os', rc, bs)" and "0 \<le> rc"
    and "map_of (os_fds os) fd = Some f" and "of_off f = off + length buf" and "length buf \<le> sz"
    and "buf = take (length buf) (drop off (file_content os (of_name f)))"
  shows "bs = take sz (drop off (file_content os (of_name f))) \<and> rc = int (length bs) \<and>
    os_files os' = os_files os \<and> os_junk os' = os_junk os \<and>
    map_of (os_fds os') = (map_of (os_fds os))(fd \<mapsto> f\<lparr>of_off := off + length bs\<rparr>)"
  using assms
proof (induction os fd sz buf retries arbitrary: f rule: read_attempt_loop_induct)
  case (1 os fd sz buf retries)
  let ?c = "file_content os (of_name f)"
  show ?case
  proof (cases "length buf < sz")
    case False
    then have "length buf = sz" using "1.prems"(5) by simp
    with False show ?thesis using "1.prems"
      by (auto simp: read_attempt_loop_step [of os] fun_upd_idem_iff)
  next
    case True
    obtain os1 r where w: "sys_read os fd (sz - length buf) = (os1, r)" by fastforce
    show ?thesis
    proof (cases r)
      case (Inr ws)
      note d = sys_read_done [OF w [unfolded Inr] "1.prems"(3)]
      have c: "file_content os1 = file_content os" using d(3) by (simp add: file_content_def fun_eq_iff)
      have avail: "drop (of_off f) ?c = drop (length buf) (drop off ?c)"
        by (simp add: "1.prems"(4) add.commute)
      have ws: "ws = take (length ws) (take (sz - length buf) (drop (length buf) (drop off ?c)))"
        using d(1) by (simp only: avail)
      show ?thesis
      proof (cases "ws = []")
        case False
        let ?f = "f\<lparr>of_off := of_off f + length ws\<rparr>"
        have nm: "of_name ?f = of_name f" by simp
        have ext: "buf @ ws = take (length (buf @ ws)) (drop off (file_content os1 (of_name ?f)))"
          unfolding c nm by (rule take_extend(1) [OF "1.prems"(6) ws])
        have len: "length (buf @ ws) \<le> sz" using take_extend(2) [OF "1.prems"(6) ws] True by simp
        have loop: "read_attempt_loop os1 fd sz (buf @ ws) retries = (os', rc, bs)"
          using "1.prems"(1) True w Inr False by (simp add: read_attempt_loop_step [of os])
        have "map_of (os_fds os1) fd = Some ?f" "of_off ?f = off + length (buf @ ws)"
          by (simp_all add: d(5) "1.prems"(4))
        from "1.IH"(3) [OF True w [unfolded Inr] False loop "1.prems"(2) this len ext]
        show ?thesis using d(3-5) c by (auto simp: fun_eq_iff)
      next
        case empty: True
        then have "length (drop off ?c) \<le> length buf" using d(2) True unfolding avail by simp
        then have "take sz (drop off ?c) = buf" using "1.prems"(5,6) by simp
        moreover have "os1 = os' \<and> int (length buf) = rc \<and> buf = bs"
          using "1.prems"(1) True w Inr empty by (auto simp: read_attempt_loop_step [of os])
        ultimately show ?thesis using "1.prems"(4) d(3-5) empty by auto
      qed
    next
      case (Inl er)
      note d = sys_read_error [OF w [unfolded Inl]]
      then show ?thesis
        using "1.IH"(1,2) [OF True w [unfolded Inl]] "1.prems" True w Inl
        by (auto simp: read_attempt_loop_step [of os] Let_def file_content_def split: if_splits)
    qed
  qed
qed

lemma read_attempt_loop_calm:
  assumes "read_attempt_loop os fd sz buf retries = (os', rc, bs)"
    and "calm (os_script os)" and "map_of (os_fds os) fd = Some f" and "of_read f"
  shows "0 \<le> rc \<and> calm (os_script os')"
  using assms
proof (induction os fd sz buf retries arbitrary: f rule: read_attempt_loop_induct)
  case (1 os fd sz buf retries)
  show ?case
  proof (cases "length buf < sz")
    case False
    then show ?thesis using "1.prems" by (auto simp: read_attempt_loop_step [of os])
  next
    case True
    obtain os1 r where w: "sys_read os fd (sz - length buf) = (os1, r)" by fastforce
    obtain ws where r: "r = Inr ws" and calm1: "calm (os_script os1)"
      using sys_read_calm [OF w "1.prems"(2-4)] by auto
    note d = sys_read_done [OF w [unfolded r] "1.prems"(3)]
    show ?thesis
    proof (cases "ws = []")
      case False
      then have "read_attempt_loop os1 fd sz (buf @ ws) retries = (os', rc, bs)"
        using "1.prems"(1) True w r by (simp add: read_attempt_loop_step [of os])
      then show ?thesis
        using "1.IH"(3) [OF True w [unfolded r] False] calm1 d(5) "1.prems"(4) by simp
    next
      case empty: True
      then show ?thesis using "1.prems"(1) True w r calm1 by (auto simp: read_attempt_loop_step [of os])
    qed
  qed
qed

lemma sys_read_files: "os_files (fst (sys_read os fd n)) = os_files os"
  by (auto simp: sys_defs Let_def split: prod.splits outcome.splits option.splits)

lemma read_attempt_loop_files: "os_files (fst (read_attempt_loop os fd sz buf retries)) = os_files os"
proof (induction os fd sz buf retries rule: read_attempt_loop_induct)
  case (1 os fd sz buf retries)
  then show ?case
    using sys_read_files [of os fd "sz - length buf"]
    by (subst read_attempt_loop_step) (auto simp: Let_def split: prod.splits sum.splits)
qed

text \<open>The two loops as their callers see them.\<close>

lemma kvtree_write_attempt_spec:
  assumes "kvtree_write_attempt os file fd buf = (os', rc)" and "map_of (os_fds os) fd = Some f"
    and "os_files os (of_name f) = Some c" and "of_off f \<le> length c"
  shows "0 \<le> rc \<Longrightarrow> rc = int (length buf) \<and>
      os_files os' = (os_files os)(of_name f \<mapsto> overwrite c (of_off f) buf) \<and>
      map_of (os_fds os') = (map_of (os_fds os))(fd \<mapsto> f\<lparr>of_off := of_off f + length buf\<rparr>) \<and>
      os_junk os' = os_junk os"
    and "calm (os_script os) \<Longrightarrow> of_write f \<Longrightarrow> 0 \<le> rc \<and> calm (os_script os')"
  using assms write_attempt_loop_spec [of os fd buf 0 10 os' rc f "of_off f" c]
    write_attempt_loop_calm [of os fd buf 0 10 os' rc f]
  by (simp_all add: kvtree_write_attempt_def overwrite_Nil)

lemma kvtree_read_attempt_spec:
  assumes "kvtree_read_attempt os file fd sz = (os', rc, bs)" and "map_of (os_fds os) fd = Some f"
  shows "0 \<le> rc \<Longrightarrow> bs = take sz (drop (of_off f) (file_content os (of_name f))) \<and> rc = int (length bs) \<and>
      os_files os' = os_files os \<and> os_junk os' = os_junk os \<and>
      map_of (os_fds os') = (map_of (os_fds os))(fd \<mapsto> f\<lparr>of_off := of_off f + length bs\<rparr>)"
    and "calm (os_script os) \<Longrightarrow> of_read f \<Longrightarrow> 0 \<le> rc \<and> calm (os_script os')"
  using assms read_attempt_loop_spec [of os fd sz "[]" 10 os' rc bs f "of_off f"]
    read_attempt_loop_calm [of os fd sz "[]" 10 os' rc bs f]
  by (simp_all add: kvtree_read_attempt_def)

section \<open>Opening and closing\<close>

lemma fd_fresh: "0 \<le> fd_fresh fds" "map_of fds (fd_fresh fds) = None"
proof -
  let ?free = "filter (\<lambda>i. i \<notin> fst ` set fds) (map int [0..<Suc (length fds)])"
  have "card (fst ` set fds) \<le> length fds"
    by (meson card_image_le card_length finite_set le_trans)
  then have "\<not> int ` {0..<Suc (length fds)} \<subseteq> fst ` set fds"
    using card_mono [of "fst ` set fds" "int ` {0..<Suc (length fds)}"] by (auto simp: card_image)
  then have "?free \<noteq> []" by (auto simp: filter_empty_conv simp del: upt_Suc)
  then have "fd_fresh fds \<in> set ?free" unfolding fd_fresh_def by (rule list.set_sel(1))
  then show "0 \<le> fd_fresh fds" "map_of fds (fd_fresh fds) = None"
    by (auto simp: map_of_eq_None_iff simp del: upt_Suc)
qed

text \<open>The descriptor of a file just opened.\<close>

definition opened :: "string \<Rightarrow> oflag set \<Rightarrow> open_file" where
  "opened file flags =
     \<lparr>of_name = file, of_off = 0, of_read = O_WRONLY \<notin> flags,
      of_write = (O_WRONLY \<in> flags \<or> O_RDWR \<in> flags), of_lock = LOCK_UN\<rparr>"

definition is_opened :: "os \<Rightarrow> string \<Rightarrow> oflag set \<Rightarrow> os \<Rightarrow> int \<Rightarrow> bool" where
  "is_opened os file flags os' fd \<longleftrightarrow>
     os_files os' = (os_files os)(file \<mapsto> if O_TRUNC \<in> flags then [] else file_content os file) \<and>
     map_of (os_fds os) fd = None \<and>
     map_of (os_fds os') = (map_of (os_fds os))(fd \<mapsto> opened file flags) \<and>
     os_junk os' = os_junk os"

definition same_files :: "os \<Rightarrow> os \<Rightarrow> bool" where
  "same_files os os' \<longleftrightarrow>
     os_files os' = os_files os \<and> map_of (os_fds os') = map_of (os_fds os) \<and> os_junk os' = os_junk os"

lemma same_files_refl [simp]: "same_files os os"
  by (simp add: same_files_def)

lemma sys_open_spec:
  assumes "sys_open os file flags mode = (os', fd)"
  shows "if 0 \<le> fd then is_opened os file flags os' fd else same_files os os'"
    and "calm (os_script os) \<Longrightarrow> calm (os_script os')"
    and "calm (os_script os) \<Longrightarrow> O_CREAT \<in> flags \<or> os_files os file \<noteq> None \<Longrightarrow> 0 \<le> fd"
  using assms fd_fresh [of "os_fds os"]
  by (auto simp: sys_defs Let_def is_opened_def opened_def same_files_def
      split: prod.splits outcome.splits if_splits)

lemma open_retry_spec:
  assumes "open_retry os file flags mode tries fd0 = (os', fd)" and "fd0 < 0"
  shows "if 0 \<le> fd then is_opened os file flags os' fd else same_files os os'"
  using assms
proof (induction os "file" flags mode tries fd0 rule: open_retry.induct)
  case (2 os fname flags mode tries fd0)
  obtain os1 fd1 where o: "sys_open os fname flags mode = (os1, fd1)" by fastforce
  then have next_try: "open_retry os1 fname flags mode tries fd1 = (os', fd)" using "2.prems" by simp
  show ?case
  proof (cases "fd1 < 0")
    case True
    then have same: "same_files os os1" using sys_open_spec(1) [OF o] by simp
    have "if 0 \<le> fd then is_opened os1 fname flags os' fd else same_files os1 os'"
      using "2.IH" [OF "2.prems"(2) o [symmetric] refl next_try True] by simp
    then show ?thesis using same by (auto simp: same_files_def is_opened_def file_content_def split: if_splits)
  next
    case False
    then have "open_retry os1 fname flags mode tries fd1 = (os1, fd1)" by (cases tries) simp_all
    with next_try False show ?thesis using sys_open_spec(1) [OF o] by simp
  qed
qed auto

lemma kvtree_open_spec:
  assumes "kvtree_open os file flags mode = (os', fd)"
  shows "if 0 \<le> fd then is_opened os file flags os' fd else same_files os os'"
    and "calm (os_script os) \<Longrightarrow> O_CREAT \<in> flags \<or> os_files os file \<noteq> None \<Longrightarrow>
      0 \<le> fd \<and> calm (os_script os')"
proof -
  let ?m = "if O_CREAT \<in> flags then mode else 0"
  obtain os1 fd1 where o: "sys_open os file flags ?m = (os1, fd1)" by fastforce
  note first = sys_open_spec [OF o]
  have eq: "(if fd1 < 0 then open_retry os1 file flags ?m KVTREE_OPEN_TRIES fd1 else (os1, fd1)) = (os', fd)"
    using assms o by (simp add: kvtree_open_def Let_def)
  show "if 0 \<le> fd then is_opened os file flags os' fd else same_files os os'"
  proof (cases "fd1 < 0")
    case True
    with eq have "if 0 \<le> fd then is_opened os1 file flags os' fd else same_files os1 os'"
      by (intro open_retry_spec) simp_all
    then show ?thesis using first(1) True
      by (auto simp: same_files_def is_opened_def file_content_def split: if_splits)
  next
    case False
    with eq first(1) show ?thesis by simp
  qed
  show "0 \<le> fd \<and> calm (os_script os')"
    if "calm (os_script os)" "O_CREAT \<in> flags \<or> os_files os file \<noteq> None"
    using first(2,3) that eq by (auto split: if_splits)
qed

lemma kvtree_close_spec:
  assumes "kvtree_close os file fd = (os', rc)"
  shows "os_files os' = os_files os" and "map_of (os_fds os') = (map_of (os_fds os))(fd := None)"
    and "os_junk os' = os_junk os"
    and "calm (os_script os) \<Longrightarrow> map_of (os_fds os) fd \<noteq> None \<Longrightarrow>
      rc = KVTREE_SUCCESS \<and> calm (os_script os')"
  using assms
  by (auto simp: kvtree_close_def sys_defs Let_def delete_conv' split: outcome.splits if_splits)

section \<open>Properties\<close>

text \<open>C26. Whatever interruptions, short transfers and errors the system calls report,
  \<open>kvtree_write_attempt\<close> either returns a negative value or has written every byte of the buffer at the
  offset of the descriptor and nothing else; without failures it always does.\<close>

theorem write_attempt_all_or_error:
  assumes "map_of (os_fds os) fd = Some f" and "of_write f"
    and "os_files os (of_name f) = Some c" and "of_off f \<le> length c"
  shows "\<exists>os' rc. kvtree_write_attempt os fname fd buf = (os', rc) \<and>
    (0 \<le> rc \<longrightarrow> rc = int (length buf) \<and>
      os_files os' = (os_files os)(of_name f \<mapsto> overwrite c (of_off f) buf) \<and>
      map_of (os_fds os') = (map_of (os_fds os))(fd \<mapsto> f\<lparr>of_off := of_off f + length buf\<rparr>)) \<and>
    (calm (os_script os) \<longrightarrow> 0 \<le> rc)"
proof -
  obtain os' rc where w: "kvtree_write_attempt os fname fd buf = (os', rc)" by fastforce
  show ?thesis using kvtree_write_attempt_spec [OF w assms(1,3,4)] assms(2) w by blast
qed

theorem write_attempt_all_or_error_witness:
  defines "f \<equiv> \<lparr>of_name = ''f'', of_off = 0, of_read = False, of_write = True, of_lock = LOCK_UN\<rparr>"
  defines "os \<equiv> \<lparr>os_files = [''f'' \<mapsto> []], os_fds = [(3, f)], os_script = [Error EINTR, Partial 0],
      os_umask = 0, os_junk = \<lambda>_. 0\<rparr>"
  shows "\<exists>os' rc. kvtree_write_attempt os ''f'' 3 [1, 2] = (os', rc) \<and>
    (0 \<le> rc \<longrightarrow> rc = int (length [1, 2 :: byte]) \<and>
      os_files os' = (os_files os)(of_name f \<mapsto> overwrite [] (of_off f) [1, 2]) \<and>
      map_of (os_fds os') = (map_of (os_fds os))(3 \<mapsto> f\<lparr>of_off := of_off f + length [1, 2 :: byte]\<rparr>)) \<and>
    (calm (os_script os) \<longrightarrow> 0 \<le> rc)"
  by (rule write_attempt_all_or_error) (simp_all add: f_def os_def)

text \<open>C27. In the same way \<open>kvtree_read_attempt\<close> either returns a negative value or the bytes of the file
  from the offset of the descriptor on, as many as were asked for or as the file holds, whatever the
  size: the \<open>int\<close> that takes the result of \<open>read\<close> does not overflow, because one call transfers at
  most \<open>MAX_RW_COUNT\<close> bytes.\<close>

theorem read_attempt_all_or_error:
  assumes "map_of (os_fds os) fd = Some f" and "of_read f"
  shows "\<exists>os' rc bs. kvtree_read_attempt os fname fd sz = (os', rc, bs) \<and>
    (0 \<le> rc \<longrightarrow> bs = take sz (drop (of_off f) (file_content os (of_name f))) \<and> rc = int (length bs) \<and>
      os_files os' = os_files os \<and>
      map_of (os_fds os') = (map_of (os_fds os))(fd \<mapsto> f\<lparr>of_off := of_off f + length bs\<rparr>)) \<and>
    (calm (os_script os) \<longrightarrow> 0 \<le> rc)"
proof -
  obtain os' rc bs where r: "kvtree_read_attempt os fname fd sz = (os', rc, bs)" using prod_cases3 by blast
  show ?thesis using kvtree_read_attempt_spec [OF r assms(1)] assms(2) r by blast
qed

theorem read_attempt_all_or_error_witness:
  defines "f \<equiv> \<lparr>of_name = ''f'', of_off = 1, of_read = True, of_write = False, of_lock = LOCK_UN\<rparr>"
  defines "os \<equiv> \<lparr>os_files = [''f'' \<mapsto> [1, 2, 3]], os_fds = [(3, f)], os_script = [Partial 0, Error EIO],
      os_umask = 0, os_junk = \<lambda>_. 0\<rparr>"
  shows "\<exists>os' rc bs. kvtree_read_attempt os ''f'' 3 5 = (os', rc, bs) \<and>
    (0 \<le> rc \<longrightarrow> bs = take 5 (drop (of_off f) (file_content os (of_name f))) \<and> rc = int (length bs) \<and>
      os_files os' = os_files os \<and>
      map_of (os_fds os') = (map_of (os_fds os))(3 \<mapsto> f\<lparr>of_off := of_off f + length bs\<rparr>)) \<and>
    (calm (os_script os) \<longrightarrow> 0 \<le> rc)"
  by (rule read_attempt_all_or_error) (simp_all add: f_def os_def)

text \<open>C40. When the file opens but the lock cannot be taken, \<open>kvtree_open_with_lock\<close> returns
  \<open>KVTREE_FAILURE\<close>, which is the non-negative descriptor 1, so that its callers go on with it.\<close>

theorem lock_failure_looks_open:
  assumes "kvtree_open os fname flags mode = (os1, fd)" and "0 \<le> fd"
    and "snd (kvtree_file_lock_read_write os1 fname fd wr) \<noteq> KVTREE_SUCCESS"
  shows "snd (kvtree_open_with_lock os fname flags mode wr) = 1"
  using assms
  by (auto simp: kvtree_open_with_lock_def kvtree_file_lock_read_write_def KVTREE_FAILURE_def Let_def
      split: prod.splits if_splits)

theorem lock_failure_looks_open_witness:
  defines "os \<equiv> \<lparr>os_files = Map.empty, os_fds = [], os_script = [Complete, Error EIO], os_umask = 0, os_junk = \<lambda>_. 0\<rparr>"
  shows "snd (kvtree_open_with_lock os ''f'' {O_RDWR, O_CREAT} 0 1) = 1"
proof (rule lock_failure_looks_open)
  let ?r = "kvtree_open os ''f'' {O_RDWR, O_CREAT} 0"
  show "?r = (fst ?r, snd ?r)" by simp
  show "0 \<le> snd ?r"
    by (simp add: os_def kvtree_open_def sys_open_def next_outcome_def fd_fresh_def Let_def)
  show "snd (kvtree_file_lock_read_write (fst ?r) ''f'' (snd ?r) 1) \<noteq> KVTREE_SUCCESS"
    by (simp add: os_def kvtree_open_def sys_open_def next_outcome_def fd_fresh_def Let_def
        kvtree_file_lock_read_write_def sys_flock_def set_fd_def)
qed

end
