(* ===== verification/KV_File.thy ===== *)
theory KV_File
  imports KV_Pack KV_OS KV_Cnum
begin

text \<open>
  Trees in files (\<open>src/kvtree.c\<close>): the header, the packed tree and the CRC32, written and read
  through the functions of \<open>KV_OS\<close>, with and without file locks. \<open>crc32\<close> is the function of zlib
  with the arguments the code passes: the running value, the buffer (\<open>None\<close> is \<open>Z_NULL\<close>) and the
  length. It is a parameter of every definition that calls it; what the code relies on is
  \<open>crc32_local\<close> and \<open>crc32_range\<close>. A result \<open>None\<close> means that the process does not get
  past the call: \<open>kvtree_abort\<close>, or an access outside an allocation.
\<close>

type_synonym crc = "u64 \<Rightarrow> byte list option \<Rightarrow> u32 \<Rightarrow> u64"

definition KVTREE_FILE_MAGIC :: u32 where "KVTREE_FILE_MAGIC = 0x951fc3f5"
definition KVTREE_FILE_TYPE_HASH :: u16 where "KVTREE_FILE_TYPE_HASH = 1"
definition KVTREE_FILE_VERSION_HASH_1 :: u16 where "KVTREE_FILE_VERSION_HASH_1 = 1"
definition KVTREE_FILE_HASH_HEADER_SIZE :: nat where "KVTREE_FILE_HASH_HEADER_SIZE = 20"
definition KVTREE_FILE_FLAGS_CRC32 :: u32 where "KVTREE_FILE_FLAGS_CRC32 = 0x1"

section \<open>Persisting a tree in a buffer\<close>

text \<open>A fresh allocation holds whatever was there. An allocation larger than \<open>PTRDIFF_MAX\<close> fails and
  \<open>kvtree_malloc\<close> aborts.\<close>

definition kvtree_malloc :: "(nat \<Rightarrow> byte) \<Rightarrow> nat \<Rightarrow> byte list option" where
  "kvtree_malloc junk n = (if n < 2 ^ 63 then Some (map junk [0..<n]) else None)"

definition kvtree_persist_size :: "kvtree option \<Rightarrow> nat" where
  "kvtree_persist_size hash =
     (let pack_size = kvtree_pack_size hash;
          sz = KVTREE_FILE_HASH_HEADER_SIZE + pack_size
      in sz + 4)"

definition kvtree_write_persist ::
  "endian \<Rightarrow> crc \<Rightarrow> (nat \<Rightarrow> byte) \<Rightarrow> bool \<Rightarrow> kvtree option \<Rightarrow> (int \<times> byte list option) option" where
  "kvtree_write_persist e crc32 junk ptr_buf hash =
     (if \<not> ptr_buf \<or> hash = None then Some (KVTREE_FAILURE, None)
      else
        (let bufsize = kvtree_persist_size hash; filesize = bufsize
         in do {
           buf \<leftarrow> kvtree_malloc junk bufsize;
           (_, b1, p1) \<leftarrow> kvtree_pack_uint32_t e (Some buf) filesize (Some 0) KVTREE_FILE_MAGIC;
           (_, b2, p2) \<leftarrow> kvtree_pack_uint16_t e b1 filesize p1 KVTREE_FILE_TYPE_HASH;
           (_, b3, p3) \<leftarrow> kvtree_pack_uint16_t e b2 filesize p2 KVTREE_FILE_VERSION_HASH_1;
           (_, b4, p4) \<leftarrow> kvtree_pack_uint64_t e b3 filesize p3 (word_of_nat filesize);
           (_, b5, p5) \<leftarrow> kvtree_pack_uint32_t e b4 filesize p4 (0 OR KVTREE_FILE_FLAGS_CRC32);
           buf5 \<leftarrow> b5;
           sz5 \<leftarrow> p5;
           (buf6, n) \<leftarrow> kvtree_pack e buf5 sz5 hash;
           let sz6 = sz5 + n;
           let crc = crc32 0 None 0;
           let crc = crc32 crc (Some buf6) (word_of_nat sz6);
           (_, b7, p7) \<leftarrow> kvtree_pack_uint32_t e (Some buf6) filesize (Some sz6) (ucast crc);
           buf7 \<leftarrow> b7;
           sz7 \<leftarrow> p7;
           if sz7 \<noteq> bufsize then None else Some (KVTREE_SUCCESS, Some buf7)
         }))"

section \<open>Writing and reading files\<close>

definition kvtree_write_fd ::
  "endian \<Rightarrow> crc \<Rightarrow> os \<Rightarrow> cstr \<Rightarrow> int \<Rightarrow> kvtree option \<Rightarrow> (os \<times> int) option" where
  "kvtree_write_fd e crc32 os file fd hash =
     (case file of
        None \<Rightarrow> Some (os, -1)
      | Some fname \<Rightarrow>
          if fd < 0 \<or> hash = None then Some (os, -1)
          else do {
            (_, b) \<leftarrow> kvtree_write_persist e crc32 (os_junk os) True hash;
            buf \<leftarrow> b;
            let (os1, nwrite) = kvtree_write_attempt os fname fd buf;
            if nwrite \<noteq> int (length buf) then Some (os1, -1) else Some (os1, nwrite)
          })"

definition kvtree_write_file ::
  "endian \<Rightarrow> crc \<Rightarrow> os \<Rightarrow> cstr \<Rightarrow> kvtree option \<Rightarrow> (os \<times> int) option" where
  "kvtree_write_file e crc32 os file hash =
     (case file of
        None \<Rightarrow> Some (os, KVTREE_FAILURE)
      | Some fname \<Rightarrow>
          if hash = None then Some (os, KVTREE_FAILURE)
          else
            (let (os1, mode_file) = kvtree_getmode os 1 1 0;
                 (os2, fd) = kvtree_open os1 fname {O_WRONLY, O_CREAT, O_TRUNC} mode_file
             in if fd < 0 then Some (os2, KVTREE_FAILURE)
                else do {
                  (os3, nwrite) \<leftarrow> kvtree_write_fd e crc32 os2 file fd hash;
                  let rc = (if nwrite < 0 then KVTREE_FAILURE else KVTREE_SUCCESS);
                  let (os4, close_rc) = kvtree_close os3 fname fd;
                  Some (os4, if close_rc \<noteq> KVTREE_SUCCESS then KVTREE_FAILURE else rc)
                }))"

text \<open>The part of \<open>kvtree_read_fd\<close> after the header has been read: the checks, the rest of the file,
  the CRC, and the merge.\<close>

definition kvtree_read_body ::
  "endian \<Rightarrow> crc \<Rightarrow> os \<Rightarrow> string \<Rightarrow> int \<Rightarrow> byte list \<Rightarrow> kvtree \<Rightarrow> (os \<times> int \<times> kvtree option) option" where
  "kvtree_read_body e crc32 os fname fd header hash =
     do {
       (_, p1, v_magic) \<leftarrow> kvtree_unpack_uint32_t e (Some header) (length header) (Some 0) (Some 0);
       (_, p2, v_type) \<leftarrow> kvtree_unpack_uint16_t e (Some header) (length header) p1 (Some 0);
       (_, p3, v_version) \<leftarrow> kvtree_unpack_uint16_t e (Some header) (length header) p2 (Some 0);
       if v_magic \<noteq> Some KVTREE_FILE_MAGIC \<or> v_type \<noteq> Some KVTREE_FILE_TYPE_HASH \<or>
          v_version \<noteq> Some KVTREE_FILE_VERSION_HASH_1
       then Some (os, -1, Some hash)
       else do {
         (_, p4, v_filesize) \<leftarrow> kvtree_unpack_uint64_t e (Some header) (length header) p3 (Some 0);
         (_, p5, v_flags) \<leftarrow> kvtree_unpack_uint32_t e (Some header) (length header) p4 (Some 0);
         filesize \<leftarrow> v_filesize;
         flags \<leftarrow> v_flags;
         sz \<leftarrow> p5;
         if unat filesize < KVTREE_FILE_HASH_HEADER_SIZE then Some (os, -1, Some hash)
         else do {
           buf0 \<leftarrow> kvtree_malloc (os_junk os) (unat filesize);
           buf1 \<leftarrow> mem_write buf0 0 (take sz header);
           let remainder = unat filesize - sz;
           let (os1, nread, bs) =
             (if remainder > 0 then kvtree_read_attempt os fname fd remainder else (os, int remainder, []));
           if nread < 0 \<or> nread \<noteq> int remainder then Some (os1, -1, Some hash)
           else do {
             buf \<leftarrow> mem_write buf1 sz bs;
             crc_ok \<leftarrow>
               (if flags AND KVTREE_FILE_FLAGS_CRC32 \<noteq> 0 then do {
                  let crc = crc32 0 None 0;
                  let crc = crc32 crc (Some buf) (ucast (ucast (ucast filesize :: u32) - 4 :: u64));
                  crc_file_network \<leftarrow> mem_read buf (unat filesize - 4) 4;
                  let crc_file = kvtree_ntoh32 e (host_word e crc_file_network);
                  Some (crc = ucast crc_file)
                } else Some True);
             if \<not> crc_ok then Some (os1, -1, Some hash)
             else do {
               (tmp_hash, _) \<leftarrow> kvtree_unpack e buf sz (Some kvtree_new);
               let (_, hash1) = kvtree_merge (Some hash) tmp_hash;
               Some (os1, sint filesize, hash1)
             }
           }
         }
       }
     }"

definition kvtree_read_fd ::
  "endian \<Rightarrow> crc \<Rightarrow> os \<Rightarrow> cstr \<Rightarrow> int \<Rightarrow> kvtree option \<Rightarrow> (os \<times> int \<times> kvtree option) option" where
  "kvtree_read_fd e crc32 os file fd hash =
     (case (file, hash) of
        (Some fname, Some t) \<Rightarrow>
          if fd < 0 then Some (os, -1, hash)
          else
            (let (os1, nread, header) = kvtree_read_attempt os fname fd KVTREE_FILE_HASH_HEADER_SIZE
             in if nread < 0 then Some (os1, -1, hash)
                else if nread = 0 then Some (os1, 0, hash)
                else if nread \<noteq> int KVTREE_FILE_HASH_HEADER_SIZE then Some (os1, -1, hash)
                else kvtree_read_body e crc32 os1 fname fd header t)
      | _ \<Rightarrow> Some (os, -1, hash))"

definition kvtree_read_file ::
  "endian \<Rightarrow> crc \<Rightarrow> os \<Rightarrow> cstr \<Rightarrow> kvtree option \<Rightarrow> (os \<times> int \<times> kvtree option) option" where
  "kvtree_read_file e crc32 os file hash =
     (case file of
        None \<Rightarrow> Some (os, KVTREE_FAILURE, hash)
      | Some fname \<Rightarrow>
          if hash = None then Some (os, KVTREE_FAILURE, hash)
          else
            (let (os1, readable) = kvtree_file_is_readable os fname
             in if readable \<noteq> KVTREE_SUCCESS then Some (os1, KVTREE_FAILURE, hash)
                else
                  (let (os2, fd) = kvtree_open os1 fname {O_RDONLY} 0
                   in if fd < 0 then Some (os2, KVTREE_FAILURE, hash)
                      else do {
                        (os3, nread, hash1) \<leftarrow> kvtree_read_fd e crc32 os2 file fd hash;
                        let rc = (if nread < 0 then KVTREE_FAILURE else KVTREE_SUCCESS);
                        let (os4, close_rc) = kvtree_close os3 fname fd;
                        Some (os4, if close_rc \<noteq> KVTREE_SUCCESS then KVTREE_FAILURE else rc, hash1)
                      })))"

section \<open>Access under a lock\<close>

definition kvtree_read_write_with_lock :: "os \<Rightarrow> cstr \<Rightarrow> kvtree option \<Rightarrow> int \<Rightarrow> os \<times> int" where
  "kvtree_read_write_with_lock os file hash wr =
     (case file of
        None \<Rightarrow> (os, -1)
      | Some fname \<Rightarrow>
          if hash = None then (os, -1)
          else
            (let (os1, mode_file) = kvtree_getmode os 1 1 0
             in kvtree_open_with_lock os1 fname {O_RDWR, O_CREAT} mode_file wr))"

text \<open>The result of \<open>kvtree_read_fd\<close> is stored in an \<open>int\<close>.\<close>

definition kvtree_read_with_lock ::
  "endian \<Rightarrow> crc \<Rightarrow> os \<Rightarrow> cstr \<Rightarrow> kvtree option \<Rightarrow> (os \<times> int \<times> kvtree option) option" where
  "kvtree_read_with_lock e crc32 os file hash =
     (let (os1, fd) = kvtree_read_write_with_lock os file hash 0; fname = (case file of None \<Rightarrow> [] | Some f \<Rightarrow> f)
      in if fd \<ge> 0 then do {
           (os2, n, hash1) \<leftarrow> kvtree_read_fd e crc32 os1 file fd hash;
           let rc = to_int32 n;
           if rc = -1 then Some (fst (kvtree_close_with_unlock os2 fname fd), KVTREE_FAILURE, hash1)
           else
             (let (os3, rc1) = kvtree_close_with_unlock os2 fname fd
              in Some (os3, if rc1 \<noteq> 0 then KVTREE_FAILURE else KVTREE_SUCCESS, hash1))
         }
         else Some (os1, KVTREE_FAILURE, hash))"

definition kvtree_write_with_lock ::
  "endian \<Rightarrow> crc \<Rightarrow> os \<Rightarrow> cstr \<Rightarrow> kvtree option \<Rightarrow> (os \<times> int) option" where
  "kvtree_write_with_lock e crc32 os file hash =
     (let (os1, fd) = kvtree_read_write_with_lock os file hash 1; fname = (case file of None \<Rightarrow> [] | Some f \<Rightarrow> f)
      in if fd \<ge> 0 then do {
           (os2, _) \<leftarrow> kvtree_write_fd e crc32 os1 file fd hash;
           Some (fst (kvtree_close_with_unlock os2 fname fd), KVTREE_SUCCESS)
         }
         else Some (os1, KVTREE_FAILURE))"

text \<open>The descriptor argument is a pointer: \<open>None\<close> is NULL, the result holds the value it points to
  afterwards.\<close>

definition kvtree_lock_open_read ::
  "endian \<Rightarrow> crc \<Rightarrow> os \<Rightarrow> cstr \<Rightarrow> int option \<Rightarrow> kvtree option \<Rightarrow> (os \<times> int \<times> int option \<times> kvtree option) option" where
  "kvtree_lock_open_read e crc32 os file fd hash =
     (case fd of
        None \<Rightarrow> Some (os, KVTREE_FAILURE, None, hash)
      | Some _ \<Rightarrow>
          (case file of
             None \<Rightarrow> Some (os, KVTREE_FAILURE, Some (-1), hash)
           | Some fname \<Rightarrow>
               if hash = None then Some (os, KVTREE_FAILURE, Some (-1), hash)
               else
                 (let (os1, mode_file) = kvtree_getmode os 1 1 0;
                      (os2, fd1) = kvtree_open_with_lock os1 fname {O_RDWR, O_CREAT} mode_file 1
                  in if fd1 \<ge> 0 then do {
                       (os3, _, hash1) \<leftarrow> kvtree_read_fd e crc32 os2 file fd1 hash;
                       Some (os3, KVTREE_SUCCESS, Some fd1, hash1)
                     }
                     else Some (os2, KVTREE_FAILURE, Some fd1, hash))))"

definition kvtree_write_close_unlock ::
  "endian \<Rightarrow> crc \<Rightarrow> os \<Rightarrow> cstr \<Rightarrow> int option \<Rightarrow> kvtree option \<Rightarrow> (os \<times> int \<times> int option) option" where
  "kvtree_write_close_unlock e crc32 os file fd hash =
     (case fd of
        None \<Rightarrow> Some (os, KVTREE_FAILURE, None)
      | Some d \<Rightarrow>
          if d < 0 then Some (os, KVTREE_FAILURE, fd)
          else
            (case file of
               None \<Rightarrow> Some (os, KVTREE_FAILURE, fd)
             | Some fname \<Rightarrow>
                 if hash = None then Some (os, KVTREE_FAILURE, fd)
                 else do {
                   let (os1, _) = sys_lseek os d 0 SEEK_SET;
                   (os2, nwrite) \<leftarrow> kvtree_write_fd e crc32 os1 file d hash;
                   let os3 = (if nwrite \<ge> 0 then fst (sys_ftruncate os2 d (nat nwrite)) else os2);
                   let (os4, _) = kvtree_close_with_unlock os3 fname d;
                   Some (os4, KVTREE_SUCCESS, Some (-1))
                 }))"

section \<open>The format of a file\<close>

definition file_header :: "nat \<Rightarrow> byte list" where
  "file_header filesize =
     be_bytes 4 KVTREE_FILE_MAGIC @ be_bytes 2 KVTREE_FILE_TYPE_HASH @ be_bytes 2 KVTREE_FILE_VERSION_HASH_1 @
     be_bytes 8 (word_of_nat filesize :: u64) @ be_bytes 4 KVTREE_FILE_FLAGS_CRC32"

definition file_data :: "kvtree \<Rightarrow> byte list" where
  "file_data t = file_header (kvtree_persist_size (Some t)) @ enc_hash (Some t)"

definition file_crc :: "crc \<Rightarrow> kvtree \<Rightarrow> u64" where
  "file_crc crc32 t = crc32 (crc32 0 None 0) (Some (file_data t)) (word_of_nat (length (file_data t)))"

definition file_image :: "crc \<Rightarrow> kvtree \<Rightarrow> byte list" where
  "file_image crc32 t = file_data t @ be_bytes 4 (ucast (file_crc crc32 t) :: u32)"

text \<open>What zlib documents of \<open>crc32\<close>: the value depends on the first \<open>len\<close> bytes of the buffer, and
  a CRC has 32 bits.\<close>

definition crc32_local :: "crc \<Rightarrow> bool" where
  "crc32_local crc32 \<longleftrightarrow>
     (\<forall>c len buf. unat len \<le> length buf \<longrightarrow> crc32 c (Some buf) len = crc32 c (Some (take (unat len) buf)) len)"

definition crc32_range :: "crc \<Rightarrow> bool" where
  "crc32_range crc32 \<longleftrightarrow> (\<forall>c len buf. unat (crc32 c buf len) < 2 ^ 32)"

lemmas file_consts = KVTREE_FILE_HASH_HEADER_SIZE_def

lemma length_file_header [simp]: "length (file_header n) = 20"
  by (simp add: file_header_def)

lemma length_file_image [simp]: "length (file_image crc32 t) = kvtree_persist_size (Some t)"
  by (simp add: file_image_def file_data_def kvtree_persist_size_def file_consts pack_size_enc(1))

lemma length_file_data: "length (file_data t) + 4 = kvtree_persist_size (Some t)"
  using length_file_image [of undefined t] by (simp add: file_image_def)

lemma crc32_prefix:
  assumes "crc32_local crc32" and "n = length bs"
  shows "crc32 c (Some (bs @ xs)) (word_of_nat n) = crc32 c (Some bs) (word_of_nat n)"
proof -
  let ?w = "word_of_nat n :: u32"
  have le: "unat ?w \<le> length bs"
    using assms(2) by (simp add: unsigned_of_nat take_bit_nat_less_eq_self)
  have take: "crc32 c (Some ys) ?w = crc32 c (Some (take (unat ?w) ys)) ?w" if "unat ?w \<le> length ys" for ys
    using assms(1) that unfolding crc32_local_def by blast
  have "take (unat ?w) (bs @ xs) = take (unat ?w) bs" using le by simp
  then show ?thesis using take [of "bs @ xs"] take [of bs] le by (simp only: length_append trans_le_add1)
qed

lemma kvtree_write_persist_eq:
  assumes "crc32_local crc32" and "kvtree_persist_size (Some t) < 2 ^ 63"
  shows "kvtree_write_persist e crc32 junk True (Some t) = Some (KVTREE_SUCCESS, Some (file_image crc32 t))"
proof -
  define N where "N = kvtree_persist_size (Some t)"
  define buf where "buf = map junk [0..<N]"
  define M where "M = length (enc_hash (Some t))"
  have NM: "20 + M + 4 = N" and N: "N < 2 ^ 63"
    using assms(2) by (simp_all add: N_def M_def kvtree_persist_size_def file_consts pack_size_enc(1))
  then have len: "length buf = N" "24 + M \<le> N" by (simp_all add: buf_def)
  have data: "file_header N @ enc_hash (Some t) = file_data t" "length (file_data t) = 20 + M"
    by (simp_all add: file_data_def N_def M_def)
  have hdr: "patch buf 0 (be_bytes 4 KVTREE_FILE_MAGIC @ be_bytes 2 KVTREE_FILE_TYPE_HASH @
      be_bytes 2 KVTREE_FILE_VERSION_HASH_1 @ be_bytes 8 (word_of_nat N :: u64) @
      be_bytes 4 KVTREE_FILE_FLAGS_CRC32) = patch buf 0 (file_header N)"
    by (simp add: file_header_def)
  have body: "kvtree_pack e (patch buf 0 (file_header N)) 20 (Some t) = Some (patch buf 0 (file_data t), M)"
    using len by (subst kvtree_pack_eq) (simp_all add: pack_size_enc(1) patch_patch data flip: M_def)
  have crc: "crc32 (crc32 0 None 0) (Some (patch buf 0 (file_data t))) (20 + word_of_nat M) = file_crc crc32 t"
    unfolding patch_def file_crc_def using crc32_prefix [OF assms(1), of "20 + M" "file_data t"]
    by (simp add: data(2))
  have fin: "patch buf 0 (file_data t @ be_bytes 4 (ucast (file_crc crc32 t) :: u32)) = file_image crc32 t"
    using NM len by (simp add: data(2) file_image_def patch_def)
  show ?thesis
    using N len NM
    by (simp add: kvtree_write_persist_def kvtree_malloc_def flip: N_def buf_def)
      (simp add: w32.pack_ok w16.pack_ok w64.pack_ok patch_patch hdr body crc fin Let_def data(2))
qed

lemma kvtree_write_fd_eq:
  assumes "crc32_local crc32" and "kvtree_persist_size (Some t) < 2 ^ 63" and "0 \<le> fd"
    and "kvtree_write_attempt os fname fd (file_image crc32 t) = (os1, n)"
  shows "kvtree_write_fd e crc32 os (Some fname) fd (Some t) =
    Some (os1, if n = int (kvtree_persist_size (Some t)) then n else -1)"
  using assms by (simp add: kvtree_write_fd_def kvtree_write_persist_eq)

text \<open>Success means that the file holds the image, for every script.\<close>

lemma overwrite_empty: "overwrite [] 0 bs = bs"
  by (simp add: overwrite_def)

lemma kvtree_getmode_os [simp]: "fst (kvtree_getmode os r w x) = os"
  by (simp add: kvtree_getmode_def Let_def)

lemma write_file_total:
  assumes "crc32_local crc32" and "kvtree_persist_size (Some t) < 2 ^ 63"
  shows "\<exists>os' rc. kvtree_write_file e crc32 os (Some fname) (Some t) = Some (os', rc) \<and>
    (rc = KVTREE_SUCCESS \<longrightarrow> os_files os' = (os_files os)(fname \<mapsto> file_image crc32 t)) \<and>
    (calm (os_script os) \<longrightarrow> rc = KVTREE_SUCCESS \<and> calm (os_script os'))"
proof -
  let ?flags = "{O_WRONLY, O_CREAT, O_TRUNC}"
  obtain mode where mode: "kvtree_getmode os 1 1 0 = (os, mode)"
    using kvtree_getmode_os [of os 1 1 0] by (metis prod.collapse)
  obtain os2 fd where op: "kvtree_open os fname ?flags mode = (os2, fd)" by fastforce
  note opened = kvtree_open_spec [OF op]
  show ?thesis
  proof (cases "fd < 0")
    case True
    then show ?thesis using opened(2) by (auto simp: kvtree_write_file_def mode op)
  next
    case False
    then have o: "is_opened os fname ?flags os2 fd" using opened(1) by simp
    obtain os3 n where w: "kvtree_write_attempt os2 fname fd (file_image crc32 t) = (os3, n)" by fastforce
    obtain os4 crc where c: "kvtree_close os3 fname fd = (os4, crc)" by fastforce
    note close = kvtree_close_spec [OF c]
    have fd2: "map_of (os_fds os2) fd = Some (KV_OS.opened fname ?flags)"
      and files2: "os_files os2 = (os_files os)(fname \<mapsto> [])"
      using o by (simp_all add: is_opened_def)
    have f: "of_name (KV_OS.opened fname ?flags) = fname" "of_off (KV_OS.opened fname ?flags) = 0"
      "of_write (KV_OS.opened fname ?flags)"
      by (simp_all add: KV_OS.opened_def)
    note written = kvtree_write_attempt_spec [OF w fd2, of "[]", unfolded f files2 overwrite_empty, simplified]
    have held: "os_files os4 = (os_files os)(fname \<mapsto> file_image crc32 t)"
      if "n = int (kvtree_persist_size (Some t))"
      using written(1) that close(1) by simp
    have live: "n = int (kvtree_persist_size (Some t)) \<and> crc = KVTREE_SUCCESS \<and> calm (os_script os4)"
      if "calm (os_script os)"
      using written that opened(2) close(4) f(3) by auto
    have eq: "kvtree_write_file e crc32 os (Some fname) (Some t) =
        Some (os4, if crc \<noteq> KVTREE_SUCCESS then KVTREE_FAILURE
          else if n = int (kvtree_persist_size (Some t)) then KVTREE_SUCCESS else KVTREE_FAILURE)"
      using False by (simp add: kvtree_write_file_def mode op kvtree_write_fd_eq [OF assms _ w] c Let_def)
    show ?thesis unfolding eq using held live by simp
  qed
qed

section \<open>Reading an image back\<close>

lemma header_fields:
  fixes N :: nat
  assumes "N < 2 ^ 63"
  shows "kvtree_unpack_uint32_t e (Some (file_header N)) 20 (Some 0) (Some 0) =
      Some (KVTREE_SUCCESS, Some 4, Some KVTREE_FILE_MAGIC)"
    and "kvtree_unpack_uint16_t e (Some (file_header N)) 20 (Some 4) (Some 0) =
      Some (KVTREE_SUCCESS, Some 6, Some KVTREE_FILE_TYPE_HASH)"
    and "kvtree_unpack_uint16_t e (Some (file_header N)) 20 (Some 6) (Some 0) =
      Some (KVTREE_SUCCESS, Some 8, Some KVTREE_FILE_VERSION_HASH_1)"
    and "kvtree_unpack_uint64_t e (Some (file_header N)) 20 (Some 8) (Some 0) =
      Some (KVTREE_SUCCESS, Some 16, Some (word_of_nat N))"
    and "kvtree_unpack_uint32_t e (Some (file_header N)) 20 (Some 16) (Some 0) =
      Some (KVTREE_SUCCESS, Some 20, Some KVTREE_FILE_FLAGS_CRC32)"
  by (subst w32.unpack_ok w16.unpack_ok w64.unpack_ok, (simp add: holds_at_def file_header_def)+)+

lemma filesize_words:
  assumes "N < 2 ^ 63"
  shows "unat (word_of_nat N :: u64) = N" and "sint (word_of_nat N :: u64) = int N"
proof -
  show unat: "unat (word_of_nat N :: u64) = N"
    using assms by (simp add: unsigned_of_nat take_bit_nat_eq_self)
  have "sint (word_of_nat N :: u64) = signed_take_bit 63 (int N)"
    by (simp add: sint_sbintrunc' signed_of_nat)
  also have "\<dots> = int N"
    using assms by (intro signed_take_bit_int_eq_self) auto
  finally show "sint (word_of_nat N :: u64) = int N" .
qed

lemma crc_length:
  "ucast (ucast (ucast (word_of_nat (M + 4) :: u64) :: u32) - 4 :: u64) = (word_of_nat M :: u32)"
proof -
  have "ucast (ucast y - 4 :: u64) = y - 4" for y :: u32
    by transfer (simp add: take_bit_eq_mod mod_mod_cancel mod_diff_left_eq)
  moreover have "ucast (word_of_nat (M + 4) :: u64) = (word_of_nat (M + 4) :: u32)"
    by transfer (simp add: take_bit_eq_mod mod_mod_cancel)
  ultimately show ?thesis by simp
qed

lemma image_header: "take 20 (file_image crc32 t) = file_header (kvtree_persist_size (Some t))"
  by (simp add: file_image_def file_data_def)

text \<open>Once the rest of the image is in the buffer, the checks pass and the tree is merged.\<close>

lemma image_crc_ok:
  assumes "crc32_local crc32" and "crc32_range crc32" and N: "N = kvtree_persist_size (Some t)"
  shows "crc32 (crc32 0 None 0) (Some (file_image crc32 t))
      (ucast (ucast (ucast (word_of_nat N :: u64) :: u32) - 4 :: u64)) = file_crc crc32 t"
    and "mem_read (file_image crc32 t) (N - 4) 4 = Some (be_bytes 4 (ucast (file_crc crc32 t) :: u32))"
    and "ucast (ucast (file_crc crc32 t) :: u32) = file_crc crc32 t"
proof -
  have M: "N = length (file_data t) + 4" using length_file_data [of t] N by simp
  show "crc32 (crc32 0 None 0) (Some (file_image crc32 t))
      (ucast (ucast (ucast (word_of_nat N :: u64) :: u32) - 4 :: u64)) = file_crc crc32 t"
    unfolding M crc_length unfolding file_image_def file_crc_def by (rule crc32_prefix [OF assms(1) refl])
  show "mem_read (file_image crc32 t) (N - 4) 4 = Some (be_bytes 4 (ucast (file_crc crc32 t) :: u32))"
    by (simp add: M file_image_def mem_read_def)
  have "unat (file_crc crc32 t) < 2 ^ 32" using assms(2) by (simp add: file_crc_def crc32_range_def)
  then show "ucast (ucast (file_crc crc32 t) :: u32) = file_crc crc32 t"
    by (simp add: word_unat_eq_iff unsigned_ucast_eq unsigned_take_bit_eq take_bit_nat_eq_self)
qed

lemma image_unpack:
  assumes "packable t"
  shows "kvtree_unpack e (file_image crc32 t) 20 (Some kvtree_new) = Some (Some (unpacked t), kvtree_pack_size (Some t))"
proof -
  have "holds_at (file_image crc32 t) 20 (enc_hash (Some t))"
    using holds_at_self [of "file_header (kvtree_persist_size (Some t))" "enc_hash (Some t)"]
    by (simp add: file_image_def file_data_def)
  from unpack_enc [OF assms this, of e kvtree_new]
  show ?thesis by (simp add: kvtree_new_def pack_size_enc(1))
qed

lemma kvtree_read_body_eq:
  assumes crc: "crc32_local crc32" "crc32_range crc32" and t: "packable t"
    and N: "N = kvtree_persist_size (Some t)" "N < 2 ^ 63"
    and f: "map_of (os_fds os) fd = Some f" "of_off f = 20"
    and content: "file_content os (of_name f) = file_image crc32 t @ rest"
    and rd: "kvtree_read_attempt os fname fd (N - 20) = (os1, n, bs)"
  shows "kvtree_read_body e crc32 os fname fd (file_header N) h =
    Some (if 0 \<le> n then (os1, int N, snd (kvtree_merge (Some h) (Some (unpacked t)))) else (os1, -1, Some h))"
proof -
  have N24: "24 \<le> N" using N(1) by (simp add: kvtree_persist_size_def file_consts)
  have len: "length (file_image crc32 t) = N" using N(1) by simp
  let ?junk = "map (os_junk os) [0..<N]"
  have words: "unat (word_of_nat N :: u64) = N" "sint (word_of_nat N :: u64) = int N"
    using filesize_words [OF N(2)] by blast+
  have hdr: "mem_write ?junk 0 (file_header N) = Some (patch ?junk 0 (file_header N))"
    using N24 by (simp add: mem_write_ok)
  have rest: "bs = drop 20 (file_image crc32 t) \<and> n = int (N - 20)" if "0 \<le> n"
    using kvtree_read_attempt_spec(1) [OF rd f(1) that] f(2) content len by simp
  have buf: "mem_write (patch ?junk 0 (file_header N)) 20 (drop 20 (file_image crc32 t)) = Some (file_image crc32 t)"
    using N24 len append_take_drop_id [of 20 "file_image crc32 t"] image_header [of crc32 t]
    by (simp add: mem_write_ok patch_patch patch_def N(1))
  note crcs = image_crc_ok [OF crc N(1)]
  show ?thesis
  proof (cases "0 \<le> n")
    case True
    then show ?thesis
      using rest [OF True] N(2) N24
      by (simp add: kvtree_read_body_def header_fields words kvtree_malloc_def hdr rd buf crcs image_unpack [OF t]
          file_consts KVTREE_FILE_FLAGS_CRC32_def Let_def split: prod.splits)
  next
    case False
    then show ?thesis
      using N(2) N24
      by (simp add: kvtree_read_body_def header_fields words kvtree_malloc_def hdr rd file_consts Let_def)
  qed
qed

lemma kvtree_read_fd_eq:
  assumes crc: "crc32_local crc32" "crc32_range crc32" and t: "packable t"
    and N: "kvtree_persist_size (Some t) < 2 ^ 63" and "0 \<le> fd"
    and f: "map_of (os_fds os) fd = Some f" "of_off f = 0"
    and content: "file_content os (of_name f) = file_image crc32 t @ rest"
  shows "\<exists>os' n h'. kvtree_read_fd e crc32 os (Some fname) fd (Some h) = Some (os', n, h') \<and>
    os_files os' = os_files os \<and>
    (n = int (kvtree_persist_size (Some t)) \<and> h' = snd (kvtree_merge (Some h) (Some (unpacked t))) \<and>
       map_of (os_fds os') = (map_of (os_fds os))(fd \<mapsto> f\<lparr>of_off := kvtree_persist_size (Some t)\<rparr>) \<or>
     n = -1 \<and> h' = Some h) \<and>
    (calm (os_script os) \<longrightarrow> of_read f \<longrightarrow> 0 \<le> n \<and> calm (os_script os'))"
proof -
  let ?N = "kvtree_persist_size (Some t)"
  obtain os1 n1 header where r1: "kvtree_read_attempt os fname fd 20 = (os1, n1, header)"
    using prod_cases3 by blast
  note s1 = kvtree_read_attempt_spec [OF r1 f(1)]
  have files1: "os_files os1 = os_files os"
    using read_attempt_loop_files [of os fd 20 "[]" 10] r1 by (simp add: kvtree_read_attempt_def)
  show ?thesis
  proof (cases "0 \<le> n1")
    case False
    then show ?thesis using s1(2) files1 assms(5) by (auto simp: kvtree_read_fd_def r1 file_consts)
  next
    case True
    have N24: "24 \<le> ?N" by (simp add: kvtree_persist_size_def file_consts)
    have hdr: "header = file_header ?N" "n1 = 20"
      using s1(1) [OF True] f(2) content N24 image_header [of crc32 t] by simp_all
    let ?f = "f\<lparr>of_off := 20\<rparr>"
    have f1: "map_of (os_fds os1) fd = Some ?f" "of_off ?f = 20"
      "file_content os1 (of_name ?f) = file_image crc32 t @ rest"
      using s1(1) [OF True] f(2) content hdr by (simp_all add: file_content_def)
    obtain os2 n2 bs where r2: "kvtree_read_attempt os1 fname fd (?N - 20) = (os2, n2, bs)"
      using prod_cases3 by blast
    note s2 = kvtree_read_attempt_spec [OF r2 f1(1)]
    have files2: "os_files os2 = os_files os"
      using read_attempt_loop_files [of os1 fd "?N - 20" "[]" 10] r2 files1 by (simp add: kvtree_read_attempt_def)
    have eq: "kvtree_read_fd e crc32 os (Some fname) fd (Some h) =
        Some (if 0 \<le> n2 then (os2, int ?N, snd (kvtree_merge (Some h) (Some (unpacked t)))) else (os2, -1, Some h))"
      using kvtree_read_body_eq [OF crc t refl N f1 r2] assms(5)
      by (simp add: kvtree_read_fd_def r1 file_consts hdr)
    have "map_of (os_fds os2) = (map_of (os_fds os))(fd \<mapsto> f\<lparr>of_off := ?N\<rparr>)" if "0 \<le> n2"
      using s1(1) [OF True] s2(1) [OF that] hdr f1(3) f(2) N24 by (auto simp: fun_eq_iff)
    then show ?thesis unfolding eq using s1(2) s2(2) files2 by auto
  qed
qed

section \<open>Other contents are refused\<close>

lemma read_body_refuses:
  assumes "length header = 20" and "take 8 header \<noteq> take 8 (file_header n)"
  shows "kvtree_read_body e crc32 os fname fd header h = Some (os, -1, Some h)"
proof -
  obtain v1 where v1: "be_bytes 4 v1 = take 4 (drop 0 header)"
    "kvtree_unpack_uint32_t e (Some header) (length header) (Some 0) (Some 0) = Some (KVTREE_SUCCESS, Some (0 + 4), Some v1)"
    using w32.unpack_any [of 0 header] assms(1) by auto
  obtain v2 where v2: "be_bytes 2 v2 = take 2 (drop 4 header)"
    "kvtree_unpack_uint16_t e (Some header) (length header) (Some 4) (Some 0) = Some (KVTREE_SUCCESS, Some (4 + 2), Some v2)"
    using w16.unpack_any [of 4 header] assms(1) by auto
  obtain v3 where v3: "be_bytes 2 v3 = take 2 (drop 6 header)"
    "kvtree_unpack_uint16_t e (Some header) (length header) (Some 6) (Some 0) = Some (KVTREE_SUCCESS, Some (6 + 2), Some v3)"
    using w16.unpack_any [of 6 header] assms(1) by auto
  have "take 8 header = take 4 header @ take 2 (drop 4 header) @ take 2 (drop 6 header)"
    using take_add [of 4 4 header] take_add [of 2 2 "drop 4 header"] by simp
  then have "\<not> (v1 = KVTREE_FILE_MAGIC \<and> v2 = KVTREE_FILE_TYPE_HASH \<and> v3 = KVTREE_FILE_VERSION_HASH_1)"
    using assms(2) v1(1) v2(1) v3(1) by (auto simp: file_header_def)
  then show ?thesis using v1(2) v2(2) v3(2) by (simp add: kvtree_read_body_def)
qed

lemma kvtree_read_fd_refuses:
  assumes "0 \<le> fd" and f: "map_of (os_fds os) fd = Some f" "of_off f = 0"
    and c: "file_content os (of_name f) = c" "take 8 c \<noteq> take 8 (file_header 0)"
  shows "\<exists>os' n. kvtree_read_fd e crc32 os (Some fname) fd (Some h) = Some (os', n, Some h) \<and>
    os_files os' = os_files os \<and> (n = -1 \<or> n = 0 \<and> c = []) \<and>
    (c = [] \<and> calm (os_script os) \<and> of_read f \<longrightarrow> n = 0)"
proof -
  obtain os1 n header where r: "kvtree_read_attempt os fname fd 20 = (os1, n, header)"
    using prod_cases3 by blast
  have files: "os_files os1 = os_files os"
    using read_attempt_loop_files [of os fd 20 "[]" 10] r by (simp add: kvtree_read_attempt_def)
  have header: "header = take 20 c" "n = int (length header)" if "0 \<le> n"
    using kvtree_read_attempt_spec(1) [OF r f(1) that] f(2) c(1) by simp_all
  consider (whole) "n = 20" | (empty) "n = 0" | (short) "n \<noteq> 20" "n \<noteq> 0" by blast
  then show ?thesis
  proof cases
    case whole
    then have "take 8 header \<noteq> take 8 (file_header 0)" "length header = 20" "c \<noteq> []"
      using header c(2) by auto
    then show ?thesis using whole files assms(1) read_body_refuses [of header]
      by (simp add: kvtree_read_fd_def r file_consts)
  next
    case empty
    then have "c = []" using header by (cases c) auto
    with empty files assms(1) show ?thesis by (simp add: kvtree_read_fd_def r file_consts)
  next
    case short
    then have "\<not> (c = [] \<and> calm (os_script os) \<and> of_read f)"
      using kvtree_read_attempt_spec(2) [OF r f(1)] header by auto
    with short files assms(1) show ?thesis by (auto simp: kvtree_read_fd_def r file_consts)
  qed
qed

section \<open>Reading a file by name\<close>

lemma is_readable_spec:
  assumes "kvtree_file_is_readable os fname = (os', rc)"
  shows "os_files os' = os_files os" and "os_fds os' = os_fds os"
    and "calm (os_script os) \<Longrightarrow> os_files os fname \<noteq> None \<Longrightarrow> rc = KVTREE_SUCCESS \<and> calm (os_script os')"
  using assms by (auto simp: kvtree_file_is_readable_def sys_defs Let_def split: outcome.splits if_splits)

lemma kvtree_read_file_spec:
  assumes crc: "crc32_local crc32" "crc32_range crc32" and t: "packable t"
    and N: "kvtree_persist_size (Some t) < 2 ^ 63"
    and content: "os_files os fname = Some (file_image crc32 t @ rest)"
  shows "\<exists>os' rc h'. kvtree_read_file e crc32 os (Some fname) (Some h) = Some (os', rc, h') \<and>
    os_files os' = os_files os \<and>
    (h' = snd (kvtree_merge (Some h) (Some (unpacked t))) \<or> rc = KVTREE_FAILURE \<and> h' = Some h) \<and>
    (calm (os_script os) \<longrightarrow> rc = KVTREE_SUCCESS \<and> calm (os_script os'))"
proof -
  obtain os1 rd where a: "kvtree_file_is_readable os fname = (os1, rd)" by fastforce
  note acc = is_readable_spec [OF a]
  obtain os2 fd where op: "kvtree_open os1 fname {O_RDONLY} 0 = (os2, fd)" by fastforce
  note opened = kvtree_open_spec [OF op]
  show ?thesis
  proof (cases "rd = KVTREE_SUCCESS \<and> 0 \<le> fd")
    case False
    have "os_files os2 = os_files os" if "fd < 0" using opened(1) acc(1) that by (simp add: same_files_def)
    then show ?thesis using False acc opened(2) content by (auto simp: kvtree_read_file_def a op)
  next
    case True
    then have o: "is_opened os1 fname {O_RDONLY} os2 fd" using opened(1) by simp
    let ?f = "KV_OS.opened fname {O_RDONLY}"
    have files2: "os_files os2 = os_files os"
      using o acc(1) content by (auto simp: is_opened_def file_content_def fun_upd_idem)
    have f: "map_of (os_fds os2) fd = Some ?f" "of_off ?f = 0" "of_read ?f"
      "file_content os2 (of_name ?f) = file_image crc32 t @ rest"
      using o content files2 by (simp_all add: is_opened_def KV_OS.opened_def file_content_def)
    obtain os3 n h3 where rd3: "kvtree_read_fd e crc32 os2 (Some fname) fd (Some h) = Some (os3, n, h3)"
      and files3: "os_files os3 = os_files os"
      and res: "n = int (kvtree_persist_size (Some t)) \<and> h3 = snd (kvtree_merge (Some h) (Some (unpacked t))) \<and>
          map_of (os_fds os3) = (map_of (os_fds os2))(fd \<mapsto> ?f\<lparr>of_off := kvtree_persist_size (Some t)\<rparr>) \<or>
          n = -1 \<and> h3 = Some h"
      and live: "calm (os_script os2) \<Longrightarrow> 0 \<le> n \<and> calm (os_script os3)"
      using kvtree_read_fd_eq [OF crc t N _ f(1,2,4), of e fname h] True f(3) files2 by auto
    obtain os4 cr where cl: "kvtree_close os3 fname fd = (os4, cr)" by fastforce
    have eq: "kvtree_read_file e crc32 os (Some fname) (Some h) =
        Some (os4, if cr \<noteq> KVTREE_SUCCESS then KVTREE_FAILURE
          else if n < 0 then KVTREE_FAILURE else KVTREE_SUCCESS, h3)"
      using True by (simp add: kvtree_read_file_def a op rd3 cl Let_def)
    show ?thesis
      unfolding eq using res live acc opened(2) kvtree_close_spec [OF cl] files3 content by auto
  qed
qed

lemma write_then_read:
  assumes "crc32_local crc32" and "crc32_range crc32"
    and "kvtree_wf t" and "kvtree_wf h" and "packable t" and "kvtree_persist_size (Some t) < 2 ^ 63"
    and "calm (os_script os)"
  shows "\<exists>os1 os2 u. kvtree_write_file e crc32 os (Some fname) (Some t) = Some (os1, KVTREE_SUCCESS) \<and>
    kvtree_read_file e' crc32 os1 (Some fname) (Some h) = Some (os2, KVTREE_SUCCESS, Some u) \<and>
    kvtree_wf u \<and> kvtree_paths u = kvtree_paths h \<union> kvtree_paths t"
proof -
  obtain os1 where w: "kvtree_write_file e crc32 os (Some fname) (Some t) = Some (os1, KVTREE_SUCCESS)"
    and c: "os_files os1 fname = Some (file_image crc32 t @ [])" "calm (os_script os1)"
    using write_file_total [OF assms(1,6), of e os fname] assms(7) by auto
  obtain os2 where r: "kvtree_read_file e' crc32 os1 (Some fname) (Some h) =
      Some (os2, KVTREE_SUCCESS, snd (kvtree_merge (Some h) (Some (unpacked t))))"
    using kvtree_read_file_spec [OF assms(1,2,5,6) c(1), of e' h] c(2) by auto
  obtain u where "kvtree_merge (Some h) (Some (unpacked t)) = (KVTREE_SUCCESS, Some u)" "kvtree_wf u"
    "kvtree_paths u = kvtree_paths h \<union> kvtree_paths t"
    using merge_eq [of h "Some (unpacked t)"] assms(3,4)
    by (auto simp: kvtree_wf_unpacked kvtree_paths_unpacked)
  with w r show ?thesis by auto
qed

section \<open>A CRC-32\<close>

text \<open>The CRC-32 of zlib's documentation, bit by bit: an instance of what is assumed of \<open>crc32\<close>.\<close>

definition crc_bit :: "u32 \<Rightarrow> u32" where
  "crc_bit c = (if bit c 0 then drop_bit 1 c XOR 0xEDB88320 else drop_bit 1 c)"

definition crc_byte :: "byte \<Rightarrow> u32 \<Rightarrow> u32" where
  "crc_byte b c = (crc_bit ^^ 8) (c XOR ucast b)"

definition crc_ieee :: crc where
  "crc_ieee c buf len =
     (case buf of None \<Rightarrow> 0 | Some bs \<Rightarrow> ucast (NOT (fold crc_byte (take (unat len) bs) (NOT (ucast c)))))"

lemma crc_ieee_ok: "crc32_local crc_ieee" "crc32_range crc_ieee"
proof -
  show "crc32_local crc_ieee" by (simp add: crc32_local_def crc_ieee_def)
  have "unat (ucast w :: u64) < 2 ^ 32" for w :: u32
  proof -
    have "unat w < 2 ^ LENGTH(32)" by (rule unsigned_less)
    then show ?thesis by (simp add: unsigned_ucast_eq take_bit_nat_eq_self)
  qed
  then show "crc32_range crc_ieee" by (auto simp: crc32_range_def crc_ieee_def split: option.splits)
qed

section \<open>Properties\<close>

text \<open>C9. When \<open>kvtree_write_file\<close> reports success, the file holds exactly the header, the packed tree and
  its CRC, and no other file has changed, whatever the system calls did on the way; and it does report
  success when none of them fails.\<close>

theorem write_file_holds_image:
  assumes "crc32_local crc32" and "kvtree_persist_size (Some t) < 2 ^ 63"
  shows "\<exists>os' rc. kvtree_write_file e crc32 os (Some fname) (Some t) = Some (os', rc) \<and>
    (rc = KVTREE_SUCCESS \<longrightarrow> os_files os' = (os_files os)(fname \<mapsto> file_image crc32 t)) \<and>
    (calm (os_script os) \<longrightarrow> rc = KVTREE_SUCCESS)"
  using write_file_total [OF assms] by blast

theorem write_file_holds_image_witness:
  "\<exists>os' rc. kvtree_write_file Little_endian crc_ieee
      \<lparr>os_files = Map.empty, os_fds = [], os_script = [], os_umask = 0, os_junk = \<lambda>_. 0\<rparr>
      (Some ''f'') (Some (Kvtree [Kvtree_elem (Some ''a'') None])) = Some (os', rc) \<and>
    (rc = KVTREE_SUCCESS \<longrightarrow> os_files os' =
      (os_files \<lparr>os_files = Map.empty, os_fds = [], os_script = [], os_umask = 0, os_junk = \<lambda>_. 0\<rparr>)
        (''f'' \<mapsto> file_image crc_ieee (Kvtree [Kvtree_elem (Some ''a'') None]))) \<and>
    (calm (os_script \<lparr>os_files = Map.empty, os_fds = [], os_script = [], os_umask = 0, os_junk = \<lambda>_. 0\<rparr>) \<longrightarrow>
      rc = KVTREE_SUCCESS)"
  by (rule write_file_holds_image) (simp_all add: crc_ieee_ok kvtree_persist_size_def file_consts)

text \<open>C7. A tree written to a file by one host and read by another, of whatever byte order, into a tree \<open>h\<close>
  is merged into \<open>h\<close>: both calls succeed when no system call fails, and the result is well formed with
  exactly the key paths of both trees.\<close>

theorem file_roundtrip:
  assumes "crc32_local crc32" and "crc32_range crc32"
    and "kvtree_wf t" and "kvtree_wf h" and "packable t" and "kvtree_persist_size (Some t) < 2 ^ 63"
    and "calm (os_script os)"
  shows "\<exists>os1 os2 u. kvtree_write_file e crc32 os (Some fname) (Some t) = Some (os1, KVTREE_SUCCESS) \<and>
    kvtree_read_file e' crc32 os1 (Some fname) (Some h) = Some (os2, KVTREE_SUCCESS, Some u) \<and>
    kvtree_wf u \<and> kvtree_paths u = kvtree_paths h \<union> kvtree_paths t"
  by (rule write_then_read [OF assms])

theorem file_roundtrip_witness:
  "\<exists>os1 os2 u. kvtree_write_file Little_endian crc_ieee
      \<lparr>os_files = Map.empty, os_fds = [], os_script = [Complete, Partial 3], os_umask = 0, os_junk = \<lambda>_. 0\<rparr>
      (Some ''f'') (Some (Kvtree [Kvtree_elem (Some ''a'') None])) = Some (os1, KVTREE_SUCCESS) \<and>
    kvtree_read_file Big_endian crc_ieee os1 (Some ''f'') (Some (Kvtree [Kvtree_elem (Some ''b'') None])) =
      Some (os2, KVTREE_SUCCESS, Some u) \<and>
    kvtree_wf u \<and> kvtree_paths u = kvtree_paths (Kvtree [Kvtree_elem (Some ''b'') None]) \<union>
      kvtree_paths (Kvtree [Kvtree_elem (Some ''a'') None])"
  by (rule file_roundtrip)
    (simp_all add: crc_ieee_ok kvtree_wf.simps kvtree_persist_size_def file_consts calm_def)

text \<open>C28. Under any system call behaviour, reading a file that starts with the image of a tree either merges
  that tree or reports failure and leaves the caller's tree as it was; the files are never changed.
  Bytes after the image are ignored.\<close>

theorem read_file_merges_or_keeps:
  assumes "crc32_local crc32" and "crc32_range crc32" and "packable t"
    and "kvtree_persist_size (Some t) < 2 ^ 63"
    and "os_files os fname = Some (file_image crc32 t @ rest)"
  shows "\<exists>os' rc h'. kvtree_read_file e crc32 os (Some fname) (Some h) = Some (os', rc, h') \<and>
    os_files os' = os_files os \<and>
    (h' = snd (kvtree_merge (Some h) (Some (unpacked t))) \<or> rc = KVTREE_FAILURE \<and> h' = Some h)"
  using kvtree_read_file_spec [OF assms] by blast

theorem read_file_merges_or_keeps_witness:
  "\<exists>os' rc h'. kvtree_read_file Big_endian crc_ieee
      \<lparr>os_files = [''f'' \<mapsto> file_image crc_ieee (Kvtree [Kvtree_elem (Some ''a'') None]) @ [1]], os_fds = [],
        os_script = [Error EIO], os_umask = 0, os_junk = \<lambda>_. 0\<rparr> (Some ''f'') (Some kvtree_new) = Some (os', rc, h') \<and>
    os_files os' = os_files
      \<lparr>os_files = [''f'' \<mapsto> file_image crc_ieee (Kvtree [Kvtree_elem (Some ''a'') None]) @ [1]], os_fds = [],
        os_script = [Error EIO], os_umask = 0, os_junk = \<lambda>_. 0\<rparr> \<and>
    (h' = snd (kvtree_merge (Some kvtree_new) (Some (unpacked (Kvtree [Kvtree_elem (Some ''a'') None])))) \<or>
      rc = KVTREE_FAILURE \<and> h' = Some kvtree_new)"
  by (rule read_file_merges_or_keeps [where rest = "[1]"])
    (simp_all add: crc_ieee_ok kvtree_persist_size_def file_consts)

text \<open>C10. A file that does not start with the magic number, the file type and the version is not read:
  \<open>kvtree_read_fd\<close> leaves the caller's tree and the files as they are and returns \<open>-1\<close>, whatever the
  system calls report. Only an empty file is told apart: the result is 0 when no call fails, and 0 is
  returned for no other file.\<close>

theorem read_fd_refuses:
  assumes "0 \<le> fd" and "map_of (os_fds os) fd = Some f" and "of_off f = 0"
    and "file_content os (of_name f) = c" and "take 8 c \<noteq> take 8 (file_header 0)"
  shows "\<exists>os' n. kvtree_read_fd e crc32 os (Some fname) fd (Some h) = Some (os', n, Some h) \<and>
    os_files os' = os_files os \<and> (n = -1 \<or> n = 0 \<and> c = []) \<and>
    (c = [] \<and> calm (os_script os) \<and> of_read f \<longrightarrow> n = 0)"
  using kvtree_read_fd_refuses [OF assms] .

theorem read_fd_refuses_witness:
  defines "f \<equiv> \<lparr>of_name = ''f'', of_off = 0, of_read = True, of_write = False, of_lock = LOCK_UN\<rparr>"
  defines "os \<equiv> \<lparr>os_files = [''f'' \<mapsto> replicate 30 1], os_fds = [(3, f)], os_script = [],
      os_umask = 0, os_junk = \<lambda>_. 0\<rparr>"
  shows "\<exists>os' n. kvtree_read_fd Little_endian crc_ieee os (Some ''f'') 3 (Some kvtree_new) =
      Some (os', n, Some kvtree_new) \<and>
    os_files os' = os_files os \<and> (n = -1 \<or> n = 0 \<and> replicate 30 (1 :: byte) = []) \<and>
    (replicate 30 (1 :: byte) = [] \<and> calm (os_script os) \<and> of_read f \<longrightarrow> n = 0)"
proof (rule read_fd_refuses)
  have "take 8 (replicate 30 (1 :: byte)) \<noteq> take 8 (file_header 0)" by code_simp
  then show "take 8 (replicate 30 1) \<noteq> take 8 (file_header 0)" .
qed (simp_all add: file_content_def f_def os_def)

end
