(* ===== verification/KV_MPI.thy ===== *)
theory KV_MPI
  imports KV_Proc KV_Keys KV_File
begin

text \<open>
  Sending trees between the ranks of a job (\<open>src/kvtree_mpi.c\<close>). A function of the code is a program of
  one rank; its arguments \<open>rank\<close> and \<open>ranks\<close> are what \<open>MPI_Comm_rank\<close> and \<open>MPI_Comm_size\<close> return, and
  \<open>e\<close> is the byte order of its host. \<open>MPI_PROC_NULL\<close> as a partner is \<open>None\<close>. The exchange is Bruck's
  algorithm: in round \<open>h\<close> every rank passes on, \<open>2 ^ h\<close> ranks to one side, what still has bit \<open>h\<close> of its
  distance to go.
\<close>

section \<open>Point-to-point and broadcast\<close>

definition mpi_send :: "nat \<Rightarrow> mpi_msg \<Rightarrow> unit proc" where
  "mpi_send rank m = Comm (Some (rank, m)) None (\<lambda>_. Ret ())"

definition mpi_recv :: "nat \<Rightarrow> mpi_msg option proc" where
  "mpi_recv rank = Comm None (Some rank) Ret"

text \<open>What a receive leaves in an \<open>int\<close> and in a buffer. A message of another type and one longer than
  the buffer are errors of the library.\<close>

definition got_int :: "mpi_msg option \<Rightarrow> int option" where
  "got_int m = (case m of Some (Mint i) \<Rightarrow> Some i | _ \<Rightarrow> None)"

definition got_bytes :: "byte list \<Rightarrow> mpi_msg option \<Rightarrow> byte list option" where
  "got_bytes buf m =
     (case m of
        Some (Mbytes bs) \<Rightarrow> if length bs \<le> length buf then Some (bs @ drop (length bs) buf) else None
      | _ \<Rightarrow> None)"

definition kvtree_send :: "endian \<Rightarrow> (nat \<Rightarrow> byte) \<Rightarrow> kvtree option \<Rightarrow> nat \<Rightarrow> int proc" where
  "kvtree_send e junk hash rank =
     (let pack_size = kvtree_pack_size hash
      in if INT_MAX < int pack_size then Abort
         else
           let sz = int pack_size
           in seq (mpi_send rank (Mint sz)) (\<lambda>_.
              if 0 < sz then
                seq (lift (kvtree_malloc junk (nat sz))) (\<lambda>buf.
                seq (lift (kvtree_pack e buf 0 hash)) (\<lambda>(buf, _).
                seq (mpi_send rank (Mbytes buf)) (\<lambda>_. Ret KVTREE_SUCCESS)))
              else Ret KVTREE_SUCCESS))"

definition kvtree_recv ::
  "endian \<Rightarrow> (nat \<Rightarrow> byte) \<Rightarrow> kvtree option \<Rightarrow> nat \<Rightarrow> (int \<times> kvtree option) proc" where
  "kvtree_recv e junk hash rank =
     (if hash = None then Ret (KVTREE_FAILURE, hash)
      else
        let hash = snd (kvtree_unset_all hash)
        in seq (mpi_recv rank) (\<lambda>m.
           seq (lift (got_int m)) (\<lambda>sz.
           if 0 < sz then
             seq (lift (kvtree_malloc junk (nat sz))) (\<lambda>buf.
             seq (mpi_recv rank) (\<lambda>m.
             seq (lift (got_bytes buf m)) (\<lambda>buf.
             seq (lift (kvtree_unpack e buf 0 hash)) (\<lambda>(hash, _). Ret (KVTREE_SUCCESS, hash)))))
           else Ret (KVTREE_SUCCESS, hash))))"

definition kvtree_sendrecv ::
  "endian \<Rightarrow> (nat \<Rightarrow> byte) \<Rightarrow> kvtree option \<Rightarrow> nat option \<Rightarrow> kvtree option \<Rightarrow> nat option \<Rightarrow>
     (int \<times> kvtree option) proc" where
  "kvtree_sendrecv e junk hash_send rank_send hash_recv rank_recv =
     (let have_outgoing = rank_send \<noteq> None;
          have_incoming = rank_recv \<noteq> None;
          hash_recv = (if have_incoming then snd (kvtree_unset_all hash_recv) else hash_recv);
          pack_size = kvtree_pack_size hash_send
      in if have_outgoing \<and> INT_MAX < int pack_size then Abort
         else
           let size_send = (if have_outgoing then int pack_size else 0)
           in seq (Comm (map_option (\<lambda>r. (r, Mint size_send)) rank_send) rank_recv Ret) (\<lambda>m.
              seq (if have_incoming then lift (got_int m) else Ret 0) (\<lambda>size_recv.
              seq (if 0 < size_recv then lift (kvtree_malloc junk (nat size_recv)) else Ret []) (\<lambda>buf_recv.
              seq (if 0 < size_send then
                      seq (lift (kvtree_malloc junk (nat size_send))) (\<lambda>buf.
                      seq (lift (kvtree_pack e buf 0 hash_send)) (\<lambda>(buf, _). Ret buf))
                    else Ret []) (\<lambda>buf_send.
              seq (Comm (if 0 < size_send then map_option (\<lambda>r. (r, Mbytes buf_send)) rank_send else None)
                         (if 0 < size_recv then rank_recv else None) Ret) (\<lambda>m.
              if 0 < size_recv then
                seq (lift (got_bytes buf_recv m)) (\<lambda>buf_recv.
                seq (lift (kvtree_unpack e buf_recv 0 hash_recv)) (\<lambda>(hash_recv, _).
                Ret (KVTREE_SUCCESS, hash_recv)))
              else Ret (KVTREE_SUCCESS, hash_recv)))))))"

text \<open>In a broadcast the other ranks pass the variable or buffer that receives the value.\<close>

definition kvtree_bcast ::
  "endian \<Rightarrow> (nat \<Rightarrow> byte) \<Rightarrow> nat \<Rightarrow> kvtree option \<Rightarrow> nat \<Rightarrow> (int \<times> kvtree option) proc" where
  "kvtree_bcast e junk rank hash root =
     (if rank = root then
        let pack_size = kvtree_pack_size hash
        in if INT_MAX < int pack_size then Abort
           else
             let sz = int pack_size
             in seq (Coll (Bcast root) (Mint sz) Ret) (\<lambda>_.
                if 0 < sz then
                  seq (lift (kvtree_malloc junk (nat sz))) (\<lambda>buf.
                  seq (lift (kvtree_pack e buf 0 hash)) (\<lambda>(buf, _).
                  seq (Coll (Bcast root) (Mbytes buf) Ret) (\<lambda>_. Ret (KVTREE_SUCCESS, hash))))
                else Ret (KVTREE_SUCCESS, hash))
      else
        let hash = snd (kvtree_unset_all hash)
        in seq (Coll (Bcast root) (Mint 0) Ret) (\<lambda>m.
           seq (lift (got_int (Some m))) (\<lambda>sz.
           if 0 < sz then
             seq (lift (kvtree_malloc junk (nat sz))) (\<lambda>buf.
             seq (Coll (Bcast root) (Mbytes buf) Ret) (\<lambda>m.
             seq (lift (got_bytes buf (Some m))) (\<lambda>buf.
             seq (lift (kvtree_unpack e buf 0 hash)) (\<lambda>(hash, _). Ret (KVTREE_SUCCESS, hash)))))
           else Ret (KVTREE_SUCCESS, hash))))"

section \<open>The exchange\<close>

datatype kvtree_exchange_enum = KVTREE_EXCHANGE_RIGHT | KVTREE_EXCHANGE_LEFT

definition kvtree_exchange_sendq ::
  "kvtree option \<Rightarrow> int \<Rightarrow> kvtree option \<Rightarrow> kv_error + int \<times> kvtree option" where
  "kvtree_exchange_sendq send_hash rank msg =
     (case kvtree_getf send_hash ''%d'' [ArgInt rank] of
        Inl err \<Rightarrow> Inl err
      | Inr ptr \<Rightarrow>
          (case kvtree_deref send_hash ptr of
             None \<Rightarrow>
               (let copy = snd (kvtree_merge (Some kvtree_new) msg)
                in case kvtree_setf send_hash copy ''%d'' [ArgInt rank] of
                     Inl err \<Rightarrow> Inl err
                   | Inr (send_hash, _) \<Rightarrow> Inr (KVTREE_SUCCESS, send_hash))
           | Some hash \<Rightarrow>
               Inr (KVTREE_SUCCESS, kvtree_write_ptr send_hash ptr (snd (kvtree_merge (Some hash) msg)))))"

text \<open>The first loop: the data for every destination goes under the keys \<open>D\<close>, destination, \<open>S\<close>, source.\<close>

fun exchange_setup :: "int \<Rightarrow> kvtree_elem list \<Rightarrow> kvtree option \<Rightarrow> kvtree option option" where
  "exchange_setup rank [] current = Some current"
| "exchange_setup rank (elem # es) current =
     (case kvtree_elem_key_int (Some elem) of
        None \<Rightarrow> None
      | Some dest_rank \<Rightarrow>
          (let data_hash = kvtree_elem_hash (Some elem);
               (current, dest_ptr) = kvtree_set_kv_int current (Some ''D'') dest_rank;
               (dest_hash, src_ptr) = kvtree_set_kv_int (kvtree_deref current dest_ptr) (Some ''S'') rank;
               merged = snd (kvtree_merge (kvtree_deref dest_hash src_ptr) data_hash);
               dest_hash = kvtree_write_ptr dest_hash src_ptr merged
           in exchange_setup rank es (kvtree_write_ptr current dest_ptr dest_hash)))"

text \<open>The loop of one round: every destination goes to the output, to the send or to the keep tree.\<close>

fun exchange_split ::
  "kvtree_exchange_enum \<Rightarrow> int \<Rightarrow> int \<Rightarrow> int \<Rightarrow> kvtree_elem list \<Rightarrow>
     kvtree option \<Rightarrow> kvtree option \<Rightarrow> kvtree option \<Rightarrow>
     (kvtree option \<times> kvtree option \<times> kvtree option) option" where
  "exchange_split direction rank ranks bt [] hash_out send keep = Some (hash_out, send, keep)"
| "exchange_split direction rank ranks bt (elem # es) hash_out send keep =
     (case kvtree_elem_key_int (Some elem) of
        None \<Rightarrow> None
      | Some dest_rank \<Rightarrow>
          (let elem_hash = kvtree_elem_hash (Some elem);
               dist = (if direction = KVTREE_EXCHANGE_RIGHT then to_int32 (dest_rank - rank)
                       else to_int32 (rank - dest_rank));
               dist = (if dist < 0 then dist + ranks else dist)
           in if dest_rank = rank then
                exchange_split direction rank ranks bt es
                  (snd (kvtree_merge hash_out (kvtree_get elem_hash (Some ''S'')))) send keep
              else if dist AND bt \<noteq> 0 then
                exchange_split direction rank ranks bt es hash_out (kvtree_merge_kv_int send ''D'' dest_rank elem_hash) keep
              else
                exchange_split direction rank ranks bt es hash_out send (kvtree_merge_kv_int keep ''D'' dest_rank elem_hash)))"

text \<open>The rounds. \<open>bit\<close> and \<open>step\<close> double in every round; an \<open>int\<close> that overflows has no defined
  behaviour and a step below one is never reached, both end the process here.\<close>

function exchange_loop ::
  "endian \<Rightarrow> (nat \<Rightarrow> byte) \<Rightarrow> int \<Rightarrow> int \<Rightarrow> kvtree_exchange_enum \<Rightarrow> int \<Rightarrow> int \<Rightarrow> int \<Rightarrow> int \<Rightarrow>
     kvtree option \<Rightarrow> kvtree option \<Rightarrow> (kvtree option \<times> kvtree option) proc" where
  "exchange_loop e junk rank ranks direction hops bt step hop_count current hash_out =
     (if \<not> (step < ranks \<and> (hops < 0 \<or> hop_count < hops)) then Ret (current, hash_out)
      else if step < 1 then Abort
      else
        let left = rank - step;
            left = (if left < 0 then left + ranks else left);
            right = rank + step;
            right = (if ranks \<le> right then right - ranks else right);
            (dst, src) = (if direction = KVTREE_EXCHANGE_RIGHT then (right, left) else (left, right));
            dest_hash = kvtree_get current (Some ''D'')
        in case exchange_split direction rank ranks bt (hash_elems dest_hash) hash_out
                  (Some kvtree_new) (Some kvtree_new) of
             None \<Rightarrow> Abort
           | Some (hash_out, send, keep) \<Rightarrow>
               seq (kvtree_sendrecv e junk send (Some (nat dst)) (Some kvtree_new) (Some (nat src))) (\<lambda>(_, recv).
               let current = snd (kvtree_merge keep recv)
               in if INT_MAX < step * 2 then Abort
                  else exchange_loop e junk rank ranks direction hops (bt * 2) (step * 2) (hop_count + 1)
                         current hash_out))"
  by pat_completeness auto

termination
  by (relation "measure (\<lambda>(e, junk, rank, ranks, direction, hops, bt, step, hop_count, current, hash_out).
        nat (ranks - step))") auto

declare exchange_loop.simps [simp del]

definition kvtree_exchange_direction_hops ::
  "endian \<Rightarrow> (nat \<Rightarrow> byte) \<Rightarrow> nat \<Rightarrow> nat \<Rightarrow> kvtree option \<Rightarrow> kvtree option \<Rightarrow> kvtree_exchange_enum \<Rightarrow> int \<Rightarrow>
     (int \<times> kvtree option) proc" where
  "kvtree_exchange_direction_hops e junk rank ranks hash_in hash_out direction hops =
     seq (lift (exchange_setup (int rank) (hash_elems hash_in) (Some kvtree_new))) (\<lambda>current.
     seq (exchange_loop e junk (int rank) (int ranks) direction hops 1 1 0 current hash_out)
       (\<lambda>(current, hash_out).
     let dest_hash = kvtree_get_kv_int current (Some ''D'') (int rank);
         elem_hash = kvtree_get dest_hash (Some ''S'')
     in Ret (KVTREE_SUCCESS, snd (kvtree_merge hash_out elem_hash))))"

text \<open>Counting the hops to the left and to the right, and the last round either of them needs.\<close>

function count_hops ::
  "int \<Rightarrow> int \<Rightarrow> int \<Rightarrow> int \<Rightarrow> int \<Rightarrow> int \<times> int \<times> int \<times> int \<Rightarrow> (int \<times> int \<times> int \<times> int) option" where
  "count_hops dist_left dist_right ranks dist step (hops_left, hops_right, steps_left, steps_right) =
     (if \<not> dist < ranks then Some (hops_left, hops_right, steps_left, steps_right)
      else if dist < 1 then None
      else
        let (hops_left, steps_left) =
              (if dist_left AND dist \<noteq> 0 then (hops_left + 1, step) else (hops_left, steps_left));
            (hops_right, steps_right) =
              (if dist_right AND dist \<noteq> 0 then (hops_right + 1, step) else (hops_right, steps_right))
        in if INT_MAX < dist * 2 then None
           else count_hops dist_left dist_right ranks (dist * 2) (step + 1)
                  (hops_left, hops_right, steps_left, steps_right))"
  by pat_completeness auto

termination
  by (relation "measure (\<lambda>(dist_left, dist_right, ranks, dist, step, acc). nat (ranks - dist))") auto

declare count_hops.simps [simp del]

text \<open>The loop over the destinations: the state is the left and right trees and the two maxima.\<close>

fun exchange_assign ::
  "int \<Rightarrow> int \<Rightarrow> kvtree_elem list \<Rightarrow> kvtree option \<times> kvtree option \<times> int \<times> int \<Rightarrow>
     (kvtree option \<times> kvtree option \<times> int \<times> int) option" where
  "exchange_assign rank ranks [] acc = Some acc"
| "exchange_assign rank ranks (elem # es) (left, right, max_left, max_right) =
     (case kvtree_elem_key_int (Some elem) of
        None \<Rightarrow> None
      | Some dest \<Rightarrow>
          (let elem_hash = kvtree_elem_hash (Some elem);
               dist_left = to_int32 (rank - dest);
               dist_left = (if dist_left < 0 then dist_left + ranks else dist_left);
               dist_right = to_int32 (dest - rank);
               dist_right = (if dist_right < 0 then dist_right + ranks else dist_right);
               tmp = snd (kvtree_merge (Some kvtree_new) elem_hash)
           in case count_hops dist_left dist_right ranks 1 1 (0, 0, 0, 0) of
                None \<Rightarrow> None
              | Some (hops_left, hops_right, steps_left, steps_right) \<Rightarrow>
                  if hops_left < hops_right then
                    (case kvtree_setf left tmp ''%d'' [ArgInt dest] of
                       Inl _ \<Rightarrow> None
                     | Inr (left, _) \<Rightarrow>
                         exchange_assign rank ranks es
                           (left, right, if max_left < steps_left then steps_left else max_left, max_right))
                  else
                    (case kvtree_setf right tmp ''%d'' [ArgInt dest] of
                       Inl _ \<Rightarrow> None
                     | Inr (right, _) \<Rightarrow>
                         exchange_assign rank ranks es
                           (left, right, max_left, if max_right < steps_right then steps_right else max_right))))"

definition kvtree_exchange ::
  "endian \<Rightarrow> (nat \<Rightarrow> byte) \<Rightarrow> nat \<Rightarrow> nat \<Rightarrow> kvtree option \<Rightarrow> kvtree option \<Rightarrow> (int \<times> kvtree option) proc" where
  "kvtree_exchange e junk rank ranks send recv =
     seq (lift (exchange_assign (int rank) (int ranks) (hash_elems send)
                   (Some kvtree_new, Some kvtree_new, 0, 0))) (\<lambda>(left, right, max_left, max_right).
     seq (Coll Allreduce_max (Mints [max_left, max_right]) Ret) (\<lambda>all.
     case all of
       Mints [all_left, all_right] \<Rightarrow>
         seq (kvtree_exchange_direction_hops e junk rank ranks left recv KVTREE_EXCHANGE_LEFT all_left) (\<lambda>(rc, recv).
         seq (kvtree_exchange_direction_hops e junk rank ranks right recv KVTREE_EXCHANGE_RIGHT all_right)
           (\<lambda>(right_rc, recv).
         Ret (if rc = KVTREE_SUCCESS then right_rc else rc, recv)))
     | _ \<Rightarrow> Abort))"

definition kvtree_exchange_direction ::
  "endian \<Rightarrow> (nat \<Rightarrow> byte) \<Rightarrow> nat \<Rightarrow> nat \<Rightarrow> kvtree option \<Rightarrow> kvtree option \<Rightarrow> kvtree_exchange_enum \<Rightarrow>
     (int \<times> kvtree option) proc" where
  "kvtree_exchange_direction e junk rank ranks send recv dir =
     kvtree_exchange_direction_hops e junk rank ranks send recv dir (- 1)"

section \<open>Transferring a tree\<close>

lemma pack_size_pos [simp]: "0 < kvtree_pack_size hash"
  by (cases hash rule: enc_hash.cases) (simp_all add: foldl_add)

lemma malloc_small:
  "int n \<le> INT_MAX \<Longrightarrow> kvtree_malloc junk n = Some (map junk [0..<n])"
  by (simp add: kvtree_malloc_def INT_MAX_def)

lemma pack_fresh:
  "kvtree_pack e (map junk [0..<kvtree_pack_size hash]) 0 hash = Some (enc_hash hash, kvtree_pack_size hash)"
  by (simp add: kvtree_pack_eq patch_def pack_size_enc(1))

lemma got_bytes_full: "length bs = length buf \<Longrightarrow> got_bytes buf (Some (Mbytes bs)) = Some bs"
  by (simp add: got_bytes_def)

lemma unpack_packed:
  assumes "kvtree_wf t" and "int (kvtree_pack_size (Some t)) \<le> INT_MAX"
  shows "kvtree_unpack e (enc_hash (Some t)) 0 (Some kvtree_new) = Some (Some (unpacked t), kvtree_pack_size (Some t))"
proof -
  have "packable t" using assms by (intro wf_packable) (simp_all add: INT_MAX_def)
  moreover have "holds_at (enc_hash (Some t)) 0 (enc_hash (Some t))" by (simp add: holds_at_def)
  ultimately show ?thesis by (simp add: unpack_enc kvtree_new_def pack_size_enc(1))
qed

text \<open>Every rank sends a tree to one partner and receives one from another.\<close>

lemma matched_perm:
  assumes "\<And>i. i < n \<Longrightarrow> dst i < n \<and> src i < n \<and> src (dst i) = i \<and> dst (src i) = i"
  shows "matched {..<n} (\<lambda>i. Some (dst i, m i)) (\<lambda>i. Some (src i))"
  using assms by (auto simp: matched_def)

lemma does_perm:
  assumes "\<And>i. i < n \<Longrightarrow> dst i < n \<and> src i < n \<and> src (dst i) = i \<and> dst (src i) = i"
    and "does n eager red (\<lambda>i. k i (Some (m (src i)))) r"
  shows "does n eager red (\<lambda>i. Comm (Some (dst i, m i)) (Some (src i)) (k i)) r"
proof (rule does_comm)
  show "matched {..<n} (\<lambda>i. Some (dst i, m i)) (\<lambda>i. Some (src i))" by (rule matched_perm [OF assms(1)])
  show "does n eager red (\<lambda>i. k i (incoming (\<lambda>i. Some (dst i, m i)) (\<lambda>i. Some (src i)) i)) r"
    using assms(2) by (simp add: incoming_def)
qed

lemma does_sendrecv:
  assumes perm: "\<And>i. i < n \<Longrightarrow> dst i < n \<and> src i < n \<and> src (dst i) = i \<and> dst (src i) = i"
    and s: "\<And>i. i < n \<Longrightarrow> kvtree_wf (s i) \<and> int (kvtree_pack_size (Some (s i))) \<le> INT_MAX"
  shows "does n eager red
    (\<lambda>i. kvtree_sendrecv (e i) (junk i) (Some (s i)) (Some (dst i)) (Some (u i)) (Some (src i)))
    (\<lambda>i. (KVTREE_SUCCESS, Some (unpacked (s (src i)))))"
proof -
  let ?sz = "\<lambda>i. kvtree_pack_size (Some (s i))"
  let ?last = "\<lambda>i m. seq (lift (got_bytes (map (junk i) [0..<?sz (src i)]) m)) (\<lambda>buf.
      seq (lift (kvtree_unpack (e i) buf 0 (Some kvtree_new))) (\<lambda>(hash, _). Ret (KVTREE_SUCCESS, hash)))"
  let ?first = "\<lambda>i m. seq (lift (got_int m)) (\<lambda>size_recv.
      seq (if 0 < size_recv then lift (kvtree_malloc (junk i) (nat size_recv)) else Ret []) (\<lambda>buf_recv.
      Comm (Some (dst i, Mbytes (enc_hash (Some (s i))))) (if 0 < size_recv then Some (src i) else None) (\<lambda>m.
        if 0 < size_recv then
                seq (lift (got_bytes buf_recv m)) (\<lambda>buf_recv.
                seq (lift (kvtree_unpack (e i) buf_recv 0 (Some kvtree_new))) (\<lambda>(hash_recv, _).
                Ret (KVTREE_SUCCESS, hash_recv)))
              else Ret (KVTREE_SUCCESS, Some kvtree_new))))"
  have prog: "kvtree_sendrecv (e i) (junk i) (Some (s i)) (Some (dst i)) (Some (u i)) (Some (src i)) =
      Comm (Some (dst i, Mint (int (?sz i)))) (Some (src i)) (?first i)" if "i < n" for i
    using s [OF that] by (simp add: kvtree_sendrecv_def malloc_small pack_fresh kvtree_unset_all_eq Let_def not_less cong: if_cong)
  have mid: "?first i (Some (Mint (int (?sz (src i))))) =
      Comm (Some (dst i, Mbytes (enc_hash (Some (s i))))) (Some (src i)) (?last i)" if "i < n" for i
    using s [of "src i"] perm [OF that] by (simp add: got_int_def malloc_small)
  have end_: "?last i (Some (Mbytes (enc_hash (Some (s (src i)))))) = Ret (KVTREE_SUCCESS, Some (unpacked (s (src i))))"
    if "i < n" for i
    using s [of "src i"] perm [OF that] by (simp add: got_bytes_full unpack_packed pack_size_enc(1) [symmetric])
  have "does n eager red (\<lambda>i. ?last i (Some (Mbytes (enc_hash (Some (s (src i)))))))
    (\<lambda>i. (KVTREE_SUCCESS, Some (unpacked (s (src i)))))"
    by (rule does_Ret) (rule end_)
  then have "does n eager red (\<lambda>i. Comm (Some (dst i, Mbytes (enc_hash (Some (s i))))) (Some (src i)) (?last i))
    (\<lambda>i. (KVTREE_SUCCESS, Some (unpacked (s (src i)))))"
    by (rule does_perm [where k = ?last and dst = dst and src = src and m = "\<lambda>i. Mbytes (enc_hash (Some (s i)))", rotated]) (rule perm)
  then have "does n eager red (\<lambda>i. ?first i (Some (Mint (int (?sz (src i))))))
    (\<lambda>i. (KVTREE_SUCCESS, Some (unpacked (s (src i)))))"
    by (subst does_cong [OF mid])
  then have "does n eager red (\<lambda>i. Comm (Some (dst i, Mint (int (?sz i)))) (Some (src i)) (?first i))
    (\<lambda>i. (KVTREE_SUCCESS, Some (unpacked (s (src i)))))"
    by (rule does_perm [where k = ?first and dst = dst and src = src and m = "\<lambda>i. Mint (int (?sz i))", rotated]) (rule perm)
  then show ?thesis by (subst does_cong [OF prog])
qed

section \<open>Send and receive\<close>

text \<open>Only the ranks of \<open>A\<close> communicate.\<close>

lemma does_comm_among:
  assumes "matched A s q" and "A \<subseteq> {..<n}" and "does n eager red (\<lambda>i. if i \<in> A then k i (incoming s q i) else P i) r"
  shows "does n eager red (\<lambda>i. if i \<in> A then Comm (s i) (q i) (k i) else P i) r"
  using run_trans [OF run_comm [OF assms(1,2), of eager red k P]] assms(3) by (simp add: does_def)

lemma does_pair:
  assumes "p \<noteq> q" and "p < n" and "q < n"
    and "does n eager red (\<lambda>i. if i = p then ks None else if i = q then kr (Some m) else P i) r"
  shows "does n eager red (\<lambda>i. if i = p then Comm (Some (q, m)) None ks else if i = q then Comm None (Some p) kr else P i) r"
proof -
  let ?A = "{p, q}"
  let ?s = "\<lambda>i. if i = p then Some (q, m) else None" and ?r = "\<lambda>i. if i = q then Some p else None"
  let ?k = "\<lambda>i. if i = p then ks else kr"
  have *: "(\<lambda>i. if i = p then Comm (Some (q, m)) None ks else if i = q then Comm None (Some p) kr else P i) =
      (\<lambda>i. if i \<in> ?A then Comm (?s i) (?r i) (?k i) else P i)" using assms(1) by auto
  have **: "(\<lambda>i. if i \<in> ?A then ?k i (incoming ?s ?r i) else P i) =
      (\<lambda>i. if i = p then ks None else if i = q then kr (Some m) else P i)"
    using assms(1) by (auto simp: incoming_def)
  have "matched ?A ?s ?r" using assms(1) by (auto simp: matched_def)
  moreover have "?A \<subseteq> {..<n}" using assms(2,3) by simp
  ultimately have "does n eager red (\<lambda>i. if i \<in> ?A then Comm (?s i) (?r i) (?k i) else P i) r"
    by (rule does_comm_among) (use assms(4) ** in simp)
  then show ?thesis by (simp only: *)
qed

lemma does_send_recv:
  assumes pq: "p \<noteq> q" "p < n" "q < n" and t: "kvtree_wf t" "int (kvtree_pack_size (Some t)) \<le> INT_MAX"
  shows "does n eager red
    (\<lambda>i. if i = p then seq (kvtree_send (e p) (junk p) (Some t) q) (\<lambda>rc. Ret (rc, None))
         else if i = q then kvtree_recv (e q) (junk q) (Some u) p else Ret (KVTREE_SUCCESS, None))
    (\<lambda>i. (KVTREE_SUCCESS, if i = q then Some (unpacked t) else None))"
proof -
  let ?sz = "kvtree_pack_size (Some t)" and ?bs = "enc_hash (Some t)"
  let ?s2 = "\<lambda>_ :: mpi_msg option. Ret (KVTREE_SUCCESS, None :: kvtree option)"
  let ?s1 = "\<lambda>_ :: mpi_msg option. Comm (Some (q, Mbytes ?bs)) None ?s2"
  let ?r2 = "\<lambda>buf m. seq (lift (got_bytes buf m)) (\<lambda>buf.
      seq (lift (kvtree_unpack (e q) buf 0 (Some kvtree_new))) (\<lambda>(hash, _). Ret (KVTREE_SUCCESS, hash)))"
  let ?r1 = "\<lambda>m. seq (lift (got_int m)) (\<lambda>sz.
      if 0 < sz then seq (lift (kvtree_malloc (junk q) (nat sz))) (\<lambda>buf. Comm None (Some p) (?r2 buf))
      else Ret (KVTREE_SUCCESS, Some kvtree_new))"
  have send: "seq (kvtree_send (e p) (junk p) (Some t) q) (\<lambda>rc. Ret (rc, None)) = Comm (Some (q, Mint (int ?sz))) None ?s1"
    using t(2) by (simp add: kvtree_send_def mpi_send_def malloc_small pack_fresh Let_def not_less)
  have recv: "kvtree_recv (e q) (junk q) (Some u) p = Comm None (Some p) ?r1"
    by (simp add: kvtree_recv_def mpi_recv_def kvtree_unset_all_eq Let_def cong: if_cong)
  have r1: "?r1 (Some (Mint (int ?sz))) = Comm None (Some p) (?r2 (map (junk q) [0..<?sz]))"
    using t(2) by (simp add: got_int_def malloc_small)
  have r2: "?r2 (map (junk q) [0..<?sz]) (Some (Mbytes ?bs)) = Ret (KVTREE_SUCCESS, Some (unpacked t))"
    using t by (simp add: got_bytes_full unpack_packed pack_size_enc(1) [symmetric])
  let ?idle = "\<lambda>_. Ret (KVTREE_SUCCESS, None)"
  have "does n eager red (\<lambda>i. if i = p then ?s2 None else if i = q then ?r2 (map (junk q) [0..<?sz]) (Some (Mbytes ?bs)) else ?idle i)
      (\<lambda>i. (KVTREE_SUCCESS, if i = q then Some (unpacked t) else None))"
    unfolding r2 by (rule does_Ret) (use pq(1) in simp)
  from does_pair [where ks = ?s2 and kr = "?r2 (map (junk q) [0..<?sz])" and m = "Mbytes ?bs" and P = ?idle, OF pq this]
  have "does n eager red (\<lambda>i. if i = p then ?s1 None else if i = q then ?r1 (Some (Mint (int ?sz))) else ?idle i)
      (\<lambda>i. (KVTREE_SUCCESS, if i = q then Some (unpacked t) else None))" by (simp only: r1)
  from does_pair [where ks = ?s1 and kr = ?r1 and m = "Mint (int ?sz)" and P = ?idle, OF pq this]
  show ?thesis by (simp only: send recv)
qed

section \<open>Broadcast\<close>

lemma does_bcast:
  assumes red: "mpi_collectives red" and root: "root < n"
    and t: "kvtree_wf (hs root)" "int (kvtree_pack_size (Some (hs root))) \<le> INT_MAX"
  shows "does n eager red (\<lambda>i. kvtree_bcast (e i) (junk i) i (Some (hs i)) root)
    (\<lambda>i. (KVTREE_SUCCESS, Some (if i = root then hs root else unpacked (hs root))))"
proof -
  let ?sz = "kvtree_pack_size (Some (hs root))" and ?bs = "enc_hash (Some (hs root))"
  let ?x1 = "\<lambda>i. Mint (if i = root then int ?sz else 0)"
  let ?x2 = "\<lambda>i. Mbytes (if i = root then ?bs else map (junk i) [0..<?sz])"
  let ?k2 = "\<lambda>i m. if i = root then Ret (KVTREE_SUCCESS, Some (hs root))
      else seq (lift (got_bytes (map (junk i) [0..<?sz]) (Some m))) (\<lambda>buf.
        seq (lift (kvtree_unpack (e i) buf 0 (Some kvtree_new))) (\<lambda>(hash, _). Ret (KVTREE_SUCCESS, hash)))"
  let ?k1 = "\<lambda>i m. if i = root then Coll (Bcast root) (Mbytes ?bs) (?k2 i)
      else seq (lift (got_int (Some m))) (\<lambda>sz.
        if 0 < sz then
             seq (lift (kvtree_malloc (junk i) (nat sz))) (\<lambda>buf.
             Coll (Bcast root) (Mbytes buf) (\<lambda>m.
             seq (lift (got_bytes buf (Some m))) (\<lambda>buf.
             seq (lift (kvtree_unpack (e i) buf 0 (Some kvtree_new))) (\<lambda>(hash, _). Ret (KVTREE_SUCCESS, hash)))))
        else Ret (KVTREE_SUCCESS, Some kvtree_new))"
  have prog: "kvtree_bcast (e i) (junk i) i (Some (hs i)) root = Coll (Bcast root) (?x1 i) (?k1 i)" for i
    using t(2) by (auto simp: kvtree_bcast_def malloc_small pack_fresh kvtree_unset_all_eq Let_def not_less cong: if_cong)
  have mid: "?k1 i (Mint (int ?sz)) = Coll (Bcast root) (?x2 i) (?k2 i)" for i
    using t(2) by (simp add: got_int_def malloc_small)
  have last: "?k2 i (Mbytes ?bs) = Ret (KVTREE_SUCCESS, Some (if i = root then hs root else unpacked (hs root)))" for i
    using t by (simp add: got_bytes_full unpack_packed pack_size_enc(1) [symmetric])
  have r1: "red (Bcast root) (map ?x1 [0..<n]) i = Mint (int ?sz)"
    and r2: "red (Bcast root) (map ?x2 [0..<n]) i = Mbytes ?bs" if "i < n" for i
    using red_bcast [OF red root that, of ?x1] red_bcast [OF red root that, of ?x2] by simp_all
  have n0: "0 < n" using root by simp
  let ?res = "\<lambda>i. (KVTREE_SUCCESS, Some (if i = root then hs root else unpacked (hs root)))"
  have "does n eager red (\<lambda>i. ?k2 i (red (Bcast root) (map ?x2 [0..<n]) i)) ?res"
    by (rule does_Ret) (simp only: r2 last)
  then have "does n eager red (\<lambda>i. Coll (Bcast root) (?x2 i) (?k2 i)) ?res"
    by (rule does_coll [where k = ?k2, OF n0])
  then have "does n eager red (\<lambda>i. ?k1 i (red (Bcast root) (map ?x1 [0..<n]) i)) ?res"
    by (subst does_cong [where Q = "\<lambda>i. Coll (Bcast root) (?x2 i) (?k2 i)"]) (simp_all only: r1 mid)
  then have "does n eager red (\<lambda>i. Coll (Bcast root) (?x1 i) (?k1 i)) ?res"
    by (rule does_coll [where k = ?k1, OF n0])
  then show ?thesis by (simp only: prog)
qed

section \<open>Properties\<close>

lemma new_packs [simp]: "int (kvtree_pack_size (Some kvtree_new)) \<le> INT_MAX"
  by (simp add: kvtree_new_def INT_MAX_def)

text \<open>C19. When rank \<open>p\<close> calls \<open>kvtree_send\<close> for rank \<open>q\<close> and rank \<open>q\<close> calls \<open>kvtree_recv\<close> from rank \<open>p\<close>, on
  hosts of any byte order and with or without buffering in the library, every run of the job ends: both
  calls return \<open>KVTREE_SUCCESS\<close> and the tree of the receiver has exactly the key paths of the tree sent.\<close>

theorem send_recv_delivers:
  assumes "p \<noteq> q" and "p < n" and "q < n" and "kvtree_wf t" and "int (kvtree_pack_size (Some t)) \<le> INT_MAX"
  shows "\<exists>v. kvtree_wf v \<and> kvtree_paths v = kvtree_paths t \<and>
    mpi_outcome n eager red
      (\<lambda>i. if i = p then seq (kvtree_send (e p) (junk p) (Some t) q) (\<lambda>rc. Ret (rc, None))
           else if i = q then kvtree_recv (e q) (junk q) (Some u) p else Ret (KVTREE_SUCCESS, None))
      (\<lambda>i. (KVTREE_SUCCESS, if i = q then Some v else None))"
  using does_outcome [OF does_send_recv [OF assms]] kvtree_wf_unpacked [OF assms(4)] kvtree_paths_unpacked [OF assms(4)]
  by blast

theorem send_recv_delivers_witness:
  "\<exists>v. kvtree_wf v \<and> kvtree_paths v = kvtree_paths kvtree_new \<and>
    mpi_outcome 2 (\<lambda>_ _ _. False) mpi_red
      (\<lambda>i. if i = 0 then seq (kvtree_send Little_endian (\<lambda>_. 0) (Some kvtree_new) 1) (\<lambda>rc. Ret (rc, None))
           else if i = 1 then kvtree_recv Big_endian (\<lambda>_. 7) (Some (Kvtree [Kvtree_elem (Some ''old'') None])) 0
           else Ret (KVTREE_SUCCESS, None))
      (\<lambda>i. (KVTREE_SUCCESS, if i = 1 then Some v else None))"
  using send_recv_delivers [of 0 1 2 kvtree_new "\<lambda>_ _ _. False" mpi_red "\<lambda>i. if i = 0 then Little_endian else Big_endian"
      "\<lambda>i _. if i = 0 then 0 else 7" "Kvtree [Kvtree_elem (Some ''old'') None]"]
  by (simp cong: if_cong)

text \<open>C20. When every rank calls \<open>kvtree_bcast\<close> with the same root, every run of the job ends with
  \<open>KVTREE_SUCCESS\<close> on all ranks; the root keeps its tree and every other rank has a well-formed tree with
  the same key paths, whatever its tree held before.\<close>

theorem bcast_delivers:
  assumes "mpi_collectives red" and "root < n"
    and "kvtree_wf (hs root)" and "int (kvtree_pack_size (Some (hs root))) \<le> INT_MAX"
  shows "\<exists>v. kvtree_wf v \<and> kvtree_paths v = kvtree_paths (hs root) \<and>
    mpi_outcome n eager red (\<lambda>i. kvtree_bcast (e i) (junk i) i (Some (hs i)) root)
      (\<lambda>i. (KVTREE_SUCCESS, Some (if i = root then hs root else v)))"
  using does_outcome [OF does_bcast [of red root n hs, OF assms]] kvtree_wf_unpacked [OF assms(3)] kvtree_paths_unpacked [OF assms(3)]
  by blast

theorem bcast_delivers_witness:
  "\<exists>v. kvtree_wf v \<and> kvtree_paths v = kvtree_paths kvtree_new \<and>
    mpi_outcome 3 (\<lambda>_ _ _. True) mpi_red (\<lambda>i. kvtree_bcast Little_endian (\<lambda>_. 0) i (Some kvtree_new) 1)
      (\<lambda>i. (KVTREE_SUCCESS, Some (if i = 1 then kvtree_new else v)))"
  using bcast_delivers [OF mpi_red_ok, of 1 3 "\<lambda>_. kvtree_new" "\<lambda>_ _ _. True" "\<lambda>_. Little_endian" "\<lambda>_ _. 0"]
  by simp

text \<open>C21. When every rank calls \<open>kvtree_sendrecv\<close> and the destinations and sources match (each rank
  receives from the one that sends to it), every run of the job ends: no rank waits for ever even when sends
  are not buffered, and every rank gets a well-formed tree with the key paths of its source's.\<close>

theorem sendrecv_permutes:
  assumes "\<And>i. i < n \<Longrightarrow> dst i < n \<and> src i < n \<and> src (dst i) = i \<and> dst (src i) = i"
    and "\<And>i. i < n \<Longrightarrow> kvtree_wf (s i) \<and> int (kvtree_pack_size (Some (s i))) \<le> INT_MAX"
  shows "\<exists>v. (\<forall>i < n. kvtree_wf (v i) \<and> kvtree_paths (v i) = kvtree_paths (s (src i))) \<and>
    mpi_outcome n eager red
      (\<lambda>i. kvtree_sendrecv (e i) (junk i) (Some (s i)) (Some (dst i)) (Some (u i)) (Some (src i)))
      (\<lambda>i. (KVTREE_SUCCESS, Some (v i)))"
proof -
  have "\<forall>i < n. kvtree_wf (unpacked (s (src i))) \<and> kvtree_paths (unpacked (s (src i))) = kvtree_paths (s (src i))"
    using assms by (simp add: kvtree_wf_unpacked kvtree_paths_unpacked)
  moreover have "does n eager red
      (\<lambda>i. kvtree_sendrecv (e i) (junk i) (Some (s i)) (Some (dst i)) (Some (u i)) (Some (src i)))
      (\<lambda>i. (KVTREE_SUCCESS, Some (unpacked (s (src i)))))"
    by (rule does_sendrecv [OF assms])
  ultimately show ?thesis
    by (intro exI [of _ "\<lambda>i. unpacked (s (src i))"]) (simp add: does_outcome)
qed

theorem sendrecv_permutes_witness:
  "\<exists>v. kvtree_paths (v 0) = kvtree_paths kvtree_new \<and> kvtree_paths (v 1) = kvtree_paths kvtree_new \<and>
    mpi_outcome 2 (\<lambda>_ _ _. False) mpi_red
      (\<lambda>i. kvtree_sendrecv Little_endian (\<lambda>_. 0) (Some kvtree_new) (Some (1 - i)) (Some kvtree_new) (Some (1 - i)))
      (\<lambda>i. (KVTREE_SUCCESS, Some (v i)))"
proof -
  have "\<exists>v. (\<forall>i < 2. kvtree_wf (v i) \<and> kvtree_paths (v i) = kvtree_paths kvtree_new) \<and>
    mpi_outcome 2 (\<lambda>_ _ _. False) mpi_red
      (\<lambda>i. kvtree_sendrecv Little_endian (\<lambda>_. 0) (Some kvtree_new) (Some (1 - i)) (Some kvtree_new) (Some (1 - i)))
      (\<lambda>i. (KVTREE_SUCCESS, Some (v i)))"
    by (rule sendrecv_permutes) auto
  moreover have "(0 :: nat) < 2" "(1 :: nat) < 2" by simp_all
  ultimately show ?thesis by blast
qed

text \<open>C31. A tree whose packed size does not fit in an \<open>int\<close> is not sent at all: \<open>kvtree_send\<close>, \<open>kvtree_bcast\<close>
  at the root and \<open>kvtree_sendrecv\<close> with a destination end the process before the first message; without
  a destination the tree to send is not looked at.\<close>

theorem large_tree_aborts:
  assumes "INT_MAX < int (kvtree_pack_size hash)"
  shows "kvtree_send e junk hash rank = Abort \<and>
    kvtree_bcast e junk root hash root = Abort \<and>
    kvtree_sendrecv e junk hash (Some dst) hash_recv rank_recv = Abort \<and>
    kvtree_sendrecv e junk hash None hash_recv rank_recv = kvtree_sendrecv e junk None None hash_recv rank_recv"
  using assms by (simp add: kvtree_send_def kvtree_bcast_def kvtree_sendrecv_def Let_def)

theorem large_tree_aborts_witness:
  "kvtree_send Little_endian (\<lambda>_. 0) (Some (Kvtree [Kvtree_elem (Some (replicate (2 ^ 31) CHR ''k'')) None])) 1 = Abort"
proof -
  have "INT_MAX < int (kvtree_pack_size (Some (Kvtree [Kvtree_elem (Some (replicate (2 ^ 31) CHR ''k'')) None])))"
    by (simp add: INT_MAX_def)
  from large_tree_aborts [OF this] show ?thesis by simp
qed

end
