(* ===== verification/KV_Exchange.thy ===== *)
theory KV_Exchange
  imports KV_MPI
begin

text \<open>
  The sparse all-to-all exchange of \<open>src/kvtree_mpi.c\<close>: the lemmas that Bruck's algorithm delivers. The data of
  the job is a set of items (destination, source, key path). After \<open>h\<close> rounds an item that has still to travel is
  on the rank \<open>route\<close> names, its source moved by the low \<open>h\<close> bits of the distance to its destination; \<open>held\<close> and
  \<open>arrived\<close> are what a rank then holds and has put in its output, and \<open>round_inv\<close> says that its two trees are
  exactly that. A round keeps the invariant on all ranks at once (\<open>loop_round\<close>), and the hops counted for
  an item are enough rounds for it (\<open>count_hops_dist\<close>).
\<close>

section \<open>The routed data\<close>

text \<open>A set \<open>W\<close> of triples (destination, source, key path) is the data a rank holds; \<open>routed W\<close> is the tree
  that holds it.\<close>

definition routed :: "(nat \<times> nat \<times> kvpath) set \<Rightarrow> kvpath set" where
  "routed W = insert [] (\<Union>(d, s, q) \<in> W.
     {[''D''], [''D'', rank_key d], [''D'', rank_key d, ''S''], ''D'' # rank_key d # ''S'' # rank_key s # q})"

lemma routed_Un: "routed (A \<union> B) = routed A \<union> routed B"
  by (auto simp: routed_def)

lemma routed_mono: "A \<subseteq> B \<Longrightarrow> routed A \<subseteq> routed B"
  by (auto simp: routed_def)

text \<open>The tree of a rank.\<close>

definition holds :: "kvtree option \<Rightarrow> (nat \<times> nat \<times> kvpath) set \<Rightarrow> bool" where
  "holds hash W \<longleftrightarrow> (\<exists>t. hash = Some t \<and> kvtree_wf t \<and> kvtree_paths t = routed W)"

lemma holds_new: "holds (Some kvtree_new) {}"
  by (simp add: holds_def routed_def)

lemma setup_step:
  assumes "holds current W" and "hash_wf h" and "d < 2 ^ 31"
  shows "\<exists>cur'. holds cur' (W \<union> {d} \<times> {s} \<times> hash_paths h) \<and>
    exchange_setup (int s) (Kvtree_elem (Some (rank_key d)) h # es) current = exchange_setup (int s) es cur'"
proof -
  obtain t where t: "current = Some t" "kvtree_wf t" "kvtree_paths t = routed W" using assms(1) by (auto simp: holds_def)
  obtain u x where u: "kvtree_set_kv_int (Some t) (Some ''D'') (int d) = (Some u, Some [''D'', rank_key d])"
    "kvtree_wf u" "kvtree_lookup (Some u) [''D'', rank_key d] = Some x"
    "kvtree_paths u = kvtree_paths t \<union> {[''D''], [''D'', rank_key d]}"
    using set_kv_int_spec [OF t(2), of "''D''" "int d"] by (auto simp: rank_key_def)
  have x: "kvtree_wf x" "kvtree_paths x = {q. [''D'', rank_key d] @ q \<in> kvtree_paths u}"
    using lookup_paths [OF u(2,3)] by blast+
  obtain v y where v: "kvtree_set_kv_int (Some x) (Some ''S'') (int s) = (Some v, Some [''S'', rank_key s])"
    "kvtree_wf v" "kvtree_lookup (Some v) [''S'', rank_key s] = Some y"
    "kvtree_paths v = kvtree_paths x \<union> {[''S''], [''S'', rank_key s]}"
    using set_kv_int_spec [OF x(1), of "''S''" "int s"] by (auto simp: rank_key_def)
  obtain w where w: "kvtree_assign (Some v) [''S'', rank_key s] (snd (kvtree_merge (Some y) h)) = Some w"
    "kvtree_wf w" "kvtree_paths w = kvtree_paths v \<union> (@) [''S'', rank_key s] ` hash_paths h"
    using merge_at [OF v(2,3) assms(2)] by blast
  let ?c = "kvtree_assign (Some u) [''D'', rank_key d] (Some w)"
  have "hash_paths ?c = kvtree_paths u \<union> (@) [''D'', rank_key d] ` kvtree_paths w"
    using paths_assign [OF u(3), of "Some w"] w(3) v(4) by (auto simp del: kvtree_lookup.simps)
  also have "\<dots> = routed (W \<union> {d} \<times> {s} \<times> hash_paths h)"
    using paths_nonempty [of h] unfolding w(3) v(4) x(2) u(4) t(3) routed_Un by (auto simp: routed_def)
  finally have "hash_paths ?c = routed (W \<union> {d} \<times> {s} \<times> hash_paths h)" .
  moreover have "hash_wf ?c" using u(2) w(2) by (intro assign_wf) simp_all
  moreover have "?c \<noteq> None" by (rule kvtree_assign_nonnull) simp_all
  ultimately have "holds ?c (W \<union> {d} \<times> {s} \<times> hash_paths h)" by (auto simp: holds_def)
  then show ?thesis
    using t(1) u v w assms(3)
    by (auto simp: kvtree_elem_key_int_def kvtree_elem_hash_def atoi_key simp del: kvtree_lookup.simps intro!: exI [of _ ?c])
qed

text \<open>The elements of a tree whose keys are ranks.\<close>

definition elem_items :: "nat \<Rightarrow> kvtree_elem list \<Rightarrow> (nat \<times> kvpath) set" where
  "elem_items n es = {(d, q). d < n \<and> (\<exists>x \<in> set es. elem_key x = Some (rank_key d) \<and> q \<in> hash_paths (elem_hash x))}"

lemma elem_items_Nil [simp]: "elem_items n [] = {}"
  by (simp add: elem_items_def)

lemma elem_items_Cons:
  "n \<le> 2 ^ 31 \<Longrightarrow> d < n \<Longrightarrow>
     elem_items n (Kvtree_elem (Some (rank_key d)) h # es) = {d} \<times> hash_paths h \<union> elem_items n es"
  by (auto simp: elem_items_def rank_key_inj)

lemma setup_all:
  assumes "holds current W" and "rank_keys n es" and "n \<le> 2 ^ 31"
  shows "\<exists>cur'. exchange_setup (int s) es current = Some cur' \<and>
    holds cur' (W \<union> {(d, s', q). s' = s \<and> (d, q) \<in> elem_items n es})"
  using assms(1,2)
proof (induction es arbitrary: current W)
  case (Cons x es)
  then obtain d h where x: "x = Kvtree_elem (Some (rank_key d)) h" "d < n" "hash_wf h" by (cases x) auto
  obtain cur' where c: "holds cur' (W \<union> {d} \<times> {s} \<times> hash_paths h)"
    "exchange_setup (int s) (x # es) current = exchange_setup (int s) es cur'"
    using setup_step [OF Cons.prems(1) x(3), of d s es] x(1,2) assms(3) by auto
  moreover have "W \<union> {d} \<times> {s} \<times> hash_paths h \<union> {(d, s', q). s' = s \<and> (d, q) \<in> elem_items n es} =
      W \<union> {(d, s', q). s' = s \<and> (d, q) \<in> elem_items n (x # es)}"
    unfolding x(1) elem_items_Cons [OF assms(3) x(2)] by auto
  ultimately show ?case using Cons.IH [OF c(1)] Cons.prems(2) by simp
next
  case Nil
  then show ?case by (simp add: case_prod_unfold)
qed

section \<open>One round on one rank\<close>

definition exch_dist :: "kvtree_exchange_enum \<Rightarrow> int \<Rightarrow> int \<Rightarrow> int \<Rightarrow> int" where
  "exch_dist dir ranks rank dest =
     (let dist = (if dir = KVTREE_EXCHANGE_RIGHT then dest - rank else rank - dest)
      in if dist < 0 then dist + ranks else dist)"

text \<open>What a loop that passes on the destinations with property \<open>P\<close> adds to a tree.\<close>

definition passed :: "nat \<Rightarrow> kvtree_elem list \<Rightarrow> (nat \<Rightarrow> bool) \<Rightarrow> kvpath set" where
  "passed n es P = (\<Union>(d, q) \<in> {(d, q) \<in> elem_items n es. P d}. {[''D''], ''D'' # rank_key d # q})"

lemma passed_Cons:
  assumes "n \<le> 2 ^ 31" and "d < n"
  shows "passed n (Kvtree_elem (Some (rank_key d)) h # es) P =
    (if P d then insert [''D''] ((@) [''D'', rank_key d] ` hash_paths h) else {}) \<union> passed n es P"
proof -
  have "(\<Union>q \<in> hash_paths h. {[''D''], ''D'' # rank_key d # q}) = insert [''D''] ((@) [''D'', rank_key d] ` hash_paths h)"
    by (auto intro: exI [of _ "[]"])
  moreover have "{(d', q) \<in> {d} \<times> hash_paths h \<union> elem_items n es. P d'} =
      (if P d then {d} \<times> hash_paths h else {}) \<union> {(d', q) \<in> elem_items n es. P d'}" by auto
  moreover have "(\<Union>(d', q) \<in> {d} \<times> hash_paths h. {[''D''], ''D'' # rank_key d' # q}) =
      (\<Union>q \<in> hash_paths h. {[''D''], ''D'' # rank_key d # q})"
    by (auto intro: exI [of _ "[]"])
  ultimately show ?thesis unfolding passed_def elem_items_Cons [OF assms] by (simp add: UN_Un)
qed

lemma get_S_paths:
  assumes "hash_wf h"
  shows "hash_paths (kvtree_get h (Some ''S'')) = insert [] {p. ''S'' # p \<in> hash_paths h}"
proof (cases h)
  case (Some t)
  show ?thesis
  proof (cases "kvtree_get h (Some ''S'')")
    case None
    then show ?thesis using get_none_paths [of t "''S''"] assms Some by auto
  next
    case (Some s)
    then show ?thesis using get_paths_eq [of t "''S''" s] assms \<open>h = Some t\<close> Nil_in_paths(1) [of s] by auto
  qed
qed auto

lemma split_all:
  assumes "rank_keys n es" and "n \<le> 2 ^ 31" and "i < n" and "kvtree_wf o0" and "kvtree_wf s0" and "kvtree_wf k0"
  shows "\<exists>o1 s1 k1. exchange_split dir (int i) (int n) bt es (Some o0) (Some s0) (Some k0) = Some (Some o1, Some s1, Some k1) \<and>
    kvtree_wf o1 \<and> kvtree_wf s1 \<and> kvtree_wf k1 \<and>
    kvtree_paths o1 = kvtree_paths o0 \<union> {p. (i, ''S'' # p) \<in> elem_items n es} \<and>
    kvtree_paths s1 = kvtree_paths s0 \<union> passed n es (\<lambda>d. d \<noteq> i \<and> exch_dist dir (int n) (int i) (int d) AND bt \<noteq> 0) \<and>
    kvtree_paths k1 = kvtree_paths k0 \<union> passed n es (\<lambda>d. d \<noteq> i \<and> exch_dist dir (int n) (int i) (int d) AND bt = 0)"
  using assms(1,4-6)
proof (induction es arbitrary: o0 s0 k0)
  case Nil
  then show ?case by (auto simp: passed_def)
next
  case (Cons x es)
  then obtain d h where x: "x = Kvtree_elem (Some (rank_key d)) h" and d: "d < n" and h: "hash_wf h" by (cases x) auto
  have int: "to_int32 (int d - int i) = int d - int i" "to_int32 (int i - int d) = int i - int d"
    using d assms(2,3) by (simp_all add: to_int32_id is_int32_def INT_MIN_def INT_MAX_def)
  have key: "kvtree_elem_key_int (Some x) = Some (int d)" "kvtree_elem_hash (Some x) = h"
    using d assms(2) by (simp_all add: x kvtree_elem_key_int_def kvtree_elem_hash_def atoi_key)
  note es = elem_items_Cons [OF assms(2) d, of h es, folded x] passed_Cons [OF assms(2) d, of h es, folded x]
  have step_eq: "exchange_split dir (int i) (int n) bt (x # es) o1 s1 k1 =
      (if d = i then exchange_split dir (int i) (int n) bt es (snd (kvtree_merge o1 (kvtree_get h (Some ''S'')))) s1 k1
       else if exch_dist dir (int n) (int i) (int d) AND bt \<noteq> 0
       then exchange_split dir (int i) (int n) bt es o1 (kvtree_merge_kv_int s1 ''D'' (int d) h) k1
       else exchange_split dir (int i) (int n) bt es o1 s1 (kvtree_merge_kv_int k1 ''D'' (int d) h))" for o1 s1 k1
    by (simp add: key int exch_dist_def Let_def)
  consider (here) "d = i" | (send) "d \<noteq> i" "exch_dist dir (int n) (int i) (int d) AND bt \<noteq> 0"
    | (keep) "d \<noteq> i" "exch_dist dir (int n) (int i) (int d) AND bt = 0" by blast
  then show ?case
  proof cases
    case here
    obtain o' where o': "kvtree_merge (Some o0) (kvtree_get h (Some ''S'')) = (KVTREE_SUCCESS, Some o')" "kvtree_wf o'"
      "kvtree_paths o' = kvtree_paths o0 \<union> hash_paths (kvtree_get h (Some ''S''))"
      by (rule merge_eq [OF Cons.prems(2) kvtree_get_wf [OF h]])
    have "kvtree_paths o' = kvtree_paths o0 \<union> {p. ''S'' # p \<in> hash_paths h}"
      unfolding o'(3) get_S_paths [OF h] by auto
    with Cons.IH [of o' s0 k0] Cons.prems here o'(1,2) show ?thesis
      by (simp add: es step_eq Un_ac Collect_disj_eq del: exchange_split.simps)
  next
    case send
    obtain s' where s': "kvtree_merge_kv_int (Some s0) ''D'' (int d) h = Some s'" "kvtree_wf s'"
      "kvtree_paths s' = kvtree_paths s0 \<union> insert [''D''] ((@) [''D'', rank_key d] ` hash_paths h)"
      using merge_kv_int_spec [OF Cons.prems(3) _ h, of "''D''" "int d"] by (auto simp: rank_key_def)
    with Cons.IH [of o0 s' k0] Cons.prems send show ?thesis
      by (simp add: es step_eq Un_ac del: exchange_split.simps)
  next
    case keep
    obtain k' where k': "kvtree_merge_kv_int (Some k0) ''D'' (int d) h = Some k'" "kvtree_wf k'"
      "kvtree_paths k' = kvtree_paths k0 \<union> insert [''D''] ((@) [''D'', rank_key d] ` hash_paths h)"
      using merge_kv_int_spec [OF Cons.prems(4) _ h, of "''D''" "int d"] by (auto simp: rank_key_def)
    with Cons.IH [of o0 s0 k'] Cons.prems keep show ?thesis
      by (simp add: es step_eq Un_ac del: exchange_split.simps)
  qed
qed

lemma elem_items_tree:
  "kvtree_wf t \<Longrightarrow> elem_items n (elems t) = {(d, p). d < n \<and> rank_key d # p \<in> kvtree_paths t}"
  by (simp add: elem_items_def paths_via_elems)

definition bounded :: "nat \<Rightarrow> (nat \<times> nat \<times> kvpath) set \<Rightarrow> bool" where
  "bounded n W \<longleftrightarrow> (\<forall>(d, s, q) \<in> W. d < n)"

lemma routed_mem:
  assumes "bounded n W" and "n \<le> 2 ^ 31" and "d < n"
  shows "''D'' # rank_key d # p \<in> routed W \<longleftrightarrow>
    (\<exists>s q. (d, s, q) \<in> W \<and> (p = [] \<or> p = [''S''] \<or> p = ''S'' # rank_key s # q))"
proof -
  have "rank_key d' = rank_key d \<longleftrightarrow> d' = d" if "(d', s, q) \<in> W" for d' s q
    using assms that by (subst rank_key_inj) (auto simp: bounded_def)
  then show ?thesis unfolding routed_def by (auto; metis)
qed

lemma D_items:
  assumes "holds cur W" and "bounded n W" and "n \<le> 2 ^ 31"
  shows "rank_keys n (hash_elems (kvtree_get cur (Some ''D'')))" (is ?keys)
    and "elem_items n (hash_elems (kvtree_get cur (Some ''D''))) =
      {(d, p). \<exists>s q. (d, s, q) \<in> W \<and> (p = [] \<or> p = [''S''] \<or> p = ''S'' # rank_key s # q)}" (is ?items)
proof -
  obtain t where t: "cur = Some t" "kvtree_wf t" "kvtree_paths t = routed W" using assms(1) by (auto simp: holds_def)
  have "?keys \<and> ?items"
  proof (cases "kvtree_get cur (Some ''D'')")
    case None
    have "W = {}"
    proof (rule ccontr)
      assume "W \<noteq> {}"
      then obtain d s q where "(d, s, q) \<in> W" by auto
      then have "[''D'', rank_key d] \<in> kvtree_paths t" unfolding t(3) routed_def by fastforce
      then show False using get_none_paths [OF t(2)] None t(1) by blast
    qed
    with None show ?thesis by (simp add: hash_elems_def)
  next
    case (Some h)
    have h: "kvtree_wf h" "kvtree_paths h = {p. ''D'' # p \<in> routed W}"
      using get_paths_eq [OF t(2)] kvtree_get_wf [of cur "Some ''D''"] Some t by simp_all
    have "\<exists>d < n. k = rank_key d" if "[k] \<in> kvtree_paths h" for k
      using that assms(2) unfolding h(2) routed_def bounded_def by auto
    with h have "rank_keys n (elems h)" by (intro rank_keys_tree)
    moreover have "elem_items n (elems h) = {(d, p). \<exists>s q. (d, s, q) \<in> W \<and> (p = [] \<or> p = [''S''] \<or> p = ''S'' # rank_key s # q)}"
    proof -
      have "(d < n \<and> ''D'' # rank_key d # p \<in> routed W) \<longleftrightarrow>
          (\<exists>s q. (d, s, q) \<in> W \<and> (p = [] \<or> p = [''S''] \<or> p = ''S'' # rank_key s # q))" for d p
        using assms(2) routed_mem [OF assms(2,3), of d p] by (cases "d < n") (auto simp: bounded_def)
      then show ?thesis unfolding elem_items_tree [OF h(1)] h(2) by simp
    qed
    ultimately show ?thesis by (simp add: Some hash_elems_def)
  qed
  then show ?keys ?items by simp_all
qed

lemma passed_routed:
  assumes "elem_items n es = {(d, p). \<exists>s q. (d, s, q) \<in> W \<and> (p = [] \<or> p = [''S''] \<or> p = ''S'' # rank_key s # q)}"
  shows "insert [] (passed n es P) = routed {(d, s, q) \<in> W. P d}"
proof -
  let ?V = "{(d, s, q) \<in> W. P d}"
  have "{(d, p) \<in> elem_items n es. P d} = (\<Union>(d, s, q) \<in> ?V. {(d, []), (d, [''S'']), (d, ''S'' # rank_key s # q)})"
    unfolding assms by auto
  moreover have "(\<Union>(d, p) \<in> {(d, []), (d, [''S'']), (d, ''S'' # rank_key s # q)}. {[''D''], ''D'' # rank_key d # p}) =
      {[''D''], [''D'', rank_key d], [''D'', rank_key d, ''S''], ''D'' # rank_key d # ''S'' # rank_key s # q}" for d s q
    by auto
  ultimately show ?thesis
    unfolding passed_def routed_def by (simp only: UN_UN_flatten case_prod_unfold)
qed

lemma round_split:
  assumes "holds cur W" and "bounded n W" and "n \<le> 2 ^ 31" and "i < n" and "kvtree_wf o0"
  shows "\<exists>o1 sd kp. exchange_split dir (int i) (int n) bt (hash_elems (kvtree_get cur (Some ''D'')))
      (Some o0) (Some kvtree_new) (Some kvtree_new) = Some (Some o1, Some sd, Some kp) \<and>
    kvtree_wf o1 \<and> kvtree_paths o1 = kvtree_paths o0 \<union> {rank_key s # q | s q. (i, s, q) \<in> W} \<and>
    holds (Some sd) {(d, s, q) \<in> W. d \<noteq> i \<and> exch_dist dir (int n) (int i) (int d) AND bt \<noteq> 0} \<and>
    holds (Some kp) {(d, s, q) \<in> W. d \<noteq> i \<and> exch_dist dir (int n) (int i) (int d) AND bt = 0}"
proof -
  note items = D_items [OF assms(1-3)]
  obtain o1 sd kp where r: "exchange_split dir (int i) (int n) bt (hash_elems (kvtree_get cur (Some ''D'')))
      (Some o0) (Some kvtree_new) (Some kvtree_new) = Some (Some o1, Some sd, Some kp)"
    "kvtree_wf o1" "kvtree_wf sd" "kvtree_wf kp"
    "kvtree_paths o1 = kvtree_paths o0 \<union> {p. (i, ''S'' # p) \<in> elem_items n (hash_elems (kvtree_get cur (Some ''D'')))}"
    "kvtree_paths sd = insert [] (passed n (hash_elems (kvtree_get cur (Some ''D'')))
       (\<lambda>d. d \<noteq> i \<and> exch_dist dir (int n) (int i) (int d) AND bt \<noteq> 0))"
    "kvtree_paths kp = insert [] (passed n (hash_elems (kvtree_get cur (Some ''D'')))
       (\<lambda>d. d \<noteq> i \<and> exch_dist dir (int n) (int i) (int d) AND bt = 0))"
    using split_all [OF items(1) assms(3,4,5) kvtree_new_wf kvtree_new_wf, of dir bt] by auto
  moreover have "kvtree_paths o1 = kvtree_paths o0 \<union> {rank_key s # q | s q. (i, s, q) \<in> W}"
    unfolding r(5) items(2) using Nil_in_paths(1) [of o0] by auto
  ultimately show ?thesis by (simp add: holds_def passed_routed [OF items(2)])
qed

section \<open>The route of an item\<close>

definition dir_sign :: "kvtree_exchange_enum \<Rightarrow> int" where
  "dir_sign dir = (if dir = KVTREE_EXCHANGE_RIGHT then 1 else - 1)"

definition rank_dist :: "kvtree_exchange_enum \<Rightarrow> nat \<Rightarrow> nat \<Rightarrow> nat \<Rightarrow> nat" where
  "rank_dist dir n s d = nat ((dir_sign dir * (int d - int s)) mod int n)"

definition rank_shift :: "kvtree_exchange_enum \<Rightarrow> nat \<Rightarrow> nat \<Rightarrow> int \<Rightarrow> nat" where
  "rank_shift dir n i k = nat ((int i + dir_sign dir * k) mod int n)"

definition route :: "kvtree_exchange_enum \<Rightarrow> nat \<Rightarrow> nat \<Rightarrow> nat \<Rightarrow> nat \<Rightarrow> nat" where
  "route dir n h s d = rank_shift dir n s (int (rank_dist dir n s d mod 2 ^ h))"

lemma sign_sq [simp]: "dir_sign dir * (dir_sign dir * x) = x"
  by (simp add: dir_sign_def)

lemma int_dist: "0 < n \<Longrightarrow> int (rank_dist dir n s d) = (dir_sign dir * (int d - int s)) mod int n"
  by (simp add: rank_dist_def)

lemma int_shift: "0 < n \<Longrightarrow> int (rank_shift dir n i k) = (int i + dir_sign dir * k) mod int n"
  by (simp add: rank_shift_def)

lemma dist_less: "0 < n \<Longrightarrow> rank_dist dir n s d < n"
  using int_dist [of n dir s d] pos_mod_bound [of "int n"] by (metis of_nat_0_less_iff of_nat_less_iff)

lemma shift_less: "0 < n \<Longrightarrow> rank_shift dir n i k < n"
  using int_shift [of n dir i k] pos_mod_bound [of "int n"] by (metis of_nat_0_less_iff of_nat_less_iff)

lemma shift_shift: "0 < n \<Longrightarrow> rank_shift dir n (rank_shift dir n i j) k = rank_shift dir n i (j + k)"
proof -
  assume n: "0 < n"
  then have "int (rank_shift dir n (rank_shift dir n i j) k) = int (rank_shift dir n i (j + k))"
    by (simp add: int_shift mod_add_left_eq distrib_left add.assoc)
  then show ?thesis by simp
qed

lemma shift_0: "i < n \<Longrightarrow> rank_shift dir n i 0 = i"
  by (simp add: rank_shift_def)

lemma shift_dist: "0 < n \<Longrightarrow> d < n \<Longrightarrow> rank_shift dir n s (int (rank_dist dir n s d)) = d"
proof -
  assume n: "0 < n" "d < n"
  have "int (rank_shift dir n s (int (rank_dist dir n s d))) = (int s + dir_sign dir * ((dir_sign dir * (int d - int s)) mod int n)) mod int n"
    using n by (simp add: int_shift int_dist)
  also have "\<dots> = (int s + dir_sign dir * (dir_sign dir * (int d - int s))) mod int n"
    by (metis mod_add_right_eq mod_mult_right_eq)
  also have "\<dots> = int d" using n by simp
  finally show ?thesis by simp
qed

lemma dist_shift:
  assumes "0 < n" and "k \<le> rank_dist dir n s d"
  shows "rank_dist dir n (rank_shift dir n s (int k)) d = rank_dist dir n s d - k"
proof -
  have "int (rank_dist dir n (rank_shift dir n s (int k)) d) =
      (dir_sign dir * (int d - (int s + dir_sign dir * int k) mod int n)) mod int n"
    using assms by (simp add: int_shift int_dist)
  also have "\<dots> = (dir_sign dir * (int d - (int s + dir_sign dir * int k))) mod int n"
    by (metis mod_diff_right_eq mod_mult_right_eq)
  also have "dir_sign dir * (int d - (int s + dir_sign dir * int k)) = dir_sign dir * (int d - int s) - int k"
    by (simp add: algebra_simps)
  also have "\<dots> mod int n = (int (rank_dist dir n s d) - int k) mod int n"
    using assms(1) by (simp add: int_dist mod_diff_left_eq)
  also have "\<dots> = int (rank_dist dir n s d - k)"
    using assms dist_less [OF assms(1), of dir s d] by (simp add: of_nat_diff mod_pos_pos_trivial)
  finally show ?thesis by simp
qed

lemma mod_wrap:
  "- int n \<le> x \<Longrightarrow> x < 0 \<Longrightarrow> x mod int n = x + int n"
  "int n \<le> x \<Longrightarrow> x < 2 * int n \<Longrightarrow> x mod int n = x - int n"
  using mod_add_self2 [of x "int n"] mod_pos_pos_trivial [of "x + int n" "int n"]
    mod_add_self2 [of "x - int n" "int n"] mod_pos_pos_trivial [of "x - int n" "int n"]
  by simp_all

lemma exch_dist_eq:
  assumes "i < n" and "d < n"
  shows "exch_dist dir (int n) (int i) (int d) = int (rank_dist dir n i d)"
  using assms by (auto simp: exch_dist_def int_dist dir_sign_def Let_def mod_wrap mod_pos_pos_trivial)

lemma partners:
  assumes "i < n" and "0 \<le> k" and "k < int n"
  shows "(if int i - k < 0 then int i - k + int n else int i - k) = (int i - k) mod int n"
    and "(if int n \<le> int i + k then int i + k - int n else int i + k) = (int i + k) mod int n"
  using assms by (auto simp: mod_wrap mod_pos_pos_trivial)

lemma and_power: "int x AND 2 ^ h \<noteq> 0 \<longleftrightarrow> odd (x div 2 ^ h)"
proof -
  have "int x div 2 ^ h = int (x div 2 ^ h)" by (simp add: zdiv_int)
  then show ?thesis unfolding and_exp_eq_0_iff_not_bit bit_iff_odd by simp
qed

text \<open>Where an item is before round \<open>h\<close>, and whether it is still on its way then.\<close>

lemma route_less: "0 < n \<Longrightarrow> route dir n h s d < n"
  by (simp add: route_def shift_less)

lemma route_0: "s < n \<Longrightarrow> route dir n 0 s d = s"
  by (simp add: route_def shift_0)

lemma route_dist: "0 < n \<Longrightarrow>
  rank_dist dir n (route dir n h s d) d = rank_dist dir n s d - rank_dist dir n s d mod 2 ^ h"
  unfolding route_def by (rule dist_shift) simp_all

lemma dist_0: "0 < n \<Longrightarrow> d < n \<Longrightarrow> s < n \<Longrightarrow> rank_dist dir n s d = 0 \<longleftrightarrow> s = d"
proof
  assume *: "0 < n" "d < n" "s < n" "rank_dist dir n s d = 0"
  then show "s = d" using shift_dist [of n d dir s] shift_0 [of s n dir] by simp
qed (simp add: rank_dist_def)

lemma route_arrived:
  assumes "0 < n" and "d < n"
  shows "route dir n h s d = d \<longleftrightarrow> rank_dist dir n s d < 2 ^ h"
proof -
  let ?x = "rank_dist dir n s d"
  have "route dir n h s d = d \<longleftrightarrow> ?x - ?x mod 2 ^ h = 0"
    using dist_0 [OF assms(1,2) route_less [OF assms(1)]] route_dist [OF assms(1), of dir h s d] by metis
  also have "\<dots> \<longleftrightarrow> ?x mod 2 ^ h = ?x"
    using mod_less_eq_dividend [of ?x "2 ^ h"] by linarith
  also have "\<dots> \<longleftrightarrow> ?x < 2 ^ h" by (simp add: mod_eq_self_iff_div_eq_0 div_eq_0_iff)
  finally show ?thesis .
qed

lemma route_far: "0 < n \<Longrightarrow> d < n \<Longrightarrow>
  exch_dist dir (int n) (int (route dir n h s d)) (int d) AND 2 ^ h \<noteq> 0 \<longleftrightarrow> odd (rank_dist dir n s d div 2 ^ h)"
proof -
  assume *: "0 < n" "d < n"
  let ?x = "rank_dist dir n s d"
  have "(?x - ?x mod 2 ^ h) div 2 ^ h = ?x div 2 ^ h" by (simp add: minus_mod_eq_mult_div)
  then show ?thesis
    unfolding exch_dist_eq [OF route_less [OF *(1)] *(2)] route_dist [OF *(1)] and_power by simp
qed

lemma route_Suc:
  assumes "0 < n"
  shows "route dir n (Suc h) s d =
    (if odd (rank_dist dir n s d div 2 ^ h) then rank_shift dir n (route dir n h s d) (2 ^ h) else route dir n h s d)"
proof -
  let ?x = "rank_dist dir n s d"
  have "?x mod 2 ^ Suc h = ?x mod 2 ^ h + (if odd (?x div 2 ^ h) then 2 ^ h else 0)"
    using mod_mult2_eq [of ?x "2 ^ h" 2] by (simp add: mult.commute mod2_eq_if)
  then show ?thesis using assms by (simp add: route_def shift_shift)
qed

section \<open>The rounds\<close>

text \<open>\<open>A\<close> is everything that is sent. Before round \<open>h\<close> a rank holds the items that are on its place of
  their route and were not there in an earlier round; the others have been delivered.\<close>

definition under_way :: "kvtree_exchange_enum \<Rightarrow> nat \<Rightarrow> nat \<Rightarrow> nat \<Rightarrow> nat \<Rightarrow> bool" where
  "under_way dir n h s d \<longleftrightarrow> h = 0 \<or> 2 ^ (h - 1) \<le> rank_dist dir n s d"

definition held :: "kvtree_exchange_enum \<Rightarrow> nat \<Rightarrow> (nat \<times> nat \<times> kvpath) set \<Rightarrow> nat \<Rightarrow> nat \<Rightarrow>
    (nat \<times> nat \<times> kvpath) set" where
  "held dir n A h i = {(d, s, q) \<in> A. route dir n h s d = i \<and> under_way dir n h s d}"

definition arrived :: "kvtree_exchange_enum \<Rightarrow> nat \<Rightarrow> (nat \<times> nat \<times> kvpath) set \<Rightarrow> nat \<Rightarrow> nat \<Rightarrow> kvpath set" where
  "arrived dir n A h i = {rank_key s # q | s q. (i, s, q) \<in> A \<and> \<not> under_way dir n h s i}"

lemma under_way_Suc: "under_way dir n (Suc h) s d \<longleftrightarrow> 2 ^ h \<le> rank_dist dir n s d"
  by (simp add: under_way_def)

lemma under_way_mono: "under_way dir n (Suc h) s d \<Longrightarrow> under_way dir n h s d"
  by (cases h) (auto simp: under_way_def intro: order_trans [rotated])

lemma held_0: "bounded n A \<Longrightarrow> (\<And>d s q. (d, s, q) \<in> A \<Longrightarrow> s < n) \<Longrightarrow>
  held dir n A 0 i = {(d, s, q) \<in> A. s = i}"
  by (auto simp: held_def under_way_def route_0)

lemma held_bounded: "bounded n A \<Longrightarrow> bounded n (held dir n A h i)"
  by (auto simp: bounded_def held_def)

lemma arrived_0: "arrived dir n A 0 i = {}"
  by (simp add: arrived_def under_way_def)

lemma arrived_Suc:
  assumes "0 < n" and "i < n"
  shows "arrived dir n A (Suc h) i = arrived dir n A h i \<union> {rank_key s # q | s q. (i, s, q) \<in> held dir n A h i}"
proof -
  have "\<not> under_way dir n (Suc h) s i \<longleftrightarrow> \<not> under_way dir n h s i \<or> route dir n h s i = i \<and> under_way dir n h s i" for s
    using route_arrived [OF assms, of dir h s] under_way_mono [of dir n h s i] by (auto simp: under_way_Suc not_le)
  note * = this
  show ?thesis unfolding arrived_def held_def using * by (simp add: set_eq_iff) blast
qed

lemma shift_back:
  assumes "0 < n" and "i < n" and "j < n"
  shows "rank_shift dir n j k = i \<longleftrightarrow> j = rank_shift dir n i (- k)"
  using assms by (auto simp: shift_shift shift_0)

lemma held_Suc:
  fixes dir :: kvtree_exchange_enum and n h i :: nat
  assumes "0 < n" and "i < n" and "bounded n A"
  defines "far \<equiv> \<lambda>j d. exch_dist dir (int n) (int j) (int d) AND 2 ^ h \<noteq> 0"
    and "src \<equiv> rank_shift dir n i (- (2 ^ h))"
  shows "held dir n A (Suc h) i =
    {(d, s, q) \<in> held dir n A h i. d \<noteq> i \<and> \<not> far i d} \<union> {(d, s, q) \<in> held dir n A h src. d \<noteq> src \<and> far src d}"
proof -
  have "route dir n (Suc h) s d = i \<and> under_way dir n (Suc h) s d \<longleftrightarrow>
      (route dir n h s d = i \<and> under_way dir n h s d) \<and> d \<noteq> i \<and> \<not> far i d \<or>
      (route dir n h s d = src \<and> under_way dir n h s d) \<and> d \<noteq> src \<and> far src d"
    if "(d, s, q) \<in> A" for d s q
  proof -
    have d: "d < n" using that assms(3) by (auto simp: bounded_def)
    let ?j = "route dir n h s d"
    have far: "far ?j d \<longleftrightarrow> odd (rank_dist dir n s d div 2 ^ h)"
      unfolding far_def using route_far [OF assms(1) d] .
    have way: "under_way dir n (Suc h) s d \<longleftrightarrow> under_way dir n h s d \<and> d \<noteq> ?j"
      using route_arrived [OF assms(1) d, of dir h s] under_way_mono [of dir n h s d] by (auto simp: under_way_Suc)
    have "rank_shift dir n ?j (2 ^ h) = i \<longleftrightarrow> ?j = src"
      unfolding src_def using shift_back [OF assms(1,2) route_less [OF assms(1)]] .
    then have "route dir n (Suc h) s d = i \<longleftrightarrow> (if far ?j d then ?j = src else ?j = i)"
      using route_Suc [OF assms(1), of dir h s d] far by simp
    with way show ?thesis by (cases "far ?j d") auto
  qed
  note * = this
  show ?thesis
  proof (rule set_eqI)
    fix x :: "nat \<times> nat \<times> kvpath"
    obtain d s q where x: "x = (d, s, q)" by (cases x)
    show "x \<in> held dir n A (Suc h) i \<longleftrightarrow> x \<in> {(d, s, q) \<in> held dir n A h i. d \<noteq> i \<and> \<not> far i d} \<union>
        {(d, s, q) \<in> held dir n A h src. d \<noteq> src \<and> far src d}"
      unfolding x held_def using * [of d s q] by (cases "(d, s, q) \<in> A") simp_all
  qed
qed

text \<open>All trees an exchange sends are part of the tree of everything.\<close>

definition traffic :: "(nat \<times> nat \<times> kvpath) set \<Rightarrow> nat" where
  "traffic A = (\<Sum>p \<in> routed A. path_cost p)"

lemma holds_size:
  assumes "holds (Some t) W" and "W \<subseteq> A" and "finite A"
  shows "kvtree_pack_size (Some t) \<le> traffic A"
proof -
  have "finite (routed A)" using assms(3) by (auto simp: routed_def)
  moreover have "routed W \<subseteq> routed A" using assms(2) by (rule routed_mono)
  ultimately show ?thesis
    using assms(1) by (auto simp: holds_def traffic_def pack_size_cost intro: sum_mono2)
qed

lemma holds_unpacked: "holds (Some t) W \<Longrightarrow> holds (Some (unpacked t)) W"
  by (auto simp: holds_def kvtree_wf_unpacked kvtree_paths_unpacked)

lemma holds_merge:
  assumes "holds (Some s) V" and "holds (Some t) W"
  shows "holds (snd (kvtree_merge (Some s) (Some t))) (V \<union> W)"
proof -
  have "kvtree_wf s" "kvtree_wf t" using assms by (auto simp: holds_def)
  then obtain u where "kvtree_merge (Some s) (Some t) = (KVTREE_SUCCESS, Some u)" "kvtree_wf u"
    "kvtree_paths u = kvtree_paths s \<union> kvtree_paths t" using merge_eq [of s "Some t"] by auto
  with assms show ?thesis by (simp add: holds_def routed_Un)
qed

text \<open>The state of all ranks before round \<open>h\<close>.\<close>

definition round_inv ::
  "kvtree_exchange_enum \<Rightarrow> nat \<Rightarrow> (nat \<times> nat \<times> kvpath) set \<Rightarrow> (nat \<Rightarrow> kvpath set) \<Rightarrow> nat \<Rightarrow>
     (nat \<Rightarrow> kvtree option \<times> kvtree option) \<Rightarrow> bool" where
  "round_inv dir n A B h st \<longleftrightarrow>
     (\<forall>i < n. holds (fst (st i)) (held dir n A h i) \<and>
        (\<exists>t. snd (st i) = Some t \<and> kvtree_wf t \<and> kvtree_paths t = B i \<union> arrived dir n A h i))"

lemma round_partners:
  assumes "i < n" and "0 \<le> k" and "k < int n"
  shows "(let left = int i - k; left = (if left < 0 then left + int n else left);
              right = int i + k; right = (if int n \<le> right then right - int n else right)
          in if dir = KVTREE_EXCHANGE_RIGHT then (right, left) else (left, right)) =
    (int (rank_shift dir n i k), int (rank_shift dir n i (- k)))"
  using partners [OF assms] assms by (simp add: Let_def int_shift dir_sign_def)

text \<open>What the split of one rank's data in round \<open>h\<close> yields.\<close>

definition split_into ::
  "kvtree_exchange_enum \<Rightarrow> nat \<Rightarrow> (nat \<times> nat \<times> kvpath) set \<Rightarrow> (nat \<Rightarrow> kvpath set) \<Rightarrow> nat \<Rightarrow>
     (nat \<Rightarrow> kvtree option \<times> kvtree option) \<Rightarrow> nat \<Rightarrow> kvtree \<Rightarrow> kvtree \<Rightarrow> kvtree \<Rightarrow> bool" where
  "split_into dir n A B h st i o1 sd kp \<longleftrightarrow>
     exchange_split dir (int i) (int n) (2 ^ h) (hash_elems (kvtree_get (fst (st i)) (Some ''D'')))
       (snd (st i)) (Some kvtree_new) (Some kvtree_new) = Some (Some o1, Some sd, Some kp) \<and>
     kvtree_wf o1 \<and> kvtree_paths o1 = B i \<union> arrived dir n A (Suc h) i \<and>
     holds (Some sd) {(d, s, q) \<in> held dir n A h i. d \<noteq> i \<and> exch_dist dir (int n) (int i) (int d) AND 2 ^ h \<noteq> 0} \<and>
     holds (Some kp) {(d, s, q) \<in> held dir n A h i. d \<noteq> i \<and> exch_dist dir (int n) (int i) (int d) AND 2 ^ h = 0}"

lemma round_split_into:
  assumes "round_inv dir n A B h st" and "i < n" and "n \<le> 2 ^ 31" and "bounded n A"
  shows "\<exists>o1 sd kp. split_into dir n A B h st i o1 sd kp"
proof -
  obtain t where t: "holds (fst (st i)) (held dir n A h i)" "snd (st i) = Some t" "kvtree_wf t"
    "kvtree_paths t = B i \<union> arrived dir n A h i" using assms by (auto simp: round_inv_def)
  have "0 < n" using assms(2) by simp
  then show ?thesis
    using round_split [OF t(1) held_bounded [OF assms(4)] assms(3,2) t(3), of dir "2 ^ h"] t(2,4)
    by (simp add: split_into_def arrived_Suc [OF _ assms(2)] Un_assoc)
qed

lemma loop_round:
  assumes n: "n \<le> 2 ^ 30" "2 ^ h < int n" and A: "bounded n A" "finite A" "int (traffic A) \<le> INT_MAX"
    and go: "hops < 0 \<or> int h < hops" and inv: "round_inv dir n A B h st"
  shows "\<exists>st'. round_inv dir n A B (Suc h) st' \<and>
    (\<forall>r. does n eager red (\<lambda>i. exchange_loop (e i) (junk i) (int i) (int n) dir hops (2 ^ Suc h) (2 ^ Suc h) (int (Suc h))
             (fst (st' i)) (snd (st' i))) r \<longrightarrow>
         does n eager red (\<lambda>i. exchange_loop (e i) (junk i) (int i) (int n) dir hops (2 ^ h) (2 ^ h) (int h)
             (fst (st i)) (snd (st i))) r)"
proof -
  have n0: "0 < n" and n31: "n \<le> 2 ^ 31" using n by auto
  let ?dst = "\<lambda>i. rank_shift dir n i (2 ^ h)"
  let ?src = "\<lambda>i. rank_shift dir n i (- (2 ^ h))"
  obtain o1 sd kp where parts: "\<And>i. i < n \<Longrightarrow> split_into dir n A B h st i (o1 i) (sd i) (kp i)"
    using round_split_into [OF inv _ n31 A(1)] by metis
  note split = parts [unfolded split_into_def]
  let ?st = "\<lambda>i. (snd (kvtree_merge (Some (kp i)) (Some (unpacked (sd (?src i))))), Some (o1 i))"
  have src: "?src i < n" "?dst i < n" "?src (?dst i) = i" "?dst (?src i) = i" if "i < n" for i
    using that n0 by (simp_all add: shift_less shift_shift shift_0)
  have "round_inv dir n A B (Suc h) ?st"
    unfolding round_inv_def
  proof (intro allI impI conjI)
    fix i
    assume i: "i < n"
    show "holds (fst (?st i)) (held dir n A (Suc h) i)"
      using holds_merge [of "kp i" _ "unpacked (sd (?src i))"] holds_unpacked split [OF i] split [OF src(1) [OF i]]
        held_Suc [OF n0 i A(1), of dir h] by simp
    show "\<exists>t. snd (?st i) = Some t \<and> kvtree_wf t \<and> kvtree_paths t = B i \<union> arrived dir n A (Suc h) i"
      using split [OF i] by simp
  qed
  moreover have "does n eager red (\<lambda>i. exchange_loop (e i) (junk i) (int i) (int n) dir hops (2 ^ h) (2 ^ h) (int h)
             (fst (st i)) (snd (st i))) r"
    if "does n eager red (\<lambda>i. exchange_loop (e i) (junk i) (int i) (int n) dir hops (2 ^ Suc h) (2 ^ Suc h) (int (Suc h))
             (fst (?st i)) (snd (?st i))) r" for r
  proof -
    let ?next = "\<lambda>i (_, recv). exchange_loop (e i) (junk i) (int i) (int n) dir hops (2 ^ Suc h) (2 ^ Suc h) (int (Suc h))
             (snd (kvtree_merge (Some (kp i)) recv)) (Some (o1 i))"
    have "int n \<le> 2 ^ 30" using n(1) by simp
    then have h: "(2 :: int) ^ h < 2 ^ 30" using n(2) by linarith
    have prog: "exchange_loop (e i) (junk i) (int i) (int n) dir hops (2 ^ h) (2 ^ h) (int h) (fst (st i)) (snd (st i)) =
        seq (kvtree_sendrecv (e i) (junk i) (Some (sd i)) (Some (?dst i)) (Some kvtree_new) (Some (?src i))) (?next i)"
      if i: "i < n" for i
    proof -
      note p = round_partners [OF i, of "2 ^ h" dir, unfolded Let_def]
      have pos: "(2 :: int) ^ h < 1 \<longleftrightarrow> False" by (simp add: not_less)
      show ?thesis
        using n go split [OF i] h p
        by (subst exchange_loop.simps) (simp add: Let_def INT_MAX_def ac_simps pos)
    qed
    have sz: "kvtree_wf (sd i) \<and> int (kvtree_pack_size (Some (sd i))) \<le> INT_MAX" if i: "i < n" for i
    proof -
      have "kvtree_pack_size (Some (sd i)) \<le> traffic A"
        using split [OF i] by (intro holds_size [OF _ _ A(2)]) (auto simp: held_def)
      then show ?thesis using A(3) split [OF i] by (auto simp: holds_def)
    qed
    have "does n eager red (\<lambda>i. seq (kvtree_sendrecv (e i) (junk i) (Some (sd i)) (Some (?dst i)) (Some kvtree_new) (Some (?src i))) (?next i)) r"
      by (rule does_seq [OF does_sendrecv]) (use src sz that in auto)
    then show ?thesis by (subst does_cong [OF prog])
  qed
  ultimately show ?thesis by blast
qed

lemma loop_all:
  assumes n: "n \<le> 2 ^ 30" and A: "bounded n A" "finite A" "int (traffic A) \<le> INT_MAX"
    and inv: "round_inv dir n A B h st"
  shows "\<exists>H st'. round_inv dir n A B H st' \<and> \<not> (2 ^ H < int n \<and> (hops < 0 \<or> int H < hops)) \<and>
    does n eager red (\<lambda>i. exchange_loop (e i) (junk i) (int i) (int n) dir hops (2 ^ h) (2 ^ h) (int h)
        (fst (st i)) (snd (st i))) st'"
  using inv
proof (induction "nat (int n - 2 ^ h)" arbitrary: h st rule: less_induct)
  case less
  show ?case
  proof (cases "2 ^ h < int n \<and> (hops < 0 \<or> int h < hops)")
    case False
    then have "exchange_loop (e i) (junk i) (int i) (int n) dir hops (2 ^ h) (2 ^ h) (int h) (fst (st i)) (snd (st i)) = Ret (st i)" for i
      by (subst exchange_loop.simps) (simp only: not_not if_True if_False simp_thms prod.collapse)
    then show ?thesis using less.prems False by (blast intro: does_Ret)
  next
    case True
    then obtain st1 where st1: "round_inv dir n A B (Suc h) st1"
      "\<And>r. does n eager red (\<lambda>i. exchange_loop (e i) (junk i) (int i) (int n) dir hops (2 ^ Suc h) (2 ^ Suc h) (int (Suc h))
             (fst (st1 i)) (snd (st1 i))) r \<Longrightarrow>
         does n eager red (\<lambda>i. exchange_loop (e i) (junk i) (int i) (int n) dir hops (2 ^ h) (2 ^ h) (int h)
             (fst (st i)) (snd (st i))) r"
      using loop_round [OF n _ A _ less.prems, of hops eager red e junk] by blast
    have "nat (int n - 2 ^ Suc h) < nat (int n - 2 ^ h)" using True by simp
    from less.hyps [OF this st1(1)] st1(2) show ?thesis by blast
  qed
qed

lemma rank_hash_paths:
  assumes "holds cur W" and "bounded n W" and "n \<le> 2 ^ 31" and "i < n"
  shows "hash_wf (kvtree_get (kvtree_get_kv_int cur (Some ''D'') (int i)) (Some ''S''))"
    and "hash_paths (kvtree_get (kvtree_get_kv_int cur (Some ''D'') (int i)) (Some ''S'')) =
      insert [] {rank_key s # q | s q. (i, s, q) \<in> W}"
proof -
  obtain t where t: "cur = Some t" "kvtree_wf t" "kvtree_paths t = routed W" using assms(1) by (auto simp: holds_def)
  let ?D = "kvtree_get_kv_int cur (Some ''D'') (int i)"
  have D: "?D = kvtree_get (kvtree_get cur (Some ''D'')) (Some (rank_key i))"
    by (auto simp: kvtree_get_kv_int_def kvtree_get_kv_def t(1) rank_key_def split: option.splits)
  have wf: "hash_wf ?D" unfolding D using t by (intro kvtree_get_wf) simp
  then show "hash_wf (kvtree_get ?D (Some ''S''))" by (rule kvtree_get_wf)
  have "{p. ''S'' # p \<in> hash_paths ?D} \<union> {[]} = insert [] {p. ''D'' # rank_key i # ''S'' # p \<in> routed W}"
  proof (cases ?D)
    case None
    have "''D'' # rank_key i # ''S'' # p \<notin> kvtree_paths t" for p
    proof (cases "kvtree_get cur (Some ''D'')")
      case None
      then show ?thesis using get_none_paths [OF t(2)] t(1) by blast
    next
      case (Some h)
      then have h: "kvtree_wf h" "kvtree_paths h = {p. ''D'' # p \<in> kvtree_paths t}"
        using get_paths_eq [OF t(2)] kvtree_get_wf [of cur "Some ''D''"] t by simp_all
      have "kvtree_get (Some h) (Some (rank_key i)) = None" using None D Some by simp
      from get_none_paths [OF h(1) this, of "''S'' # p"] h(2) show ?thesis by auto
    qed
    then show ?thesis using None t(3) by auto
  next
    case (Some s)
    then obtain h where h: "kvtree_get cur (Some ''D'') = Some h" "kvtree_get (Some h) (Some (rank_key i)) = Some s"
      using D by (cases "kvtree_get cur (Some ''D'')") auto
    have "kvtree_lookup (Some t) [''D'', rank_key i] = Some s" using h t(1) by simp
    from lookup_paths(2) [OF t(2) this] t(3) Some show ?thesis by auto
  qed
  moreover have "''D'' # rank_key i # ''S'' # p \<in> routed W \<longleftrightarrow> (\<exists>s q. (i, s, q) \<in> W \<and> (p = [] \<or> p = rank_key s # q))" for p
    using routed_mem [OF assms(2,3,4), of "''S'' # p"] by auto
  ultimately show "hash_paths (kvtree_get ?D (Some ''S'')) = insert [] {rank_key s # q | s q. (i, s, q) \<in> W}"
    unfolding get_S_paths [OF wf] by auto
qed

section \<open>The whole exchange in one direction\<close>

text \<open>What the trees given to the ranks send: from \<open>s\<close> to \<open>d\<close> what is under the key \<open>d\<close>.\<close>

definition outgoing :: "nat \<Rightarrow> (nat \<Rightarrow> kvtree) \<Rightarrow> (nat \<times> nat \<times> kvpath) set" where
  "outgoing n hs = {(d, s, q). d < n \<and> s < n \<and> rank_key d # q \<in> kvtree_paths (hs s)}"

lemma outgoing_bounded: "bounded n (outgoing n hs)"
  by (auto simp: outgoing_def bounded_def)

lemma outgoing_finite: "finite (outgoing n hs)"
proof -
  have "outgoing n hs \<subseteq> {..<n} \<times> {..<n} \<times> (\<Union>s < n. tl ` kvtree_paths (hs s))"
    by (force simp: outgoing_def)
  then show ?thesis by (rule finite_subset) simp
qed

lemma setup_outgoing:
  assumes "indexed_by_ranks n (hs i)" and "i < n" and "n \<le> 2 ^ 31"
  shows "\<exists>cur. exchange_setup (int i) (hash_elems (Some (hs i))) (Some kvtree_new) = Some cur \<and>
    holds cur (held dir n (outgoing n hs) 0 i)"
proof -
  have wf: "kvtree_wf (hs i)" and keys: "rank_keys n (elems (hs i))"
    using assms(1) rank_keys_tree by (auto simp: indexed_by_ranks_def)
  have "held dir n (outgoing n hs) 0 i = {(d, s', q). s' = i \<and> (d, q) \<in> elem_items n (elems (hs i))}"
    using assms(2) by (subst held_0 [OF outgoing_bounded]) (auto simp: outgoing_def elem_items_tree [OF wf])
  then show ?thesis
    using setup_all [OF holds_new keys assms(3), of i] by (simp add: hash_elems_def)
qed

definition delivered :: "nat \<Rightarrow> (nat \<times> nat \<times> kvpath) set \<Rightarrow> (nat \<Rightarrow> kvtree) \<Rightarrow> (nat \<Rightarrow> kvtree) \<Rightarrow> bool" where
  "delivered n A ho u \<longleftrightarrow> (\<forall>i < n. kvtree_wf (u i) \<and>
     kvtree_paths (u i) = kvtree_paths (ho i) \<union> {rank_key s # q | s q. (i, s, q) \<in> A})"

lemma enough_rounds:
  assumes "(d, s, q) \<in> outgoing n hs" and "\<not> (2 ^ H < int n \<and> (hops < 0 \<or> int H < hops))"
    and "hops < 0 \<or> (\<forall>(d, s, q) \<in> outgoing n hs. rank_dist dir n s d < 2 ^ nat hops)"
  shows "rank_dist dir n s d < 2 ^ H"
proof (cases "2 ^ H < int n")
  case True
  then have "0 \<le> hops" "nat hops \<le> H" using assms(2) by auto
  then have "rank_dist dir n s d < 2 ^ nat hops" using assms(1,3) by auto
  also have "\<dots> \<le> 2 ^ H" using \<open>nat hops \<le> H\<close> by simp
  finally show ?thesis .
next
  case False
  then have "n \<le> 2 ^ H" by (simp add: not_less)
  then show ?thesis using dist_less [of n dir s d] assms(1) by (auto simp: outgoing_def)
qed

text \<open>The copy of what is left for this rank, after the last round.\<close>

definition last_copy :: "nat \<Rightarrow> kvtree option \<times> kvtree option \<Rightarrow> (int \<times> kvtree option) proc" where
  "last_copy i = (\<lambda>(current, hash_out). Ret (KVTREE_SUCCESS, snd (kvtree_merge hash_out
      (kvtree_get (kvtree_get_kv_int current (Some ''D'') (int i)) (Some ''S'')))))"

lemma last_copy_ok:
  assumes inv: "round_inv dir n A (\<lambda>i. kvtree_paths (ho i)) H st" and i: "i < n" and n: "n \<le> 2 ^ 31"
    and A: "bounded n A" and near: "\<And>d s q. (d, s, q) \<in> A \<Longrightarrow> rank_dist dir n s d < 2 ^ H"
  shows "\<exists>u. last_copy i (st i) = Ret (KVTREE_SUCCESS, Some u) \<and> kvtree_wf u \<and>
    kvtree_paths u = kvtree_paths (ho i) \<union> {rank_key s # q | s q. (i, s, q) \<in> A}"
proof -
  obtain c t where c: "st i = (c, Some t)" "holds c (held dir n A H i)" "kvtree_wf t"
    "kvtree_paths t = kvtree_paths (ho i) \<union> arrived dir n A H i"
    using inv i by (cases "st i") (auto simp: round_inv_def)
  note S = rank_hash_paths [OF c(2) held_bounded [OF A] n i]
  obtain u where u: "kvtree_merge (Some t) (kvtree_get (kvtree_get_kv_int c (Some ''D'') (int i)) (Some ''S'')) =
      (KVTREE_SUCCESS, Some u)" "kvtree_wf u"
    "kvtree_paths u = kvtree_paths t \<union>
      hash_paths (kvtree_get (kvtree_get_kv_int c (Some ''D'') (int i)) (Some ''S''))"
    by (rule merge_eq [OF c(3) S(1)])
  have "kvtree_paths u = kvtree_paths (ho i) \<union> arrived dir n A (Suc H) i"
    unfolding u(3) S(2) c(4) using i by (auto simp: arrived_Suc)
  also have "arrived dir n A (Suc H) i = {rank_key s # q | s q. (i, s, q) \<in> A}"
    using near by (fastforce simp: arrived_def under_way_Suc)
  finally show ?thesis using u c(1) by (simp add: last_copy_def)
qed

lemma direction_hops_prog:
  "exchange_setup (int i) (hash_elems hash_in) (Some kvtree_new) = Some c \<Longrightarrow>
    kvtree_exchange_direction_hops e junk i n hash_in hash_out dir hops =
    seq (exchange_loop e junk (int i) (int n) dir hops 1 1 0 c hash_out) (last_copy i)"
  by (simp add: kvtree_exchange_direction_hops_def last_copy_def Let_def)

lemma does_direction_hops:
  assumes n: "n \<le> 2 ^ 30" and hs: "\<And>i. i < n \<Longrightarrow> indexed_by_ranks n (hs i)" and ho: "\<And>i. i < n \<Longrightarrow> kvtree_wf (ho i)"
    and size: "int (traffic (outgoing n hs)) \<le> INT_MAX"
    and hops: "hops < 0 \<or> (\<forall>(d, s, q) \<in> outgoing n hs. rank_dist dir n s d < 2 ^ nat hops)"
  shows "\<exists>u. does n eager red
      (\<lambda>i. kvtree_exchange_direction_hops (e i) (junk i) i n (Some (hs i)) (Some (ho i)) dir hops)
      (\<lambda>i. (KVTREE_SUCCESS, Some (u i))) \<and> delivered n (outgoing n hs) ho u"
proof -
  let ?A = "outgoing n hs"
  have n31: "n \<le> 2 ^ 31" using n by simp
  have "\<forall>i. \<exists>c. i < n \<longrightarrow>
      exchange_setup (int i) (hash_elems (Some (hs i))) (Some kvtree_new) = Some c \<and> holds c (held dir n ?A 0 i)"
    using setup_outgoing [of n hs _ dir] hs n31 by simp
  from choice [OF this] obtain cur where cur: "\<And>i. i < n \<Longrightarrow>
      exchange_setup (int i) (hash_elems (Some (hs i))) (Some kvtree_new) = Some (cur i) \<and> holds (cur i) (held dir n ?A 0 i)"
    by blast
  have inv0: "round_inv dir n ?A (\<lambda>i. kvtree_paths (ho i)) 0 (\<lambda>i. (cur i, Some (ho i)))"
    using cur ho by (simp add: round_inv_def arrived_0)
  obtain H st where st: "round_inv dir n ?A (\<lambda>i. kvtree_paths (ho i)) H st"
    "\<not> (2 ^ H < int n \<and> (hops < 0 \<or> int H < hops))"
    "does n eager red (\<lambda>i. exchange_loop (e i) (junk i) (int i) (int n) dir hops 1 1 0 (cur i) (Some (ho i))) st"
    using loop_all [OF n outgoing_bounded outgoing_finite size inv0, of hops eager red e junk] by auto
  note near = enough_rounds [OF _ st(2) hops]
  have "\<forall>i. \<exists>u. i < n \<longrightarrow> last_copy i (st i) = Ret (KVTREE_SUCCESS, Some u) \<and> kvtree_wf u \<and>
      kvtree_paths u = kvtree_paths (ho i) \<union> {rank_key s # q | s q. (i, s, q) \<in> ?A}"
    using last_copy_ok [OF st(1) _ n31 outgoing_bounded near] by simp
  from choice [OF this] obtain u where u: "\<And>i. i < n \<Longrightarrow> last_copy i (st i) = Ret (KVTREE_SUCCESS, Some (u i)) \<and> kvtree_wf (u i) \<and>
      kvtree_paths (u i) = kvtree_paths (ho i) \<union> {rank_key s # q | s q. (i, s, q) \<in> ?A}" by blast
  have "does n eager red (\<lambda>i. last_copy i (st i)) (\<lambda>i. (KVTREE_SUCCESS, Some (u i)))"
    by (rule does_Ret) (use u in simp)
  from does_seq [where f = last_copy, OF st(3) this]
  have "does n eager red (\<lambda>i. kvtree_exchange_direction_hops (e i) (junk i) i n (Some (hs i)) (Some (ho i)) dir hops)
      (\<lambda>i. (KVTREE_SUCCESS, Some (u i)))"
    by (subst does_cong [OF direction_hops_prog]) (use cur in auto)
  with u show ?thesis unfolding delivered_def by blast
qed

section \<open>Choosing a direction\<close>

lemma mod_power_Suc:
  "x mod 2 ^ Suc h = x mod 2 ^ h + (if odd (x div 2 ^ h) then 2 ^ h else 0)" for x :: nat
  using mod_mult2_eq [of x "2 ^ h" 2] by (simp add: mult.commute mod2_eq_if)

text \<open>The step count of a distance bounds its highest bit.\<close>

lemma steps_bound:
  assumes "x mod 2 ^ h < 2 ^ nat sl" and "0 \<le> sl"
  shows "let sl' = (if int x AND 2 ^ h \<noteq> 0 then int h + 1 else sl) in x mod 2 ^ Suc h < 2 ^ nat sl' \<and> 0 \<le> sl'"
proof -
  have "x mod 2 ^ Suc h < 2 ^ Suc h" by simp
  then show ?thesis
    using assms mod_power_Suc [of x h] by (auto simp: Let_def and_power nat_add_distrib simp del: power_Suc)
qed

lemma count_hops_ok:
  assumes "n \<le> 2 ^ 30" and "x mod 2 ^ h < 2 ^ nat sl" and "0 \<le> sl" and "y mod 2 ^ h < 2 ^ nat sr" and "0 \<le> sr"
  shows "\<exists>H a' b' sl' sr'. count_hops (int x) (int y) (int n) (2 ^ h) (int h + 1) (a, b, sl, sr) = Some (a', b', sl', sr') \<and>
    int n \<le> 2 ^ H \<and> x mod 2 ^ H < 2 ^ nat sl' \<and> 0 \<le> sl' \<and> y mod 2 ^ H < 2 ^ nat sr' \<and> 0 \<le> sr'"
  using assms(2-)
proof (induction "nat (int n - 2 ^ h)" arbitrary: h a b sl sr rule: less_induct)
  case less
  show ?case
  proof (cases "2 ^ h < int n")
    case False
    then show ?thesis using less.prems by (subst count_hops.simps) (auto simp: not_less)
  next
    case True
    let ?sl = "if int x AND 2 ^ h \<noteq> 0 then int h + 1 else sl"
    let ?sr = "if int y AND 2 ^ h \<noteq> 0 then int h + 1 else sr"
    let ?a = "if int x AND 2 ^ h \<noteq> 0 then a + 1 else a"
    let ?b = "if int y AND 2 ^ h \<noteq> 0 then b + 1 else b"
    have s: "x mod 2 ^ Suc h < 2 ^ nat ?sl" "0 \<le> ?sl" "y mod 2 ^ Suc h < 2 ^ nat ?sr" "0 \<le> ?sr"
      using steps_bound [OF less.prems(1,2)] steps_bound [OF less.prems(3,4)] by (simp_all add: Let_def)
    have "int n \<le> 2 ^ 30" using assms(1) by simp
    then have small: "\<not> INT_MAX < 2 ^ h * 2" "(2 :: int) ^ h < 1 \<longleftrightarrow> False"
      using True by (simp add: INT_MAX_def not_less, linarith?, simp add: not_less)
    have "nat (int n - 2 ^ Suc h) < nat (int n - 2 ^ h)" using True by simp
    from less.hyps [OF this s, of ?a ?b]
    show ?thesis using True small
      by (subst count_hops.simps) (auto simp: Let_def mult.commute add.commute split: if_splits)
  qed
qed

lemma count_hops_dist:
  assumes "n \<le> 2 ^ 30" and "x < n" and "y < n"
  shows "\<exists>a b sl sr. count_hops (int x) (int y) (int n) 1 1 (0, 0, 0, 0) = Some (a, b, sl, sr) \<and>
    x < 2 ^ nat sl \<and> 0 \<le> sl \<and> y < 2 ^ nat sr \<and> 0 \<le> sr"
proof -
  obtain H a b sl sr where r: "count_hops (int x) (int y) (int n) 1 1 (0, 0, 0, 0) = Some (a, b, sl, sr)"
    "int n \<le> 2 ^ H" "x mod 2 ^ H < 2 ^ nat sl" "0 \<le> sl" "y mod 2 ^ H < 2 ^ nat sr" "0 \<le> sr"
    using count_hops_ok [OF assms(1), of x 0 0 y 0 0 0] by auto
  have "n \<le> 2 ^ H" using r(2) by (metis of_nat_le_iff of_nat_numeral of_nat_power)
  then have "x mod 2 ^ H = x" "y mod 2 ^ H = y" using assms by simp_all
  with r show ?thesis by auto
qed

text \<open>One destination is added to the left or to the right tree.\<close>

lemma assign_step:
  assumes n: "n \<le> 2 ^ 30" and "i < n" and d: "d < n" and h: "hash_wf h" and wf: "kvtree_wf l" "kvtree_wf r"
    and fresh: "\<And>q. rank_key d # q \<notin> kvtree_paths l \<union> kvtree_paths r" and m: "0 \<le> ml" "0 \<le> mr"
  shows "\<exists>l' r' ml' mr'. kvtree_wf l' \<and> kvtree_wf r' \<and> ml \<le> ml' \<and> mr \<le> mr' \<and>
    (kvtree_paths l' = kvtree_paths l \<union> (#) (rank_key d) ` hash_paths h \<and> kvtree_paths r' = kvtree_paths r \<and>
       rank_dist KVTREE_EXCHANGE_LEFT n i d < 2 ^ nat ml' \<or>
     kvtree_paths l' = kvtree_paths l \<and> kvtree_paths r' = kvtree_paths r \<union> (#) (rank_key d) ` hash_paths h \<and>
       rank_dist KVTREE_EXCHANGE_RIGHT n i d < 2 ^ nat mr') \<and>
    (\<forall>es. exchange_assign (int i) (int n) (Kvtree_elem (Some (rank_key d)) h # es) (Some l, Some r, ml, mr) =
       exchange_assign (int i) (int n) es (Some l', Some r', ml', mr'))"
proof -
  have d31: "d < 2 ^ 31" and n0: "0 < n" using n d by auto
  have int: "to_int32 (int d - int i) = int d - int i" "to_int32 (int i - int d) = int i - int d"
    using assms(2) n d by (simp_all add: to_int32_id is_int32_def INT_MIN_def INT_MAX_def)
  let ?L = "rank_dist KVTREE_EXCHANGE_LEFT n i d" and ?R = "rank_dist KVTREE_EXCHANGE_RIGHT n i d"
  have dist: "(if i < d then int i - int d + int n else int i - int d) = int ?L"
    "(if d < i then int d - int i + int n else int d - int i) = int ?R"
    using exch_dist_eq [OF assms(2) d, of KVTREE_EXCHANGE_LEFT] exch_dist_eq [OF assms(2) d, of KVTREE_EXCHANGE_RIGHT]
    by (simp_all add: exch_dist_def Let_def)
  obtain a b sl sr where c: "count_hops (int ?L) (int ?R) (int n) 1 1 (0, 0, 0, 0) = Some (a, b, sl, sr)"
    "?L < 2 ^ nat sl" "0 \<le> sl" "?R < 2 ^ nat sr" "0 \<le> sr"
    using count_hops_dist [OF n dist_less [OF n0] dist_less [OF n0]] by blast
  obtain tmp where tmp: "kvtree_merge (Some kvtree_new) h = (KVTREE_SUCCESS, Some tmp)" "kvtree_wf tmp"
    "kvtree_paths tmp = hash_paths h"
    using merge_eq [OF kvtree_new_wf h] by (auto simp: insert_absorb)
  have step: "exchange_assign (int i) (int n) (Kvtree_elem (Some (rank_key d)) h # es) (Some l, Some r, ml, mr) =
      (if a < b then
         (case kvtree_setf (Some l) (Some tmp) ''%d'' [ArgInt (int d)] of
            Inl _ \<Rightarrow> None
          | Inr (l, _) \<Rightarrow> exchange_assign (int i) (int n) es (l, Some r, if ml < sl then sl else ml, mr))
       else
         (case kvtree_setf (Some r) (Some tmp) ''%d'' [ArgInt (int d)] of
            Inl _ \<Rightarrow> None
          | Inr (r, _) \<Rightarrow> exchange_assign (int i) (int n) es (Some l, r, ml, if mr < sr then sr else mr)))" for es
    using c(1) by (simp add: kvtree_elem_key_int_def kvtree_elem_hash_def atoi_key [OF d31] int dist tmp(1) Let_def
        cong: if_cong split del: if_split)
  have grow: "x < 2 ^ nat (if m < s then s else m)" if "x < 2 ^ nat s" for x :: nat and m s :: int
  proof -
    have "(2 :: nat) ^ nat s \<le> 2 ^ nat (if m < s then s else m)" by (auto intro!: power_increasing)
    then show ?thesis using that by linarith
  qed
  show ?thesis
  proof (cases "a < b")
    case True
    obtain u p where u: "kvtree_setf (Some l) (Some tmp) ''%d'' [ArgInt (int d)] = Inr (Some u, p)" "kvtree_wf u"
      "kvtree_paths u = kvtree_paths l \<union> (#) (rank_key d) ` hash_paths h"
      using setf_rank [OF wf(1) d31, of "Some tmp"] tmp fresh by auto
    show ?thesis
      by (rule exI [of _ u], rule exI [of _ r], rule exI [of _ "if ml < sl then sl else ml"], rule exI [of _ mr])
        (use True u wf(2) step grow [OF c(2), of ml] in simp)
  next
    case False
    obtain u p where u: "kvtree_setf (Some r) (Some tmp) ''%d'' [ArgInt (int d)] = Inr (Some u, p)" "kvtree_wf u"
      "kvtree_paths u = kvtree_paths r \<union> (#) (rank_key d) ` hash_paths h"
      using setf_rank [OF wf(2) d31, of "Some tmp"] tmp fresh by auto
    show ?thesis
      by (rule exI [of _ l], rule exI [of _ u], rule exI [of _ ml], rule exI [of _ "if mr < sr then sr else mr"])
        (use False u wf(1) step grow [OF c(4), of mr] in simp)
  qed
qed

text \<open>The loop: the trees together hold what the elements hold, and the step counts reach every distance.\<close>

definition assigned ::
  "nat \<Rightarrow> nat \<Rightarrow> kvtree_exchange_enum \<Rightarrow> kvtree \<Rightarrow> int \<Rightarrow> bool" where
  "assigned n i dir t m \<longleftrightarrow> kvtree_wf t \<and> 0 \<le> m \<and>
     (\<forall>p \<in> kvtree_paths t. p = [] \<or> (\<exists>d < n. \<exists>q. p = rank_key d # q \<and> rank_dist dir n i d < 2 ^ nat m))"

lemma assigned_grow:
  assumes "assigned n i dir t m" and "m \<le> m'" and "kvtree_wf t'"
    and "kvtree_paths t' = kvtree_paths t \<or> d < n \<and> kvtree_paths t' = kvtree_paths t \<union> (#) (rank_key d) ` H \<and> rank_dist dir n i d < 2 ^ nat m'"
  shows "assigned n i dir t' m'"
proof -
  have "x < 2 ^ nat m'" if "x < 2 ^ nat m" for x :: nat
    using that power_increasing [of "nat m" "nat m'" "2 :: nat"] assms(2) by linarith
  then show ?thesis using assms unfolding assigned_def by fastforce
qed

lemma assign_all:
  assumes n: "n \<le> 2 ^ 30" and i: "i < n"
    and "rank_keys n es" and "distinct (map elem_key es)"
    and "assigned n i KVTREE_EXCHANGE_LEFT l ml" and "assigned n i KVTREE_EXCHANGE_RIGHT r mr"
    and "\<And>x k q. x \<in> set es \<Longrightarrow> elem_key x = Some k \<Longrightarrow> k # q \<notin> kvtree_paths l \<union> kvtree_paths r"
  shows "\<exists>l' r' ml' mr'. exchange_assign (int i) (int n) es (Some l, Some r, ml, mr) = Some (Some l', Some r', ml', mr') \<and>
    assigned n i KVTREE_EXCHANGE_LEFT l' ml' \<and> assigned n i KVTREE_EXCHANGE_RIGHT r' mr' \<and>
    kvtree_paths l' \<union> kvtree_paths r' = kvtree_paths l \<union> kvtree_paths r \<union> (\<Union>x \<in> set es. elem_paths x)"
  using assms(3-)
proof (induction es arbitrary: l r ml mr)
  case Nil
  then show ?case by auto
next
  case (Cons x es)
  then obtain d h where x: "x = Kvtree_elem (Some (rank_key d)) h" and d: "d < n" and h: "hash_wf h" by (cases x) auto
  have wf: "kvtree_wf l" "kvtree_wf r" "0 \<le> ml" "0 \<le> mr" using Cons.prems(3,4) by (auto simp: assigned_def)
  have fresh: "rank_key d # q \<notin> kvtree_paths l \<union> kvtree_paths r" for q using Cons.prems(5) [of x] x by simp
  obtain l1 r1 ml1 mr1 where 1: "kvtree_wf l1" "kvtree_wf r1" "ml \<le> ml1" "mr \<le> mr1"
    "kvtree_paths l1 = kvtree_paths l \<union> (#) (rank_key d) ` hash_paths h \<and> kvtree_paths r1 = kvtree_paths r \<and>
       rank_dist KVTREE_EXCHANGE_LEFT n i d < 2 ^ nat ml1 \<or>
     kvtree_paths l1 = kvtree_paths l \<and> kvtree_paths r1 = kvtree_paths r \<union> (#) (rank_key d) ` hash_paths h \<and>
       rank_dist KVTREE_EXCHANGE_RIGHT n i d < 2 ^ nat mr1"
    "exchange_assign (int i) (int n) (x # es) (Some l, Some r, ml, mr) =
       exchange_assign (int i) (int n) es (Some l1, Some r1, ml1, mr1)"
    using assign_step [OF n i d h wf(1,2) fresh wf(3,4)] x by blast
  have a: "assigned n i KVTREE_EXCHANGE_LEFT l1 ml1" "assigned n i KVTREE_EXCHANGE_RIGHT r1 mr1"
    using assigned_grow [OF Cons.prems(3) 1(3,1)] assigned_grow [OF Cons.prems(4) 1(4,2)] 1(5) d by blast+
  have un: "kvtree_paths l1 \<union> kvtree_paths r1 = kvtree_paths l \<union> kvtree_paths r \<union> elem_paths x"
    using 1(5) x by auto
  have "k # q \<notin> kvtree_paths l1 \<union> kvtree_paths r1" if "y \<in> set es" "elem_key y = Some k" for y k q
  proof -
    have "k \<noteq> rank_key d" using Cons.prems(2) that x by (auto simp: image_iff) metis?
    then show ?thesis unfolding un using Cons.prems(5) [of y k q] that x by auto
  qed
  from Cons.IH [OF _ _ a this] Cons.prems(1,2) un 1(6) show ?case by (simp add: Un_assoc)
qed

section \<open>The exchange in both directions\<close>

lemma assigned_sends: "assigned n i dir t m \<Longrightarrow> indexed_by_ranks n t"
  unfolding assigned_def indexed_by_ranks_def by fastforce

lemma assign_tree:
  assumes "n \<le> 2 ^ 30" and "i < n" and "indexed_by_ranks n t"
  shows "\<exists>l r ml mr. exchange_assign (int i) (int n) (hash_elems (Some t)) (Some kvtree_new, Some kvtree_new, 0, 0) =
      Some (Some l, Some r, ml, mr) \<and>
    assigned n i KVTREE_EXCHANGE_LEFT l ml \<and> assigned n i KVTREE_EXCHANGE_RIGHT r mr \<and>
    kvtree_paths l \<union> kvtree_paths r = kvtree_paths t"
proof -
  have wf: "kvtree_wf t" and keys: "rank_keys n (elems t)"
    using assms(3) rank_keys_tree by (auto simp: indexed_by_ranks_def)
  have dist: "distinct (map elem_key (elems t))" using wf by (simp add: kvtree_wf_iff)
  have new: "assigned n i dir kvtree_new 0" for dir by (simp add: assigned_def)
  show ?thesis
    using assign_all [OF assms(1,2) keys dist new new] by (simp add: hash_elems_def paths_elems [of t])
qed

lemma outgoing_Un:
  "(\<And>i. i < n \<Longrightarrow> kvtree_paths (l i) \<union> kvtree_paths (r i) = kvtree_paths (hs i)) \<Longrightarrow>
     outgoing n l \<union> outgoing n r = outgoing n hs"
  unfolding outgoing_def by auto

lemma traffic_mono: "A \<subseteq> B \<Longrightarrow> finite B \<Longrightarrow> traffic A \<le> traffic B"
  unfolding traffic_def by (rule sum_mono2) (auto simp: routed_def)

lemma assigned_hops:
  assumes "\<And>i. i < n \<Longrightarrow> assigned n i dir (t i) (m i)" and "n \<le> 2 ^ 31"
  shows "\<forall>(d, s, q) \<in> outgoing n t. rank_dist dir n s d < 2 ^ nat (Max (m ` {..<n}))"
proof (clarsimp simp: outgoing_def)
  fix d s q
  assume *: "d < n" "s < n" "rank_key d # q \<in> kvtree_paths (t s)"
  then obtain d' where d': "d' < n" "rank_key d = rank_key d'" "rank_dist dir n s d' < 2 ^ nat (m s)"
    using assms(1) [OF *(2)] unfolding assigned_def by fastforce
  then have "d = d'" using * assms(2) by (subst (asm) rank_key_inj) auto
  moreover have "m s \<le> Max (m ` {..<n})" using *(2) by (intro Max_ge) auto
  then have "(2 :: nat) ^ nat (m s) \<le> 2 ^ nat (Max (m ` {..<n}))" by (intro power_increasing) auto
  ultimately show "rank_dist dir n s d < 2 ^ nat (Max (m ` {..<n}))"
    using order.strict_trans2 [OF d'(3)] by simp
qed

lemma both_directions:
  assumes n: "n \<le> 2 ^ 30" and ho: "\<And>i. i < n \<Longrightarrow> kvtree_wf (ho i)"
    and l: "\<And>i. i < n \<Longrightarrow> assigned n i KVTREE_EXCHANGE_LEFT (l i) (ml i)"
    and r: "\<And>i. i < n \<Longrightarrow> assigned n i KVTREE_EXCHANGE_RIGHT (r i) (mr i)"
    and size: "int (traffic (outgoing n l \<union> outgoing n r)) \<le> INT_MAX"
  shows "\<exists>u. does n eager red (\<lambda>i.
      seq (kvtree_exchange_direction_hops (e i) (junk i) i n (Some (l i)) (Some (ho i)) KVTREE_EXCHANGE_LEFT (Max (ml ` {..<n})))
        (\<lambda>(rc, recv).
      seq (kvtree_exchange_direction_hops (e i) (junk i) i n (Some (r i)) recv KVTREE_EXCHANGE_RIGHT (Max (mr ` {..<n})))
        (\<lambda>(right_rc, recv). Ret (if rc = KVTREE_SUCCESS then right_rc else rc, recv))))
      (\<lambda>i. (KVTREE_SUCCESS, Some (u i))) \<and> delivered n (outgoing n l \<union> outgoing n r) ho u"
proof -
  let ?L = "Max (ml ` {..<n})" and ?R = "Max (mr ` {..<n})"
  have n31: "n \<le> 2 ^ 31" using n by simp
  have "traffic (outgoing n l) \<le> traffic (outgoing n l \<union> outgoing n r)"
    "traffic (outgoing n r) \<le> traffic (outgoing n l \<union> outgoing n r)"
    by (auto intro!: traffic_mono outgoing_finite)
  then have sub: "int (traffic (outgoing n l)) \<le> INT_MAX" "int (traffic (outgoing n r)) \<le> INT_MAX"
    using size by linarith+
  obtain v where v: "does n eager red (\<lambda>i. kvtree_exchange_direction_hops (e i) (junk i) i n (Some (l i)) (Some (ho i))
        KVTREE_EXCHANGE_LEFT ?L) (\<lambda>i. (KVTREE_SUCCESS, Some (v i)))" "delivered n (outgoing n l) ho v"
    using does_direction_hops [where eager = eager and red = red and e = e and junk = junk and ho = ho,
      OF n assigned_sends [OF l] ho sub(1) disjI2 [OF assigned_hops [OF l n31]]] by blast
  have wf: "\<And>i. i < n \<Longrightarrow> kvtree_wf (v i)" using v(2) by (simp add: delivered_def)
  obtain u where u: "does n eager red (\<lambda>i. kvtree_exchange_direction_hops (e i) (junk i) i n (Some (r i)) (Some (v i))
        KVTREE_EXCHANGE_RIGHT ?R) (\<lambda>i. (KVTREE_SUCCESS, Some (u i)))" "delivered n (outgoing n r) v u"
    using does_direction_hops [where eager = eager and red = red and e = e and junk = junk and ho = v,
      OF n assigned_sends [OF r] wf sub(2) disjI2 [OF assigned_hops [OF r n31]]] by blast
  let ?second = "\<lambda>i (rc, recv).
      seq (kvtree_exchange_direction_hops (e i) (junk i) i n (Some (r i)) recv KVTREE_EXCHANGE_RIGHT ?R)
        (\<lambda>(right_rc, recv). Ret (if rc = KVTREE_SUCCESS then right_rc else rc, recv))"
  have "does n eager red (\<lambda>i. ?second i (KVTREE_SUCCESS, Some (v i))) (\<lambda>i. (KVTREE_SUCCESS, Some (u i)))"
    using does_seq [where f = "\<lambda>i (right_rc, recv). Ret (right_rc, recv)", OF u(1) does_Ret] by simp
  note does_seq [where f = "?second", OF v(1) this]
  moreover have "delivered n (outgoing n l \<union> outgoing n r) ho u"
    using u(2) v(2) unfolding delivered_def by auto
  ultimately show ?thesis by blast
qed

lemma assign_ranks:
  assumes n: "n \<le> 2 ^ 30" and hs: "\<And>i. i < n \<Longrightarrow> indexed_by_ranks n (hs i)"
  obtains l r ml mr where
    "\<And>i. i < n \<Longrightarrow> exchange_assign (int i) (int n) (hash_elems (Some (hs i))) (Some kvtree_new, Some kvtree_new, 0, 0) =
       Some (Some (l i), Some (r i), ml i, mr i)"
    "\<And>i. i < n \<Longrightarrow> assigned n i KVTREE_EXCHANGE_LEFT (l i) (ml i)"
    "\<And>i. i < n \<Longrightarrow> assigned n i KVTREE_EXCHANGE_RIGHT (r i) (mr i)"
    "outgoing n l \<union> outgoing n r = outgoing n hs"
proof -
  let ?ok = "\<lambda>i (l, r, ml, mr).
      exchange_assign (int i) (int n) (hash_elems (Some (hs i))) (Some kvtree_new, Some kvtree_new, 0, 0) =
        Some (Some l, Some r, ml, mr) \<and>
      assigned n i KVTREE_EXCHANGE_LEFT l ml \<and> assigned n i KVTREE_EXCHANGE_RIGHT r mr \<and>
      kvtree_paths l \<union> kvtree_paths r = kvtree_paths (hs i)"
  have "\<forall>i. \<exists>x. i < n \<longrightarrow> ?ok i x" using assign_tree [OF n] hs by fastforce
  from choice [OF this] obtain x where x: "\<And>i. i < n \<Longrightarrow> ?ok i (x i)" by blast
  define l r ml mr where defs: "l = (\<lambda>i. fst (x i))" "r = (\<lambda>i. fst (snd (x i)))"
    "ml = (\<lambda>i. fst (snd (snd (x i))))" "mr = (\<lambda>i. snd (snd (snd (x i))))"
  have ok: "?ok i (l i, r i, ml i, mr i)" if "i < n" for i
    using x [OF that] by (simp add: defs)
  show thesis
  proof (rule that)
    show "outgoing n l \<union> outgoing n r = outgoing n hs" by (rule outgoing_Un) (use ok in simp)
  qed (use ok in auto)
qed

lemma does_exchange:
  assumes red: "mpi_collectives red" and n0: "0 < n" and n: "n \<le> 2 ^ 30"
    and hs: "\<And>i. i < n \<Longrightarrow> indexed_by_ranks n (hs i)" and ho: "\<And>i. i < n \<Longrightarrow> kvtree_wf (ho i)"
    and size: "int (traffic (outgoing n hs)) \<le> INT_MAX"
  shows "\<exists>u. does n eager red (\<lambda>i. kvtree_exchange (e i) (junk i) i n (Some (hs i)) (Some (ho i)))
      (\<lambda>i. (KVTREE_SUCCESS, Some (u i))) \<and> delivered n (outgoing n hs) ho u"
proof -
  obtain l r ml mr where as:
    "\<And>i. i < n \<Longrightarrow> exchange_assign (int i) (int n) (hash_elems (Some (hs i))) (Some kvtree_new, Some kvtree_new, 0, 0) =
       Some (Some (l i), Some (r i), ml i, mr i)"
    "\<And>i. i < n \<Longrightarrow> assigned n i KVTREE_EXCHANGE_LEFT (l i) (ml i)"
    "\<And>i. i < n \<Longrightarrow> assigned n i KVTREE_EXCHANGE_RIGHT (r i) (mr i)"
    and un: "outgoing n l \<union> outgoing n r = outgoing n hs"
    using n hs by (rule assign_ranks) (blast intro: that)+
  let ?L = "Max (ml ` {..<n})" and ?R = "Max (mr ` {..<n})"
  let ?k = "\<lambda>i all. case all of
       Mints [a, b] \<Rightarrow>
         seq (kvtree_exchange_direction_hops (e i) (junk i) i n (Some (l i)) (Some (ho i)) KVTREE_EXCHANGE_LEFT a) (\<lambda>(rc, recv).
         seq (kvtree_exchange_direction_hops (e i) (junk i) i n (Some (r i)) recv KVTREE_EXCHANGE_RIGHT b)
           (\<lambda>(right_rc, recv). Ret (if rc = KVTREE_SUCCESS then right_rc else rc, recv)))
     | _ \<Rightarrow> Abort"
  obtain u where u: "does n eager red (\<lambda>i. ?k i (Mints [?L, ?R])) (\<lambda>i. (KVTREE_SUCCESS, Some (u i)))"
    "delivered n (outgoing n hs) ho u"
    using both_directions [where eager = eager and red = red and e = e and junk = junk and ho = ho, OF n ho as(2,3)] size
    unfolding un by auto
  have prog: "kvtree_exchange (e i) (junk i) i n (Some (hs i)) (Some (ho i)) =
      Coll Allreduce_max (Mints [ml i, mr i]) (?k i)" if "i < n" for i
    using as(1) [OF that] by (simp add: kvtree_exchange_def)
  have "red Allreduce_max (map (\<lambda>j. Mints [ml j, mr j]) [0..<n]) i = Mints [?L, ?R]" if "i < n" for i
    using red_max [OF red that, of "\<lambda>j. [ml j, mr j]" 2] by (simp add: numeral_2_eq_2)
  then have "does n eager red (\<lambda>i. ?k i (red Allreduce_max (map (\<lambda>j. Mints [ml j, mr j]) [0..<n]) i))
      (\<lambda>i. (KVTREE_SUCCESS, Some (u i)))"
    using u(1) by (subst does_cong [where Q = "\<lambda>i. ?k i (Mints [?L, ?R])"]) simp_all
  then have "does n eager red (\<lambda>i. Coll Allreduce_max (Mints [ml i, mr i]) (?k i)) (\<lambda>i. (KVTREE_SUCCESS, Some (u i)))"
    by (rule does_coll [where k = ?k, OF n0])
  with u(2) show ?thesis by (subst does_cong [OF prog]) auto
qed

section \<open>Properties\<close>

lemma delivered_outgoing:
  "delivered n (outgoing n hs) ho u \<longleftrightarrow> (\<forall>i < n. kvtree_wf (u i) \<and>
     kvtree_paths (u i) = kvtree_paths (ho i) \<union> {rank_key s # q | s q. s < n \<and> rank_key i # q \<in> kvtree_paths (hs s)})"
  by (auto simp: delivered_def outgoing_def)

text \<open>C5. The sparse all-to-all exchange. When all ranks of a job call \<open>kvtree_exchange\<close>, each with a tree
  whose top-level keys are ranks, every run of the job, in any interleaving and on hosts of any byte order,
  ends after a bounded number of steps with \<open>KVTREE_SUCCESS\<close> on every rank, and the output tree of rank
  \<open>i\<close> has gained exactly, under the key \<open>s\<close>, what rank \<open>s\<close> had under the key \<open>i\<close>: nothing is lost, misdelivered
  or invented. The job has at most \<open>2 ^ 30\<close> ranks and all its data packs into \<open>INT_MAX\<close> bytes.\<close>

theorem exchange_delivers:
  assumes "mpi_collectives red" and "0 < n" and "n \<le> 2 ^ 30"
    and "\<And>i. i < n \<Longrightarrow> indexed_by_ranks n (hs i)" and "\<And>i. i < n \<Longrightarrow> kvtree_wf (ho i)"
    and "int (traffic (outgoing n hs)) \<le> INT_MAX"
  shows "\<exists>u. mpi_outcome n eager red (\<lambda>i. kvtree_exchange (e i) (junk i) i n (Some (hs i)) (Some (ho i)))
      (\<lambda>i. (KVTREE_SUCCESS, Some (u i))) \<and>
    (\<forall>i < n. kvtree_wf (u i) \<and>
      kvtree_paths (u i) = kvtree_paths (ho i) \<union> {rank_key s # q | s q. s < n \<and> rank_key i # q \<in> kvtree_paths (hs s)})"
proof -
  obtain u where "does n eager red (\<lambda>i. kvtree_exchange (e i) (junk i) i n (Some (hs i)) (Some (ho i)))
      (\<lambda>i. (KVTREE_SUCCESS, Some (u i)))" "delivered n (outgoing n hs) ho u"
    using does_exchange [where ho = ho and eager = eager and e = e and junk = junk, OF assms] by blast
  then show ?thesis using does_outcome unfolding delivered_outgoing by blast
qed

text \<open>C13. The exchange to one side. \<open>kvtree_exchange_direction\<close> delivers the same data in either direction:
  every run of the job ends with \<open>KVTREE_SUCCESS\<close> on every rank and the output tree of rank \<open>i\<close> has gained
  exactly, under the key \<open>s\<close>, what rank \<open>s\<close> had under the key \<open>i\<close>.\<close>

theorem exchange_direction_delivers:
  assumes "n \<le> 2 ^ 30" and "\<And>i. i < n \<Longrightarrow> indexed_by_ranks n (hs i)" and "\<And>i. i < n \<Longrightarrow> kvtree_wf (ho i)"
    and "int (traffic (outgoing n hs)) \<le> INT_MAX"
  shows "\<exists>u. mpi_outcome n eager red
      (\<lambda>i. kvtree_exchange_direction (e i) (junk i) i n (Some (hs i)) (Some (ho i)) dir)
      (\<lambda>i. (KVTREE_SUCCESS, Some (u i))) \<and>
    (\<forall>i < n. kvtree_wf (u i) \<and>
      kvtree_paths (u i) = kvtree_paths (ho i) \<union> {rank_key s # q | s q. s < n \<and> rank_key i # q \<in> kvtree_paths (hs s)})"
proof -
  have hops: "(- 1 :: int) < 0 \<or> (\<forall>(d, s, q) \<in> outgoing n hs. rank_dist dir n s d < 2 ^ nat (- 1))" by simp
  obtain u where "does n eager red (\<lambda>i. kvtree_exchange_direction (e i) (junk i) i n (Some (hs i)) (Some (ho i)) dir)
      (\<lambda>i. (KVTREE_SUCCESS, Some (u i)))" "delivered n (outgoing n hs) ho u"
    using does_direction_hops [where ho = ho and eager = eager and e = e and junk = junk and red = red, OF assms hops]
    unfolding kvtree_exchange_direction_def by blast
  then show ?thesis using does_outcome unfolding delivered_outgoing by blast
qed

text \<open>A job of three ranks in which every rank has data for rank 2.\<close>

definition to_last :: kvtree where
  "to_last = Kvtree [Kvtree_elem (Some ''2'') (Some (Kvtree [Kvtree_elem (Some ''x'') (Some kvtree_new)]))]"

lemma rank_key_small: "rank_key 0 = ''0''" "rank_key (Suc 0) = ''1''" "rank_key 2 = ''2''"
  by (simp_all add: rank_key_def) code_simp+

lemma to_last_paths [simp]: "kvtree_paths to_last = {[], [''2''], [''2'', ''x'']}"
  by (auto simp: to_last_def paths_elems)

lemma to_last_sends: "indexed_by_ranks 3 to_last"
proof -
  have "kvtree_wf to_last" by (simp add: to_last_def kvtree_wf_iff elem_wf_iff)
  moreover have "\<exists>d < 3. ''2'' = rank_key d" by (rule exI [of _ 2]) (simp add: rank_key_small)
  ultimately show ?thesis by (auto simp: indexed_by_ranks_def)
qed

lemma to_last_outgoing: "outgoing 3 (\<lambda>_. to_last) = {2} \<times> {0, 1, 2} \<times> {[], [''x'']}"
proof -
  have key: "d < 3 \<and> rank_key d = ''2'' \<longleftrightarrow> d = 2" for d
  proof
    assume d: "d < 3 \<and> rank_key d = ''2''"
    then have "d = 0 \<or> d = Suc 0 \<or> d = 2" by arith
    then show "d = 2" using d by (auto simp: rank_key_small)
  qed (simp add: rank_key_small)
  have three: "s < 3 \<longleftrightarrow> s \<in> {0, 1, 2}" for s :: nat by auto
  have "outgoing 3 (\<lambda>_. to_last) =
      {(d, s, q). (d < 3 \<and> rank_key d = ''2'') \<and> s < 3 \<and> q \<in> {[], [''x'']}}"
    unfolding outgoing_def by auto
  also have "\<dots> = {(d, s, q). d = 2 \<and> s \<in> {0, 1, 2} \<and> q \<in> {[], [''x'']}}" by (simp only: key) (simp only: three)
  also have "\<dots> = {2} \<times> {0, 1, 2} \<times> {[], [''x'']}" by blast
  finally show ?thesis .
qed

lemma to_last_traffic: "int (traffic (outgoing 3 (\<lambda>_. to_last))) \<le> INT_MAX"
proof -
  let ?under = "\<lambda>s. {[''D'', ''2'', ''S'', s], [''D'', ''2'', ''S'', s, ''x'']}"
  have "routed (outgoing 3 (\<lambda>_. to_last)) \<subseteq>
      {[], [''D''], [''D'', ''2''], [''D'', ''2'', ''S'']} \<union> (?under ''0'' \<union> ?under ''1'' \<union> ?under ''2'')"
    unfolding to_last_outgoing routed_def by (auto simp: rank_key_small)
  then have "traffic (outgoing 3 (\<lambda>_. to_last)) \<le> (\<Sum>p \<in>
      {[], [''D''], [''D'', ''2''], [''D'', ''2'', ''S'']} \<union> (?under ''0'' \<union> ?under ''1'' \<union> ?under ''2''). path_cost p)"
    unfolding traffic_def by (rule sum_mono2 [rotated]) simp_all
  also have "\<dots> = 58" by (simp add: path_cost_def)
  finally show ?thesis by (simp add: INT_MAX_def)
qed

lemma to_last_arrives:
  assumes "\<forall>i < 3. kvtree_wf (u i) \<and> kvtree_paths (u i) = kvtree_paths kvtree_new \<union>
      {rank_key s # q | s q. s < 3 \<and> rank_key i # q \<in> kvtree_paths to_last}" and "s < 3"
  shows "rank_key s # [''x''] \<in> kvtree_paths (u 2)"
proof -
  have "rank_key 2 # [''x''] \<in> kvtree_paths to_last" by (simp add: rank_key_small)
  moreover have "kvtree_paths (u 2) = kvtree_paths kvtree_new \<union>
      {rank_key s # q | s q. s < 3 \<and> rank_key 2 # q \<in> kvtree_paths to_last}"
    by (rule assms(1) [rule_format, THEN conjunct2]) simp
  ultimately show ?thesis using assms(2) by blast
qed

theorem exchange_delivers_witness:
  "\<exists>u. mpi_outcome 3 (\<lambda>_ _ _. False) mpi_red (\<lambda>i. kvtree_exchange Little_endian (\<lambda>_. 0) i 3 (Some to_last) (Some kvtree_new))
      (\<lambda>i. (KVTREE_SUCCESS, Some (u i))) \<and> [''0'', ''x''] \<in> kvtree_paths (u 2)"
proof -
  have "\<exists>u. mpi_outcome 3 (\<lambda>_ _ _. False) mpi_red
      (\<lambda>i. kvtree_exchange Little_endian (\<lambda>_. 0) i 3 (Some to_last) (Some kvtree_new)) (\<lambda>i. (KVTREE_SUCCESS, Some (u i))) \<and>
    (\<forall>i < 3. kvtree_wf (u i) \<and> kvtree_paths (u i) = kvtree_paths kvtree_new \<union>
      {rank_key s # q | s q. s < 3 \<and> rank_key i # q \<in> kvtree_paths to_last})"
    by (rule exchange_delivers) (simp_all add: mpi_red_ok to_last_sends to_last_traffic)
  then obtain u where u: "mpi_outcome 3 (\<lambda>_ _ _. False) mpi_red
      (\<lambda>i. kvtree_exchange Little_endian (\<lambda>_. 0) i 3 (Some to_last) (Some kvtree_new)) (\<lambda>i. (KVTREE_SUCCESS, Some (u i)))"
    "\<forall>i < 3. kvtree_wf (u i) \<and> kvtree_paths (u i) = kvtree_paths kvtree_new \<union>
      {rank_key s # q | s q. s < 3 \<and> rank_key i # q \<in> kvtree_paths to_last}" by blast
  have "rank_key 0 # [''x''] \<in> kvtree_paths (u 2)" by (rule to_last_arrives [OF u(2)]) simp
  with u(1) show ?thesis unfolding rank_key_small by blast
qed

theorem exchange_direction_delivers_witness:
  "\<exists>u. mpi_outcome 3 (\<lambda>_ _ _. True) mpi_red
      (\<lambda>i. kvtree_exchange_direction Big_endian (\<lambda>_. 0) i 3 (Some to_last) (Some kvtree_new) KVTREE_EXCHANGE_LEFT)
      (\<lambda>i. (KVTREE_SUCCESS, Some (u i))) \<and> [''1'', ''x''] \<in> kvtree_paths (u 2)"
proof -
  have "\<exists>u. mpi_outcome 3 (\<lambda>_ _ _. True) mpi_red
      (\<lambda>i. kvtree_exchange_direction Big_endian (\<lambda>_. 0) i 3 (Some to_last) (Some kvtree_new) KVTREE_EXCHANGE_LEFT)
      (\<lambda>i. (KVTREE_SUCCESS, Some (u i))) \<and>
    (\<forall>i < 3. kvtree_wf (u i) \<and> kvtree_paths (u i) = kvtree_paths kvtree_new \<union>
      {rank_key s # q | s q. s < 3 \<and> rank_key i # q \<in> kvtree_paths to_last})"
    by (rule exchange_direction_delivers) (simp_all add: mpi_red_ok to_last_sends to_last_traffic)
  then obtain u where u: "mpi_outcome 3 (\<lambda>_ _ _. True) mpi_red
      (\<lambda>i. kvtree_exchange_direction Big_endian (\<lambda>_. 0) i 3 (Some to_last) (Some kvtree_new) KVTREE_EXCHANGE_LEFT)
      (\<lambda>i. (KVTREE_SUCCESS, Some (u i)))"
    "\<forall>i < 3. kvtree_wf (u i) \<and> kvtree_paths (u i) = kvtree_paths kvtree_new \<union>
      {rank_key s # q | s q. s < 3 \<and> rank_key i # q \<in> kvtree_paths to_last}" by blast
  have "rank_key (Suc 0) # [''x''] \<in> kvtree_paths (u 2)" by (rule to_last_arrives [OF u(2)]) simp
  with u(1) show ?thesis unfolding rank_key_small by blast
qed

text \<open>\<open>kvtree_exchange_sendq\<close> adds a message for a rank to a send tree: it returns \<open>KVTREE_SUCCESS\<close>, the
  tree stays well formed and gains the key of the rank and below it the key paths of the message, next to
  those already queued for that rank.\<close>

lemma sendq_adds:
  assumes "kvtree_wf t" and "kvtree_wf msg" and "is_int32 rank"
  shows "\<exists>u. kvtree_exchange_sendq (Some t) rank (Some msg) = Inr (KVTREE_SUCCESS, Some u) \<and> kvtree_wf u \<and>
    kvtree_paths u = kvtree_paths t \<union> (#) (fmt_signed rank) ` kvtree_paths msg"
proof -
  let ?k = "fmt_signed rank"
  note keys = fmt_keys_d [OF assms(3)]
  show ?thesis
  proof (cases "kvtree_get (Some t) (Some ?k)")
    case None
    obtain copy where copy: "kvtree_merge (Some kvtree_new) (Some msg) = (KVTREE_SUCCESS, Some copy)" "kvtree_wf copy"
      "kvtree_paths copy = kvtree_paths msg"
      using merge_eq [of kvtree_new "Some msg"] assms(2) by (auto simp: insert_absorb)
    then show ?thesis
      using None setf_new_key [OF assms(1,3), of "Some copy"] getf_key [OF assms(3), of t]
        get_none_paths [OF assms(1) None] by (auto simp: kvtree_exchange_sendq_def)
  next
    case (Some h)
    then show ?thesis
      using merge_at [OF assms(1), of "[?k]" h "Some msg"] getf_key [OF assms(3), of t] assms(2)
      by (auto simp: kvtree_exchange_sendq_def)
  qed
qed

end
