(* ===== verification/KV_Writers.thy ===== *)
theory KV_Writers
  imports KV_Exchange
begin

text \<open>
  Choosing the ranks that write (\<open>pick_writer\<close> and \<open>kvtree_alltrue\<close> of \<open>src/kvtree_mpi_io.c\<close>). The ranks lay
  their data end to end in rank order; a rank whose data runs over the end of a segment of 1 MB starts
  a new group and writes for the ranks that follow it. The groups are found with a segmented scan in rounds of
  doubling distance. \<open>MPI_PROC_NULL\<close> is the parameter \<open>null\<close>, an \<open>int\<close> that is the number of no rank.
\<close>

section \<open>The code\<close>

definition got_ulong :: "mpi_msg \<Rightarrow> u64 option" where
  "got_ulong m = (case m of Mulong w \<Rightarrow> Some w | _ \<Rightarrow> None)"

definition segsize :: u64 where
  "segsize = 1024 * 1024"

definition starts_new :: "nat \<Rightarrow> u64 \<Rightarrow> u64 \<Rightarrow> bool" where
  "starts_new rank offset cnt =
     (if rank = 0 then True
      else if 0 < cnt then
        let segindex = offset div segsize;
            seglastbyte = (segindex + 1) * segsize - 1;
            mylastbyte = offset + cnt - 1
        in seglastbyte < mylastbyte
      else False)"

text \<open>The three values a rank passes on: groups started, ranks in the last group, rank that started it.\<close>

definition got_scan :: "mpi_msg option \<Rightarrow> (int \<times> int \<times> int) option" where
  "got_scan m = (case m of Some (Mints [c, r, w]) \<Rightarrow> Some (c, r, w) | _ \<Rightarrow> None)"

function scan_loop :: "int \<Rightarrow> int \<Rightarrow> int \<Rightarrow> int \<Rightarrow> int \<times> int \<times> int \<Rightarrow> (int \<times> int \<times> int) proc" where
  "scan_loop null rank ranks step (c, r, w) =
     (if \<not> step < ranks then Ret (c, r, w)
      else if step < 1 then Abort
      else
        let left = rank - step;
            right = rank + step
        in seq (if 0 \<le> left \<or> right < ranks then
                  Comm (if right < ranks then Some (nat right, Mints [c, r, w]) else None)
                       (if 0 \<le> left then Some (nat left) else None) Ret
                else Ret None) (\<lambda>m.
           seq (if 0 \<le> left then
                  seq (lift (got_scan m)) (\<lambda>(rc, rr, rw).
                  Ret (c + rc, if w = null then r + rr else r, if w = null then rw else w))
                else Ret (c, r, w)) (\<lambda>crw.
           if INT_MAX < step * 2 then Abort
           else scan_loop null rank ranks (step * 2) crw)))"
  by pat_completeness auto

termination
  by (relation "measure (\<lambda>(null, rank, ranks, step, crw). nat (ranks - step))") auto

declare scan_loop.simps [simp del]

definition pick_writer :: "int \<Rightarrow> nat \<Rightarrow> nat \<Rightarrow> u64 \<Rightarrow> (int \<times> int) proc" where
  "pick_writer null rank ranks cnt =
     seq (Coll Scan_sum (Mulong cnt) Ret) (\<lambda>m.
     seq (lift (got_ulong m)) (\<lambda>offset.
     let offset = offset - cnt;
         starts = starts_new rank offset cnt;
         send = (if starts then 1 else 0, 1, if starts then int rank else null)
     in seq (scan_loop null (int rank) (int ranks) 1 send) (\<lambda>(c, r, w).
        seq (Coll (Bcast (ranks - 1)) (Mint (if r = int ranks then 1 else 0)) Ret) (\<lambda>m.
        seq (lift (got_int (Some m))) (\<lambda>allranks.
        Ret (w, allranks))))))"

definition kvtree_alltrue :: "bool \<Rightarrow> int proc" where
  "kvtree_alltrue valid =
     seq (Coll Allreduce_land (Mint (if valid then 1 else 0)) Ret) (\<lambda>m. lift (got_int (Some m)))"

section \<open>The segmented scan\<close>

text \<open>What a rank has after \<open>h\<close> rounds: the starts among the last \<open>2 ^ h\<close> ranks up to itself.\<close>

definition window :: "(nat \<Rightarrow> bool) \<Rightarrow> nat \<Rightarrow> nat \<Rightarrow> nat set" where
  "window st h i = {j. j \<le> i \<and> i < j + 2 ^ h \<and> st j}"

definition scanned :: "(nat \<Rightarrow> bool) \<Rightarrow> int \<Rightarrow> nat \<Rightarrow> nat \<Rightarrow> int \<times> int \<times> int" where
  "scanned st null h i =
     (int (card (window st h i)),
      if window st h i = {} then int (min (2 ^ h) (Suc i)) else int i + 1 - int (Max (window st h i)),
      if window st h i = {} then null else int (Max (window st h i)))"

lemma window_finite [simp]: "finite (window st h i)"
  by (rule finite_subset [of _ "{..i}"]) (auto simp: window_def)

lemma window_0: "window st 0 i = (if st i then {i} else {})"
  by (auto simp: window_def less_Suc_eq)

lemma window_Suc:
  "window st (Suc h) i = window st h i \<union> (if 2 ^ h \<le> i then window st h (i - 2 ^ h) else {})"
  by (auto simp: window_def)

lemma window_disjoint: "2 ^ h \<le> i \<Longrightarrow> window st h i \<inter> window st h (i - 2 ^ h) = {}"
  by (auto simp: window_def)

lemma scanned_0: "scanned st null 0 i = (if st i then 1 else 0, 1, if st i then int i else null)"
  by (simp add: scanned_def window_0)

lemma min_double: "p \<le> i \<Longrightarrow> int (min (2 * p) (Suc i)) = int p + int (min p (Suc (i - p)))"
  by (simp add: min_def) arith

lemma scanned_Suc:
  assumes null: "\<And>j. j \<le> i \<Longrightarrow> null \<noteq> int j" and own: "scanned st null h i = (c, r, w)"
  shows "scanned st null (Suc h) i =
    (if 2 ^ h \<le> i then
       case scanned st null h (i - 2 ^ h) of
         (rc, rr, rw) \<Rightarrow> (c + rc, if w = null then r + rr else r, if w = null then rw else w)
     else (c, r, w))"
proof (cases "2 ^ h \<le> i")
  case True
  let ?A = "window st h i" and ?B = "window st h (i - 2 ^ h)"
  have U: "window st (Suc h) i = ?A \<union> ?B" using True by (simp add: window_Suc)
  have c: "card (?A \<union> ?B) = card ?A + card ?B"
    by (rule card_Un_disjoint) (simp_all add: window_disjoint [OF True])
  have m: "Max (?A \<union> ?B) = Max ?A" if ne: "?A \<noteq> {}"
  proof (rule Max_eqI)
    fix y assume y: "y \<in> ?A \<union> ?B"
    obtain a where a: "a \<in> ?A" using ne by blast
    have "a \<le> Max ?A" by (rule Max_ge [OF window_finite a])
    moreover have "y \<le> a" if "y \<in> ?B" using a that by (auto simp: window_def)
    moreover have "y \<le> Max ?A" if "y \<in> ?A" by (rule Max_ge [OF window_finite that])
    ultimately show "y \<le> Max ?A" using y le_trans by blast
  qed (use ne in auto)
  have w: "null \<noteq> int (Max ?A)" if "?A \<noteq> {}"
    using Max_in [OF window_finite that] by (intro null) (simp add: window_def)
  show ?thesis
  proof (cases "?A = {}")
    case A: True
    then show ?thesis using own True U min_double [OF True] by (auto simp: scanned_def of_nat_diff)
  next
    case False
    then show ?thesis using own True w [OF False] U c m by (auto simp: scanned_def)
  qed
next
  case False
  then show ?thesis using own by (auto simp: scanned_def window_Suc)
qed

lemma scan_round:
  assumes n: "n \<le> 2 ^ 30" and h: "2 ^ h < n" and null: "\<And>j. j < n \<Longrightarrow> null \<noteq> int j"
    and rest: "does n eager red (\<lambda>i. scan_loop null (int i) (int n) (2 ^ Suc h) (scanned st null (Suc h) i)) r"
  shows "does n eager red (\<lambda>i. scan_loop null (int i) (int n) (2 ^ h) (scanned st null h i)) r"
proof -
  let ?A = "{i. i < n \<and> (2 ^ h \<le> i \<or> i + 2 ^ h < n)}"
  let ?ints = "\<lambda>i. case scanned st null h i of (c, r, w) \<Rightarrow> Mints [c, r, w]"
  let ?s = "\<lambda>i. if i + 2 ^ h < n then Some (i + 2 ^ h, ?ints i) else None"
  let ?q = "\<lambda>i. if 2 ^ h \<le> i then Some (i - 2 ^ h) else None"
  let ?k = "\<lambda>i m. case scanned st null h i of (c, r, w) \<Rightarrow>
     seq (if 2 ^ h \<le> i then
            seq (lift (got_scan m)) (\<lambda>(rc, rr, rw).
            Ret (c + rc, if w = null then r + rr else r, if w = null then rw else w))
          else Ret (c, r, w)) (\<lambda>crw. scan_loop null (int i) (int n) (2 ^ Suc h) crw)"
  define p where "p = (2 :: nat) ^ h"
  have p: "(2 :: int) ^ h = int p" "(2 :: nat) ^ h = p" by (simp_all add: p_def)
  have pos: "0 < p" by (simp add: p_def)
  have small: "p < n" "int p * 2 \<le> INT_MAX" using h n unfolding p by (simp_all add: INT_MAX_def)
  have prog: "scan_loop null (int i) (int n) (2 ^ h) (scanned st null h i) =
      (if i \<in> ?A then Comm (?s i) (?q i) (?k i) else ?k i None)" if "i < n" for i
  proof -
    have "(0 \<le> int i - int p) = (p \<le> i)" "(int i + int p < int n) = (i + p < n)"
      "nat (int i + int p) = i + p" "nat (int i - int p) = i - p" "\<not> INT_MAX < int p * 2" "\<not> int p < 1"
      using small pos by auto
    moreover obtain c r w where "scanned st null h i = (c, r, w)" by (cases "scanned st null h i")
    ultimately show ?thesis using that small pos unfolding p
      by (simp only: prod.case) (subst scan_loop.simps, simp add: Let_def p mult.commute cong: if_cong)
  qed
  have next_: "(if i \<in> ?A then ?k i (incoming ?s ?q i) else ?k i None) =
      scan_loop null (int i) (int n) (2 ^ Suc h) (scanned st null (Suc h) i)" if "i < n" for i
    using that by (cases "scanned st null h i"; cases "scanned st null h (i - 2 ^ h)")
      (auto simp: scanned_Suc [OF null] incoming_def got_scan_def)
  have "does n eager red (\<lambda>i. if i \<in> ?A then ?k i (incoming ?s ?q i) else ?k i None) r"
    using rest by (subst does_cong [OF next_])
  moreover have "matched ?A ?s ?q" "?A \<subseteq> {..<n}" by (auto simp: matched_def)
  ultimately have "does n eager red (\<lambda>i. if i \<in> ?A then Comm (?s i) (?q i) (?k i) else ?k i None) r"
    by (intro does_comm_among [where k = ?k])
  then show ?thesis by (subst does_cong [OF prog])
qed

text \<open>The rank that writes for rank \<open>i\<close>: the last one up to \<open>i\<close> that starts a group.\<close>

definition writer :: "(nat \<Rightarrow> bool) \<Rightarrow> nat \<Rightarrow> nat" where
  "writer st i = Max {j. j \<le> i \<and> st j}"

lemma writer_props:
  assumes "st 0"
  shows "writer st i \<le> i" and "st (writer st i)" and "\<And>j. writer st i < j \<Longrightarrow> j \<le> i \<Longrightarrow> \<not> st j"
proof -
  have "finite {j. j \<le> i \<and> st j}" "{j. j \<le> i \<and> st j} \<noteq> {}" using assms by auto
  from Max_in [OF this] Max_ge [OF this(1)]
  show "writer st i \<le> i" "st (writer st i)" "\<And>j. writer st i < j \<Longrightarrow> j \<le> i \<Longrightarrow> \<not> st j"
    by (auto simp: writer_def not_le [symmetric])
qed

lemma scanned_last:
  assumes "st 0" and "i < n" and "n \<le> 2 ^ h"
  shows "snd (scanned st null h i) = (int i + 1 - int (writer st i), int (writer st i))"
proof -
  have "window st h i = {j. j \<le> i \<and> st j}" using assms(2,3) by (auto simp: window_def)
  moreover have "{j. j \<le> i \<and> st j} \<noteq> {}" using assms(1) by auto
  ultimately show ?thesis by (auto simp: scanned_def writer_def)
qed

lemma scan_all:
  assumes n: "n \<le> 2 ^ 30" and null: "\<And>j. j < n \<Longrightarrow> null \<noteq> int j"
  shows "\<exists>H. n \<le> 2 ^ H \<and>
    does n eager red (\<lambda>i. scan_loop null (int i) (int n) (2 ^ h) (scanned st null h i)) (\<lambda>i. scanned st null H i)"
proof (induction "n - 2 ^ h" arbitrary: h rule: less_induct)
  case less
  show ?case
  proof (cases "2 ^ h < n")
    case True
    then have "n - 2 ^ Suc h < n - 2 ^ h" by (intro diff_less_mono2) simp_all
    from less [OF this] scan_round [OF n True null] show ?thesis by blast
  next
    case False
    then have "scan_loop null (int i) (int n) (2 ^ h) (scanned st null h i) = Ret (scanned st null h i)" for i
      by (cases "scanned st null h i") (simp add: scan_loop.simps not_less)
    then show ?thesis using False by (intro exI [of _ h]) (auto intro: does_Ret)
  qed
qed

section \<open>The groups\<close>

definition starts_at :: "(nat \<Rightarrow> u64) \<Rightarrow> nat \<Rightarrow> bool" where
  "starts_at cnt j = starts_new j (\<Sum>k < j. cnt k) (cnt j)"

lemma starts_at_0 [simp]: "starts_at cnt 0"
  by (simp add: starts_at_def starts_new_def)

lemma does_pick_writer:
  assumes red: "mpi_collectives red" and n: "0 < n" "n \<le> 2 ^ 30" and null: "\<And>j. j < n \<Longrightarrow> null \<noteq> int j"
  shows "does n eager red (\<lambda>i. pick_writer null i n (cnt i))
    (\<lambda>i. (int (writer (starts_at cnt) i), if writer (starts_at cnt) (n - 1) = 0 then 1 else 0))"
proof -
  let ?st = "starts_at cnt"
  let ?all = "if writer ?st (n - 1) = 0 then 1 else 0 :: int"
  let ?res = "\<lambda>i. (int (writer ?st i), ?all)"
  let ?k2 = "\<lambda>w m. seq (lift (got_int (Some m))) (\<lambda>allranks. Ret (w, allranks))"
  let ?f = "\<lambda>i (c, r, w). Coll (Bcast (n - 1)) (Mint (if r = int n then 1 else 0)) (?k2 w)"
  let ?k1 = "\<lambda>i m. seq (lift (got_ulong m)) (\<lambda>offset.
     let starts = starts_new i (offset - cnt i) (cnt i)
     in seq (scan_loop null (int i) (int n) 1 (if starts then 1 else 0, 1, if starts then int i else null)) (?f i))"
  have prog: "pick_writer null i n (cnt i) = Coll Scan_sum (Mulong (cnt i)) (?k1 i)" for i
    by (simp add: pick_writer_def Let_def)
  obtain H where H: "n \<le> 2 ^ H"
    "does n eager red (\<lambda>i. scan_loop null (int i) (int n) 1 (scanned ?st null 0 i)) (\<lambda>i. scanned ?st null H i)"
    using scan_all [where h = 0 and st = ?st and eager = eager and red = red, OF n(2) null] by auto
  have last: "?f i (scanned ?st null H i) =
      Coll (Bcast (n - 1)) (Mint (if int i + 1 - int (writer ?st i) = int n then 1 else 0)) (?k2 (int (writer ?st i)))"
    if "i < n" for i
    using scanned_last [of ?st i n H null] that H(1) by (cases "scanned ?st null H i") simp
  have "red (Bcast (n - 1)) (map (\<lambda>i. Mint (if int i + 1 - int (writer ?st i) = int n then 1 else 0)) [0..<n]) i = Mint ?all"
    if "i < n" for i
    using red_bcast [OF red, of "n - 1" n i "\<lambda>i. Mint (if int i + 1 - int (writer ?st i) = int n then 1 else 0)"] that
    by (auto simp: of_nat_diff)
  then have "does n eager red (\<lambda>i. ?k2 (int (writer ?st i))
      (red (Bcast (n - 1)) (map (\<lambda>i. Mint (if int i + 1 - int (writer ?st i) = int n then 1 else 0)) [0..<n]) i)) ?res"
    by (intro does_Ret) (simp add: got_int_def)
  then have "does n eager red (\<lambda>i. Coll (Bcast (n - 1)) (Mint (if int i + 1 - int (writer ?st i) = int n then 1 else 0))
      (?k2 (int (writer ?st i)))) ?res"
    by (rule does_coll [where k = "\<lambda>i. ?k2 (int (writer ?st i))", OF n(1)])
  then have "does n eager red (\<lambda>i. ?f i (scanned ?st null H i)) ?res" by (subst does_cong [OF last])
  from does_seq [where f = ?f, OF H(2) this]
  have body: "does n eager red (\<lambda>i. seq (scan_loop null (int i) (int n) 1 (scanned ?st null 0 i)) (?f i)) ?res" .
  have scan: "?k1 i (red Scan_sum (map (\<lambda>j. Mulong (cnt j)) [0..<n]) i) =
      seq (scan_loop null (int i) (int n) 1 (scanned ?st null 0 i)) (?f i)" if "i < n" for i
    unfolding red_scan [OF red that] by (simp add: got_ulong_def scanned_0 starts_at_def lessThan_Suc_atMost [symmetric])
  have "does n eager red (\<lambda>i. ?k1 i (red Scan_sum (map (\<lambda>j. Mulong (cnt j)) [0..<n]) i)) ?res"
    using body by (subst does_cong [OF scan])
  then show ?thesis unfolding prog by (rule does_coll [where k = ?k1, OF n(1)])
qed

text \<open>Without wrap-around the test of the code says that the bytes of the rank are not all in one segment.\<close>

lemma unat_sum:
  "(\<Sum>k < j. unat (f k :: u64)) < 2 ^ 64 \<Longrightarrow> unat (\<Sum>k < j. f k) = (\<Sum>k < j. unat (f k))" for j :: nat
proof (induction j)
  case (Suc j)
  then show ?case by (simp add: unat_word_ariths)
qed simp

lemma next_segment: "0 < s \<Longrightarrow> q * s + (s - 1) < b \<longleftrightarrow> q < b div s" for s :: nat
  using less_eq_div_iff_mult_less_eq [of s "Suc q" b] by auto

lemma seg_last:
  "unat ((x div segsize + 1) * segsize - 1) = unat x div 2 ^ 20 * 2 ^ 20 + (2 ^ 20 - 1)"
proof -
  have s: "unat segsize = 2 ^ 20" by (simp add: segsize_def)
  have q: "unat (x div segsize) = unat x div 2 ^ 20" by (simp add: unat_div s)
  have "unat x < 2 ^ 64" using unsigned_less [of x] by simp
  then have "unat x div 2 ^ 20 < 2 ^ 44" by (simp add: less_mult_imp_div_less)
  then have "unat x div 2 ^ 20 * 2 ^ 20 + (2 ^ 20 - 1) < 2 ^ 64" by simp
  moreover have "unat (segsize - 1) = 2 ^ 20 - 1" by (simp add: segsize_def)
  ultimately have "unat (x div segsize * segsize + (segsize - 1)) = unat x div 2 ^ 20 * 2 ^ 20 + (2 ^ 20 - 1)"
    by (simp add: unat_word_ariths q s)
  also have "x div segsize * segsize + (segsize - 1) = (x div segsize + 1) * segsize - 1"
    by (simp add: algebra_simps)
  finally show ?thesis .
qed

lemma starts_at_iff:
  assumes "(\<Sum>k < Suc j. unat (cnt k)) < 2 ^ 64"
  shows "starts_at cnt j \<longleftrightarrow> j = 0 \<or> 0 < cnt j \<and>
    (\<Sum>k < j. unat (cnt k)) div 2 ^ 20 < ((\<Sum>k < j. unat (cnt k)) + unat (cnt j) - 1) div 2 ^ 20"
proof (cases "0 < cnt j")
  case True
  let ?off = "\<Sum>k < j. unat (cnt k)"
  have off: "unat (\<Sum>k < j. cnt k) = ?off" using assms by (intro unat_sum) simp
  have c: "0 < unat (cnt j)" using True by (simp add: word_less_nat_alt)
  have "unat ((\<Sum>k < j. cnt k) + cnt j - 1) = ?off + unat (cnt j) - 1"
  proof -
    have "unat ((\<Sum>k < j. cnt k) + cnt j) = ?off + unat (cnt j)" using assms by (simp add: unat_word_ariths off)
    then show ?thesis using c by (subst unat_minus_one) auto
  qed
  moreover have "?off div 2 ^ 20 * 2 ^ 20 + (2 ^ 20 - 1) < ?off + unat (cnt j) - 1 \<longleftrightarrow>
      ?off div 2 ^ 20 < (?off + unat (cnt j) - 1) div 2 ^ 20" by (rule next_segment) simp
  ultimately show ?thesis
    using True by (simp add: starts_at_def starts_new_def Let_def word_less_nat_alt seg_last off)
qed (simp add: starts_at_def starts_new_def)

section \<open>Properties\<close>

text \<open>The specification: rank \<open>j\<close> starts a group if it is the first or its bytes, laid behind those of the lower
  ranks, are not all in the same segment of \<open>2 ^ 20\<close> bytes.\<close>

definition group_start :: "(nat \<Rightarrow> nat) \<Rightarrow> nat \<Rightarrow> bool" where
  "group_start c j \<longleftrightarrow> j = 0 \<or> 0 < c j \<and> (\<Sum>k < j. c k) div 2 ^ 20 < ((\<Sum>k < j. c k) + c j - 1) div 2 ^ 20"

lemma starts_at_group:
  assumes "(\<Sum>k < n. unat (cnt k)) < 2 ^ 64" and "j < n"
  shows "starts_at cnt j \<longleftrightarrow> group_start (\<lambda>k. unat (cnt k)) j"
proof -
  have "(\<Sum>k < Suc j. unat (cnt k)) \<le> (\<Sum>k < n. unat (cnt k))" using assms(2) by (intro sum_mono2) auto
  then show ?thesis using assms(1) starts_at_iff [of cnt j]
    by (simp add: group_start_def word_neq_0_conv [symmetric] unat_eq_0 [symmetric] del: sum.lessThan_Suc)
qed

lemma writer_cong: "(\<And>j. j \<le> i \<Longrightarrow> st j = st' j) \<Longrightarrow> writer st i = writer st' i"
  unfolding writer_def by (rule arg_cong [where f = Max]) auto

lemma writer_zero: "st 0 \<Longrightarrow> writer st m = 0 \<Longrightarrow> j \<le> m \<Longrightarrow> writer st j = 0"
  using writer_props by (metis gr0I le_trans)

lemma does_result: "(\<And>i. i < n \<Longrightarrow> r i = r' i) \<Longrightarrow> does n eager red P r \<longleftrightarrow> does n eager red P r'"
  unfolding does_def by (subst quiet_cong [of n "\<lambda>i. Ret (r i)" "\<lambda>i. Ret (r' i)"]) simp_all

lemma pick_writer_ok:
  assumes "mpi_collectives red" and "0 < n" and "n \<le> 2 ^ 30" and "\<And>j. j < n \<Longrightarrow> null \<noteq> int j"
    and "(\<Sum>k < n. unat (cnt k)) < 2 ^ 64"
  shows "does n eager red (\<lambda>i. pick_writer null i n (cnt i))
    (\<lambda>i. (int (writer (group_start (\<lambda>k. unat (cnt k))) i),
          if \<forall>j < n. writer (group_start (\<lambda>k. unat (cnt k))) j = 0 then 1 else 0))"
proof -
  let ?st = "starts_at cnt" and ?g = "group_start (\<lambda>k. unat (cnt k))"
  have eq: "writer ?st i = writer ?g i" if "i < n" for i
    using that starts_at_group [OF assms(5)] by (intro writer_cong) simp
  have "writer ?st (n - 1) = 0 \<longleftrightarrow> (\<forall>j < n. writer ?g j = 0)"
    using writer_zero [of ?g "n - 1"] eq [of "n - 1"] assms(2) by (auto simp: group_start_def)
  then show ?thesis
    using does_pick_writer [where cnt = cnt and eager = eager, OF assms(1-4)] eq by (subst does_result) auto
qed

lemma does_alltrue:
  assumes "mpi_collectives red" and "0 < n"
  shows "does n eager red (\<lambda>i. kvtree_alltrue (v i)) (\<lambda>i. if \<forall>j < n. v j then 1 else 0)"
proof -
  let ?k = "\<lambda>i m. lift (got_int (Some m))"
  have "red Allreduce_land (map (\<lambda>j. Mint (if v j then 1 else 0)) [0..<n]) i = Mint (if \<forall>j < n. v j then 1 else 0)"
    if "i < n" for i
    using red_land [OF assms(1) that, of "\<lambda>j. if v j then 1 else 0"] by auto
  then have "does n eager red (\<lambda>i. ?k i (red Allreduce_land (map (\<lambda>j. Mint (if v j then 1 else 0)) [0..<n]) i))
      (\<lambda>i. if \<forall>j < n. v j then 1 else 0)"
    by (intro does_Ret) (simp add: got_int_def)
  then show ?thesis
    unfolding kvtree_alltrue_def seq.simps by (rule does_coll [where k = ?k, OF assms(2)])
qed

text \<open>C16. When all ranks call \<open>pick_writer\<close> with the sizes of their data, every run of the job ends; every rank
  learns its writer, the last rank up to itself that starts a group, and all ranks learn whether rank 0
  writes for the whole job. A rank starts a group exactly if it is rank 0 or its bytes, laid behind those of the
  lower ranks, are not all in one segment of 1 MB.\<close>

theorem pick_writer_groups:
  assumes "mpi_collectives red" and "0 < n" and "n \<le> 2 ^ 30" and "\<And>j. j < n \<Longrightarrow> null \<noteq> int j"
    and "(\<Sum>k < n. unat (cnt k)) < 2 ^ 64"
  shows "mpi_outcome n eager red (\<lambda>i. pick_writer null i n (cnt i))
    (\<lambda>i. (int (writer (group_start (\<lambda>k. unat (cnt k))) i),
          if \<forall>j < n. writer (group_start (\<lambda>k. unat (cnt k))) j = 0 then 1 else 0))"
  using does_outcome [OF pick_writer_ok [OF assms]] .

theorem pick_writer_groups_witness:
  "mpi_outcome 2 (\<lambda>_ _ _. False) mpi_red (\<lambda>i. pick_writer (- 2) i 2 (2 ^ 20 - 1))
    (\<lambda>i. (int (writer (group_start (\<lambda>k. unat (2 ^ 20 - 1 :: u64))) i),
          if \<forall>j < 2. writer (group_start (\<lambda>k. unat (2 ^ 20 - 1 :: u64))) j = 0 then 1 else 0)) \<and>
   group_start (\<lambda>k. unat (2 ^ 20 - 1 :: u64)) 1"
proof
  show "group_start (\<lambda>k. unat (2 ^ 20 - 1 :: u64)) 1" by (simp add: group_start_def)
qed (rule pick_writer_groups [OF mpi_red_ok], simp_all add: lessThan_nat_numeral)

text \<open>C37. The sizes can hide the segments: when all ranks contribute one and the same size, and this size divides
  the segment size, no rank but rank 0 starts a group, and rank 0 is made the writer of the whole job however much data it
  has, although the groups are meant to hold about 1 MB each.\<close>

theorem pick_writer_aligned:
  assumes "mpi_collectives red" and "0 < n" and "n \<le> 2 ^ 30" and "\<And>j. j < n \<Longrightarrow> null \<noteq> int j"
    and "unat c dvd 2 ^ 20" and "n * unat c < 2 ^ 64"
  shows "mpi_outcome n eager red (\<lambda>i. pick_writer null i n c) (\<lambda>i. (0, 1))"
proof -
  let ?g = "group_start (\<lambda>k. unat c)"
  have pos: "0 < unat c" by (rule dvd_pos_nat [OF _ assms(5)]) simp
  obtain m where m: "2 ^ 20 = unat c * m" using assms(5) by (rule dvdE)
  have "(j * unat c + unat c - 1) div 2 ^ 20 = j * unat c div 2 ^ 20" for j
  proof -
    have "(j * unat c + unat c - 1) div unat c = j"
      using pos by (intro div_nat_eqI) (simp_all add: algebra_simps)
    then show ?thesis using pos unfolding m by (simp add: div_mult2_eq)
  qed
  then have "?g = (\<lambda>j. j = 0)" by (simp add: group_start_def fun_eq_iff)
  then have w: "writer ?g i = 0" for i using writer_props(2) [of ?g i] by simp
  have "does n eager red (\<lambda>i. pick_writer null i n c) (\<lambda>i. (0, 1))"
    using pick_writer_ok [where cnt = "\<lambda>_. c" and eager = eager, OF assms(1-4)] assms(6) w by simp
  then show ?thesis by (rule does_outcome)
qed

theorem pick_writer_aligned_witness:
  "mpi_outcome 3 (\<lambda>_ _ _. True) mpi_red (\<lambda>i. pick_writer (- 2) i 3 (2 ^ 20)) (\<lambda>i. (0, 1))"
  by (rule pick_writer_aligned [OF mpi_red_ok]) simp_all

end
