(* ===== verification/KV_Util.thy ===== *)
theory KV_Util
  imports KV_Format
begin

text \<open>
  Single-valued fields (\<open>src/kvtree_util.c\<close>): the setters remove the key and store the printed
  value below it, the getters parse the one value found there. A getter's result is its return
  code and the value it wrote through its output pointer, \<open>None\<close> when it wrote nothing.
\<close>

section \<open>Setters\<close>

text \<open>The common shape of the setters that go through \<open>kvtree_setf\<close>.\<close>

definition util_set_f :: "kvtree option \<Rightarrow> cstr \<Rightarrow> string \<Rightarrow> fmt_arg \<Rightarrow> kv_error + (int \<times> kvtree option)" where
  "util_set_f hash key fmt arg =
     (let (rc, hash1) = kvtree_unset hash key
      in case kvtree_setf hash1 None fmt [ArgStr key, arg] of
           Inl e \<Rightarrow> Inl e
         | Inr (hash2, ptr) \<Rightarrow> Inr (KVTREE_SUCCESS, hash2))"

definition kvtree_util_set_bytecount :: "kvtree option \<Rightarrow> cstr \<Rightarrow> u64 \<Rightarrow> kv_error + (int \<times> kvtree option)" where
  "kvtree_util_set_bytecount hash key cnt = util_set_f hash key ''%s %lu'' (ArgULong cnt)"

definition kvtree_util_set_crc32 :: "kvtree option \<Rightarrow> cstr \<Rightarrow> u64 \<Rightarrow> kv_error + (int \<times> kvtree option)" where
  "kvtree_util_set_crc32 hash key crc = util_set_f hash key ''%s %#x'' (ArgUInt (ucast crc))"

definition kvtree_util_set_int :: "kvtree option \<Rightarrow> cstr \<Rightarrow> int \<Rightarrow> kv_error + (int \<times> kvtree option)" where
  "kvtree_util_set_int hash key val =
     (let (rc, hash1) = kvtree_unset hash key;
          (hash2, ptr) = kvtree_set_kv_int hash1 key val
      in Inr (KVTREE_SUCCESS, hash2))"

definition kvtree_util_set_unsigned_long :: "kvtree option \<Rightarrow> cstr \<Rightarrow> u64 \<Rightarrow> kv_error + (int \<times> kvtree option)" where
  "kvtree_util_set_unsigned_long hash key val = util_set_f hash key ''%s %lu'' (ArgULong val)"

definition kvtree_util_set_str :: "kvtree option \<Rightarrow> cstr \<Rightarrow> string \<Rightarrow> kv_error + (int \<times> kvtree option)" where
  "kvtree_util_set_str hash key val =
     (let (rc, hash1) = kvtree_unset hash key;
          (hash2, ptr) = kvtree_set_kv hash1 key (Some val)
      in Inr (KVTREE_SUCCESS, hash2))"

definition kvtree_util_set_int64 :: "kvtree option \<Rightarrow> cstr \<Rightarrow> int \<Rightarrow> kv_error + (int \<times> kvtree option)" where
  "kvtree_util_set_int64 hash key val = util_set_f hash key ''%s %lld'' (ArgLongLong val)"

definition kvtree_util_set_double :: "kvtree option \<Rightarrow> cstr \<Rightarrow> u64 \<Rightarrow> kv_error + (int \<times> kvtree option)" where
  "kvtree_util_set_double hash key val = util_set_f hash key ''%s %f'' (ArgDouble val)"

definition kvtree_util_set_ptr :: "kvtree option \<Rightarrow> cstr \<Rightarrow> u64 \<Rightarrow> kv_error + (int \<times> kvtree option)" where
  "kvtree_util_set_ptr hash key val = util_set_f hash key ''%s %p'' (ArgPtr val)"

section \<open>Getters\<close>

definition kvtree_util_get_bytecount :: "kvtree option \<Rightarrow> cstr \<Rightarrow> int \<times> u64 option" where
  "kvtree_util_get_bytecount hash key =
     (case kvtree_get_val hash key of
        None \<Rightarrow> (KVTREE_FAILURE, None)
      | Some val_str \<Rightarrow> (KVTREE_SUCCESS, Some (strtoul 0 val_str)))"

definition kvtree_util_get_crc32 :: "kvtree option \<Rightarrow> cstr \<Rightarrow> int \<times> u64 option" where
  "kvtree_util_get_crc32 hash key =
     (case kvtree_get_val hash key of
        None \<Rightarrow> (KVTREE_FAILURE, None)
      | Some val_str \<Rightarrow> (KVTREE_SUCCESS, Some (strtoul 0 val_str)))"

definition kvtree_util_get_int :: "kvtree option \<Rightarrow> cstr \<Rightarrow> int \<times> int option" where
  "kvtree_util_get_int hash key =
     (case kvtree_elem_get_first_val hash key of
        None \<Rightarrow> (KVTREE_FAILURE, None)
      | Some val_str \<Rightarrow> (KVTREE_SUCCESS, Some (atoi val_str)))"

definition kvtree_util_get_unsigned_long :: "kvtree option \<Rightarrow> cstr \<Rightarrow> int \<times> u64 option" where
  "kvtree_util_get_unsigned_long hash key =
     (case kvtree_get_val hash key of
        None \<Rightarrow> (KVTREE_FAILURE, None)
      | Some val_str \<Rightarrow> (KVTREE_SUCCESS, Some (strtoul 0 val_str)))"

definition kvtree_util_get_str :: "kvtree option \<Rightarrow> cstr \<Rightarrow> int \<times> string option" where
  "kvtree_util_get_str hash key =
     (case kvtree_get_val hash key of
        None \<Rightarrow> (KVTREE_FAILURE, None)
      | Some val_str \<Rightarrow> (KVTREE_SUCCESS, Some val_str))"

definition kvtree_util_get_int64 :: "kvtree option \<Rightarrow> cstr \<Rightarrow> int \<times> int option" where
  "kvtree_util_get_int64 hash key =
     (case kvtree_get_val hash key of
        None \<Rightarrow> (KVTREE_FAILURE, None)
      | Some val_str \<Rightarrow> (KVTREE_SUCCESS, Some (strtoll val_str)))"

definition kvtree_util_get_ptr :: "kvtree option \<Rightarrow> cstr \<Rightarrow> int \<times> u64 option" where
  "kvtree_util_get_ptr hash key =
     (case kvtree_get_val hash key of
        None \<Rightarrow> (KVTREE_FAILURE, None)
      | Some val_str \<Rightarrow>
          (case sscanf_ptr val_str of
             None \<Rightarrow> (KVTREE_FAILURE, None)
           | Some val_tmp \<Rightarrow> (KVTREE_SUCCESS, Some val_tmp)))"

text \<open>\<open>strtod\<close> is a parameter: the double it returns, as its bits, and the \<open>errno\<close> it leaves. The second argument of
  \<open>kvtree_atod\<close> says whether the output pointer is NULL.\<close>

type_synonym strtod = "string \<Rightarrow> u64 \<times> int"

definition kvtree_atod :: "strtod \<Rightarrow> cstr \<Rightarrow> bool \<Rightarrow> int \<times> u64 option" where
  "kvtree_atod strtod str val_null =
     (case str of
        None \<Rightarrow> (KVTREE_FAILURE, None)
      | Some s \<Rightarrow>
          if val_null then (KVTREE_FAILURE, None)
          else (let (val, errno) = strtod s
                in if errno = 0 then (KVTREE_SUCCESS, Some val) else (KVTREE_FAILURE, None)))"

definition kvtree_util_get_double :: "strtod \<Rightarrow> kvtree option \<Rightarrow> cstr \<Rightarrow> int \<times> u64 option" where
  "kvtree_util_get_double strtod hash key =
     (case kvtree_get_val hash key of
        None \<Rightarrow> (KVTREE_FAILURE, None)
      | Some val_str \<Rightarrow>
          (let (rc, val_tmp) = kvtree_atod strtod (Some val_str) False
           in if rc = KVTREE_SUCCESS then (KVTREE_SUCCESS, val_tmp) else (KVTREE_FAILURE, None)))"

section \<open>The tree a setter leaves\<close>

text \<open>The key in front, one value below it, the other keys as they were.\<close>

definition field_tree :: "kvtree \<Rightarrow> string \<Rightarrow> string \<Rightarrow> kvtree option \<Rightarrow> kvtree" where
  "field_tree t k s leaf =
     Kvtree (Kvtree_elem (Some k) (Some (Kvtree [Kvtree_elem (Some s) leaf]))
             # drop_first (has_key k) (elems t))"

definition key_ok :: "string \<Rightarrow> bool" where
  "key_ok k \<longleftrightarrow> is_cstring k \<and> length k < KVTREE_MAX_LINE"

lemma get_field_tree:
  "kvtree_get (Some (field_tree t k s leaf)) (Some k') =
     (if k' = k then Some (Kvtree [Kvtree_elem (Some s) leaf]) else kvtree_get (Some t) (Some k'))"
  by (simp add: field_tree_def kvtree_get_eq)

lemma field_tree_wf:
  "kvtree_wf t \<Longrightarrow> is_cstring k \<Longrightarrow> is_cstring s \<Longrightarrow> hash_wf leaf \<Longrightarrow> kvtree_wf (field_tree t k s leaf)"
  unfolding field_tree_def by (rule insert_key_wf) (simp_all add: kvtree_wf_iff elem_wf_iff)

lemma paths_field_tree:
  "kvtree_wf t \<Longrightarrow> hash_paths leaf = {[]} \<Longrightarrow>
     kvtree_paths (field_tree t k s leaf) = {[k], [k, s]} \<union> prune k (kvtree_paths t)"
  by (auto simp: field_tree_def paths_insert_head paths_drop_key kvtree_paths.simps(1) [of "[_]"])

lemma field_values:
  "kvtree_get_val (Some (field_tree t k s leaf)) (Some k) = Some s"
  "kvtree_elem_get_first_val (Some (field_tree t k s leaf)) (Some k) = Some s"
  by (simp_all add: kvtree_get_val_def kvtree_elem_get_first_val_def get_field_tree
      kvtree_elem_key_def kvtree_elem_first_def)

lemma path_set_field:
  assumes "kvtree_wf t"
  shows "path_set [k, s] v (snd (kvtree_unset (Some t) (Some k))) = Some (field_tree t k s v)"
proof -
  let ?d = "Kvtree (drop_first (has_key k) (elems t))"
  have fresh: "find (has_key k) (drop_first (has_key k) (elems t)) = None"
    using assms by (rule drop_key_fresh)
  then have "kvtree_get_or_new (Some ?d) (Some k) =
      (Some (Kvtree (Kvtree_elem (Some k) (Some kvtree_new) # drop_first (has_key k) (elems t))), Some [k])"
    by (simp add: kvtree_get_or_new_eq kvtree_get_eq drop_first_none)
  then show ?thesis
    by (simp add: kvtree_assign.simps kvtree_get_eq kvtree_set_eq field_tree_def)
qed

lemma set_kv_field:
  assumes "kvtree_wf t"
  shows "fst (kvtree_set_kv (snd (kvtree_unset (Some t) (Some k))) (Some k) (Some s)) =
    Some (field_tree t k s (Some kvtree_new))"
proof -
  let ?d = "Kvtree (drop_first (has_key k) (elems t))"
  have fresh: "find (has_key k) (drop_first (has_key k) (elems t)) = None"
    using assms by (rule drop_key_fresh)
  then have "kvtree_get_or_new (Some ?d) (Some k) =
      (Some (Kvtree (Kvtree_elem (Some k) (Some kvtree_new) # drop_first (has_key k) (elems t))), Some [k])"
    by (simp add: kvtree_get_or_new_eq kvtree_get_eq drop_first_none)
  moreover have "kvtree_get_or_new (Some kvtree_new) (Some s) =
      (Some (Kvtree [Kvtree_elem (Some s) (Some kvtree_new)]), Some [s])"
    by (simp add: kvtree_get_or_new_eq kvtree_get_eq)
  ultimately show ?thesis
    by (simp add: kvtree_set_kv_def kvtree_assign.simps kvtree_get_eq field_tree_def)
qed

section \<open>The field interface\<close>

text \<open>
  A setter and a getter of one field type: the setter leaves a \<open>field_tree\<close> with the printed value,
  the getter looks only at what \<open>kvtree_get\<close> returns and parses the value of a \<open>field_tree\<close>.
\<close>

locale kv_field = value_codec fmt parse valid
  for fmt :: "'v \<Rightarrow> string" and parse :: "string \<Rightarrow> 'v option" and valid :: "'v \<Rightarrow> bool" +
  fixes put :: "kvtree option \<Rightarrow> cstr \<Rightarrow> 'v \<Rightarrow> kv_error + (int \<times> kvtree option)"
    and fetch :: "kvtree option \<Rightarrow> cstr \<Rightarrow> int \<times> 'v option"
    and leaf :: "kvtree option"
  assumes put_field: "kvtree_wf t \<Longrightarrow> key_ok k \<Longrightarrow> valid v \<Longrightarrow>
      put (Some t) (Some k) v = Inr (KVTREE_SUCCESS, Some (field_tree t k (fmt v) leaf))"
    and fetch_field: "valid v \<Longrightarrow>
      fetch (Some (field_tree t k (fmt v) leaf)) (Some k) = (KVTREE_SUCCESS, Some v)"
    and fetch_local: "kvtree_get hash key = kvtree_get hash' key \<Longrightarrow> fetch hash key = fetch hash' key"
    and leaf_empty: "hash_wf leaf" "hash_paths leaf = {[]}"
begin

lemma put_fetch:
  assumes "kvtree_wf t" and "key_ok k" and "valid v"
  shows "\<exists>u. put (Some t) (Some k) v = Inr (KVTREE_SUCCESS, Some u) \<and> kvtree_wf u \<and>
    fetch (Some u) (Some k) = (KVTREE_SUCCESS, Some v) \<and>
    (\<forall>k'. k' \<noteq> k \<longrightarrow> fetch (Some u) (Some k') = fetch (Some t) (Some k')) \<and>
    kvtree_paths u = {[k], [k, fmt v]} \<union> prune k (kvtree_paths t)"
proof (intro exI conjI allI impI)
  show "put (Some t) (Some k) v = Inr (KVTREE_SUCCESS, Some (field_tree t k (fmt v) leaf))"
    using assms by (rule put_field)
  show "kvtree_wf (field_tree t k (fmt v) leaf)"
    using assms fmt_cstring leaf_empty(1) by (simp add: field_tree_wf key_ok_def)
  show "fetch (Some (field_tree t k (fmt v) leaf)) (Some k) = (KVTREE_SUCCESS, Some v)"
    using assms(3) by (rule fetch_field)
  show "fetch (Some (field_tree t k (fmt v) leaf)) (Some k') = fetch (Some t) (Some k')" if "k' \<noteq> k" for k'
    using that by (intro fetch_local) (simp add: get_field_tree)
  show "kvtree_paths (field_tree t k (fmt v) leaf) = {[k], [k, fmt v]} \<union> prune k (kvtree_paths t)"
    using assms(1) leaf_empty(2) by (rule paths_field_tree)
qed

end

text \<open>The setters through \<open>kvtree_setf\<close>, by the directive and the argument they pass.\<close>

locale setf_field = short_codec fmt parse valid
  for fmt :: "'v \<Rightarrow> string" and parse :: "string \<Rightarrow> 'v option" and valid :: "'v \<Rightarrow> bool" +
  fixes put :: "kvtree option \<Rightarrow> cstr \<Rightarrow> 'v \<Rightarrow> kv_error + (int \<times> kvtree option)"
    and fetch :: "kvtree option \<Rightarrow> cstr \<Rightarrow> int \<times> 'v option"
    and fmtstr :: string and token :: string and arg :: "'v \<Rightarrow> fmt_arg"
  assumes put_def: "put hash key v = util_set_f hash key fmtstr (arg v)"
    and fetch_def: "fetch hash key =
      (case kvtree_get_val hash key of
         None \<Rightarrow> (KVTREE_FAILURE, None)
       | Some s \<Rightarrow> (case parse s of None \<Rightarrow> (KVTREE_FAILURE, None) | Some v \<Rightarrow> (KVTREE_SUCCESS, Some v)))"
    and tokens: "strtok_tokens [] fmtstr = [''%s'', token]"
    and token_arg: "valid v \<Longrightarrow> snprintf_key token (Some (arg v)) = Inr (fmt v)"
begin

lemma keys:
  assumes "key_ok k" and "valid v"
  shows "fmt_keys (strtok_tokens [] fmtstr) [ArgStr (Some k), arg v] = Inr [k, fmt v]"
proof -
  have "next_key ''%s'' [ArgStr (Some k), arg v] = Inr k"
    using assms(1) by (simp add: next_key_def snprintf_key_def key_ok_def)
  moreover have "next_key token [arg v] = Inr (fmt v)"
    using fmt_short [OF assms(2)] token_arg [OF assms(2)] by (simp add: next_key_def KVTREE_MAX_LINE_def)
  ultimately show ?thesis by (simp add: tokens)
qed

lemma put_eq:
  assumes "kvtree_wf t" and "key_ok k" and "valid v"
  shows "put (Some t) (Some k) v = Inr (KVTREE_SUCCESS, Some (field_tree t k (fmt v) None))"
  using kvtree_setf_eq [OF keys [OF assms(2,3)], of _ None] path_set_field [OF assms(1), of k "fmt v" None]
  by (simp add: put_def util_set_f_def)

end

sublocale setf_field \<subseteq> kv_field fmt parse valid put fetch None
proof (unfold_locales, goal_cases)
  case (3 hash key hash')
  then show ?case by (simp add: fetch_def kvtree_get_val_def)
qed (simp_all add: put_eq fetch_def field_values parse_fmt)

lemmas util_format_simps =
  snprintf_key_def kvtree_util_set_bytecount_def kvtree_util_get_bytecount_def
  kvtree_util_set_unsigned_long_def kvtree_util_get_unsigned_long_def
  kvtree_util_set_crc32_def kvtree_util_get_crc32_def kvtree_util_set_int64_def
  kvtree_util_get_int64_def kvtree_util_set_ptr_def kvtree_util_get_ptr_def

interpretation bytecount: setf_field "\<lambda>w :: u64. fmt_unsigned (unat w)" "\<lambda>s. Some (strtoul 0 s)"
  "\<lambda>_. True" kvtree_util_set_bytecount kvtree_util_get_bytecount "''%s %lu''" "''%lu''" ArgULong
  by unfold_locales (simp_all add: util_format_simps cong: option.case_cong)

interpretation ulong: setf_field "\<lambda>w :: u64. fmt_unsigned (unat w)" "\<lambda>s. Some (strtoul 0 s)"
  "\<lambda>_. True" kvtree_util_set_unsigned_long kvtree_util_get_unsigned_long "''%s %lu''" "''%lu''" ArgULong
  by unfold_locales (simp_all add: util_format_simps cong: option.case_cong)

interpretation crc: setf_field "\<lambda>w :: u64. fmt_hex_alt (unat (ucast w :: u32))"
  "\<lambda>s. Some (strtoul 0 s)" "\<lambda>w. unat w < 2 ^ 32" kvtree_util_set_crc32 kvtree_util_get_crc32
  "''%s %#x''" "''%#x''" "\<lambda>w. ArgUInt (ucast w)"
  by unfold_locales (simp_all add: util_format_simps cong: option.case_cong)

interpretation int64: setf_field fmt_signed "\<lambda>s. Some (strtoll s)" is_int64
  kvtree_util_set_int64 kvtree_util_get_int64 "''%s %lld''" "''%lld''" ArgLongLong
  by unfold_locales (simp_all add: util_format_simps cong: option.case_cong)

interpretation ptr: setf_field "\<lambda>w :: u64. fmt_ptr (unat w)" sscanf_ptr "\<lambda>_. True"
  kvtree_util_set_ptr kvtree_util_get_ptr "''%s %p''" "''%p''" ArgPtr
  by unfold_locales (simp_all add: util_format_simps cong: option.case_cong)

interpretation int32: kv_field fmt_signed "\<lambda>s. Some (atoi s)" is_int32
  kvtree_util_set_int kvtree_util_get_int "Some kvtree_new"
proof (unfold_locales, goal_cases)
  case (1 t k v)
  then show ?case
    using set_kv_field [of t k "fmt_signed v"]
    by (simp add: kvtree_util_set_int_def kvtree_set_kv_int_def Let_def case_prod_beta)
next
  case (2 v t k)
  then show ?case
    using codec_d.parse_fmt by (simp add: kvtree_util_get_int_def field_values)
next
  case (3 hash key hash')
  then show ?case by (simp add: kvtree_util_get_int_def kvtree_elem_get_first_val_def)
qed simp_all

interpretation str: kv_field "\<lambda>s. s" Some is_cstring
  kvtree_util_set_str kvtree_util_get_str "Some kvtree_new"
proof (unfold_locales, goal_cases)
  case (1 t k v)
  then show ?case
    using set_kv_field [of t k v] by (simp add: kvtree_util_set_str_def Let_def case_prod_beta)
next
  case (3 hash key hash')
  then show ?case by (simp add: kvtree_util_get_str_def kvtree_get_val_def)
qed (simp_all add: kvtree_util_get_str_def field_values)

section \<open>The text of a double\<close>

lemma round_half_even_le: "round_half_even a d \<le> Suc a"
  using div_le_dividend [of a d] by (auto simp: round_half_even_def Let_def intro: le_SucI)

lemma mantissa_less: "(m :: nat) < 2 ^ 52 \<Longrightarrow> (if b then m else 2 ^ 52 + m) < 2 ^ 53"
  by simp

lemma length_pad6: "n < 10 ^ 6 \<Longrightarrow> length (pad6 n) = 6"
  using length_nat_digits [of 10 n 5] by (simp add: pad6_def Let_def)

lemma fmt_f_short: "length (fmt_f w) < 1024" and fmt_f_cstring: "is_cstring (fmt_f w)"
proof -
  define sign where "sign = (if 2 ^ 63 \<le> unat w then ''-'' else [])"
  define e m where "e = unat w div 2 ^ 52 mod 2048" and "m = unat w mod 2 ^ 52"
  define mant ex where "mant = (if e = 0 then m else 2 ^ 52 + m) * 10 ^ 6" and "ex = (if e = 0 then 1 else e)"
  define micro where "micro = (if 1075 \<le> ex then mant * 2 ^ (ex - 1075) else round_half_even mant (2 ^ (1075 - ex)))"
  have f: "fmt_f w = (if e = 2047 then sign @ (if m = 0 then ''inf'' else ''nan'')
      else sign @ nat_digits 10 (micro div 10 ^ 6) @ ''.'' @ pad6 (micro mod 10 ^ 6))"
    by (simp only: fmt_f_def Let_def micro_def mant_def ex_def e_def m_def sign_def)
  have "m < 2 ^ 52" by (simp add: m_def)
  then have mant: "mant < 2 ^ 53 * 10 ^ 6" using mantissa_less [of m "e = 0"] by (simp add: mant_def)
  have sign: "length sign \<le> 1" "is_cstring sign" by (simp_all add: sign_def)
  show "length (fmt_f w) < 1024"
  proof (cases "e = 2047")
    case False
    have "e < 2048" by (simp add: e_def)
    with False have "e \<le> 2046" by simp
    then have ex: "ex - 1075 \<le> 971" unfolding ex_def by (cases "e = 0") auto
    have "micro < 10 ^ 309 * 10 ^ 6"
    proof (cases "1075 \<le> ex")
      case True
      have "(2 :: nat) ^ (ex - 1075) \<le> 2 ^ 971" using ex by (intro power_increasing) simp_all
      then have "mant * 2 ^ (ex - 1075) < (2 ^ 53 * 10 ^ 6) * 2 ^ 971" using mant by (intro mult_less_le_imp_less) simp_all
      also have "\<dots> \<le> 10 ^ 309 * 10 ^ 6" by simp
      finally show ?thesis using True by (simp only: micro_def if_True)
    next
      case False
      have "round_half_even mant (2 ^ (1075 - ex)) \<le> 2 ^ 53 * 10 ^ 6" using round_half_even_le [of mant] mant by (meson Suc_leI le_trans)
      also have "\<dots> < (10 :: nat) ^ 309 * 10 ^ 6" by simp
      finally show ?thesis using False by (simp only: micro_def if_False)
    qed
    then have "micro div 10 ^ 6 < 10 ^ Suc 308" by (simp add: less_mult_imp_div_less)
    then have "length (nat_digits 10 (micro div 10 ^ 6)) \<le> Suc 308" by (intro length_nat_digits) simp_all
    moreover have "length (pad6 (micro mod 10 ^ 6)) = 6" by (rule length_pad6) simp
    ultimately show ?thesis using False sign(1) by (simp add: f)
  qed (use sign(1) in \<open>simp add: f\<close>)
  have "is_cstring (pad6 k)" for k by (simp add: pad6_def Let_def cstring_digits) (simp add: is_cstring_def)
  then show "is_cstring (fmt_f w)" using sign(2) by (simp add: f cstring_digits)
qed

section \<open>Properties\<close>

text \<open>C32. A value stored with \<open>kvtree_util_set_int\<close> is the one
  \<open>kvtree_util_get_int\<close> returns, for every \<open>int\<close>; the fields of other keys read as before, and the key
  holds only the new value.\<close>

theorem int_field:
  assumes "kvtree_wf t" and "key_ok k" and "is_int32 v"
  shows "\<exists>u. kvtree_util_set_int (Some t) (Some k) v = Inr (KVTREE_SUCCESS, Some u) \<and> kvtree_wf u \<and>
    kvtree_util_get_int (Some u) (Some k) = (KVTREE_SUCCESS, Some v) \<and>
    (\<forall>k'. k' \<noteq> k \<longrightarrow> kvtree_util_get_int (Some u) (Some k') = kvtree_util_get_int (Some t) (Some k')) \<and>
    kvtree_paths u = {[k], [k, fmt_signed v]} \<union> prune k (kvtree_paths t)"
  by (rule int32.put_fetch) (use assms in simp_all)

theorem int_field_witness:
  "\<exists>u. kvtree_util_set_int (Some kvtree_new) (Some ''x'') (- 5) = Inr (KVTREE_SUCCESS, Some u) \<and> kvtree_wf u \<and>
    kvtree_util_get_int (Some u) (Some ''x'') = (KVTREE_SUCCESS, Some (- 5)) \<and>
    (\<forall>k'. k' \<noteq> ''x'' \<longrightarrow> kvtree_util_get_int (Some u) (Some k') = kvtree_util_get_int (Some kvtree_new) (Some k')) \<and>
    kvtree_paths u = {[''x''], [''x'', fmt_signed (- 5)]} \<union> prune ''x'' (kvtree_paths kvtree_new)"
  by (rule int_field) (simp_all add: key_ok_def KVTREE_MAX_LINE_def is_int32_def INT_MIN_def INT_MAX_def)

text \<open>A string stored with \<open>kvtree_util_set_str\<close> is the one \<open>kvtree_util_get_str\<close>
  returns, whatever its characters; other fields are kept.\<close>

lemma str_field:
  assumes "kvtree_wf t" and "key_ok k" and "is_cstring v"
  shows "\<exists>u. kvtree_util_set_str (Some t) (Some k) v = Inr (KVTREE_SUCCESS, Some u) \<and> kvtree_wf u \<and>
    kvtree_util_get_str (Some u) (Some k) = (KVTREE_SUCCESS, Some v) \<and>
    (\<forall>k'. k' \<noteq> k \<longrightarrow> kvtree_util_get_str (Some u) (Some k') = kvtree_util_get_str (Some t) (Some k')) \<and>
    kvtree_paths u = {[k], [k, v]} \<union> prune k (kvtree_paths t)"
  by (rule str.put_fetch) (use assms in simp_all)

text \<open>C33. \<open>kvtree_util_set_double\<close> stores the six-decimal text of the double, and \<open>kvtree_util_get_double\<close> returns what \<open>strtod\<close> makes of that text,
  or fails when \<open>strtod\<close> reports an error; other fields are kept. So two doubles with the same text leave the same tree.\<close>

theorem double_field:
  assumes "kvtree_wf t" and "key_ok k"
  shows "\<exists>u. kvtree_util_set_double (Some t) (Some k) v = Inr (KVTREE_SUCCESS, Some u) \<and> kvtree_wf u \<and>
    kvtree_util_get_double strtod (Some u) (Some k) =
      (case strtod (fmt_f v) of (w, errno) \<Rightarrow> if errno = 0 then (KVTREE_SUCCESS, Some w) else (KVTREE_FAILURE, None)) \<and>
    (\<forall>k'. k' \<noteq> k \<longrightarrow> kvtree_util_get_double strtod (Some u) (Some k') = kvtree_util_get_double strtod (Some t) (Some k')) \<and>
    kvtree_paths u = {[k], [k, fmt_f v]} \<union> prune k (kvtree_paths t) \<and>
    (\<forall>v'. fmt_f v' = fmt_f v \<longrightarrow> kvtree_util_set_double (Some t) (Some k) v' = kvtree_util_set_double (Some t) (Some k) v)"
proof -
  have put: "kvtree_util_set_double (Some t) (Some k) x = Inr (KVTREE_SUCCESS, Some (field_tree t k (fmt_f x) None))" for x
  proof -
    have "next_key ''%s'' [ArgStr (Some k), ArgDouble x] = Inr k" using assms(2) by (simp add: next_key_def snprintf_key_def key_ok_def)
    moreover have "next_key ''%f'' [ArgDouble x] = Inr (fmt_f x)" using fmt_f_short [of x] by (simp add: next_key_def snprintf_key_def KVTREE_MAX_LINE_def)
    moreover have "strtok_tokens [] ''%s %f'' = [''%s'', ''%f'']" by code_simp
    ultimately have "fmt_keys (strtok_tokens [] ''%s %f'') [ArgStr (Some k), ArgDouble x] = Inr [k, fmt_f x]" by simp
    from kvtree_setf_eq [OF this, of _ None] path_set_field [OF assms(1), of k "fmt_f x" None]
    show ?thesis by (simp add: kvtree_util_set_double_def util_set_f_def)
  qed
  let ?u = "field_tree t k (fmt_f v) None"
  have "kvtree_util_get_double strtod (Some ?u) (Some k) =
      (case strtod (fmt_f v) of (w, errno) \<Rightarrow> if errno = 0 then (KVTREE_SUCCESS, Some w) else (KVTREE_FAILURE, None))"
    by (simp add: kvtree_util_get_double_def field_values kvtree_atod_def split: prod.splits)
  moreover have "kvtree_util_get_double strtod (Some ?u) (Some k') = kvtree_util_get_double strtod (Some t) (Some k')" if "k' \<noteq> k" for k'
    using that by (simp add: kvtree_util_get_double_def kvtree_get_val_def get_field_tree)
  moreover have "kvtree_wf ?u" using assms fmt_f_cstring by (simp add: field_tree_wf key_ok_def)
  moreover have "kvtree_paths ?u = {[k], [k, fmt_f v]} \<union> prune k (kvtree_paths t)" by (rule paths_field_tree [OF assms(1)]) simp
  ultimately show ?thesis using put by simp
qed

text \<open>The double next to \<open>10 ^ -7\<close> is stored as zero.\<close>

theorem double_field_witness:
  "\<exists>u. kvtree_util_set_double (Some kvtree_new) (Some ''x'') 0x3E7AD7F29ABCAF48 = Inr (KVTREE_SUCCESS, Some u) \<and>
    kvtree_util_set_double (Some kvtree_new) (Some ''x'') 0 = Inr (KVTREE_SUCCESS, Some u) \<and> kvtree_paths u = {[], [''x''], [''x'', ''0.000000'']}"
proof -
  have "nat_digits 10 0 = ''0''" "pad6 0 = ''000000''" by code_simp+
  then have f: "fmt_f 0 = ''0.000000''" "fmt_f 0x3E7AD7F29ABCAF48 = ''0.000000''"
    by (simp_all add: fmt_f_def Let_def round_half_even_def)
  have k: "kvtree_wf kvtree_new" "key_ok ''x''" by (simp_all add: key_ok_def KVTREE_MAX_LINE_def)
  have p: "prune ''x'' (kvtree_paths kvtree_new) = {[]}" by (auto simp: prune_def)
  show ?thesis
  proof (rule exE [OF double_field [OF k, of "0x3E7AD7F29ABCAF48" "\<lambda>_. (0, 0)", unfolded f(2) p]], elim conjE, intro exI conjI, assumption)
    fix u
    assume "\<forall>v. fmt_f v = ''0.000000'' \<longrightarrow> kvtree_util_set_double (Some kvtree_new) (Some ''x'') v =
        kvtree_util_set_double (Some kvtree_new) (Some ''x'') 0x3E7AD7F29ABCAF48"
      and "kvtree_util_set_double (Some kvtree_new) (Some ''x'') 0x3E7AD7F29ABCAF48 = Inr (KVTREE_SUCCESS, Some u)"
    then show "kvtree_util_set_double (Some kvtree_new) (Some ''x'') 0 = Inr (KVTREE_SUCCESS, Some u)" using f(1) by simp
  next
    fix u :: kvtree
    assume "kvtree_paths u = {[''x''], [''x'', ''0.000000'']} \<union> {[]}"
    then show "kvtree_paths u = {[], [''x''], [''x'', ''0.000000'']}" by auto
  qed
qed

end
