(* ===== verification/KV_Gather.thy ===== *)
theory KV_Gather
  imports KV_Util KV_Sort KV_File KV_Keys
begin

text \<open>
  Gathered files without MPI, the writer (\<open>kvtree_write_to_gather\<close> of \<open>src/kvtree.c\<close>): the data of all ranks,
  split over part files with a fixed number of entries each, and a map file. The environment variable is a
  parameter: \<open>env\<close> is the value of \<open>KVTREE_ENTRIES_PER_FILE\<close>.
\<close>

section \<open>Library functions\<close>

text \<open>\<open>snprintf\<close> into a buffer of \<open>n\<close> characters keeps room for the terminator.\<close>

definition snprintf_buf :: "nat \<Rightarrow> string \<Rightarrow> string" where
  "snprintf_buf n s = take (n - 1) s"

section \<open>Writing\<close>

text \<open>One part: the entries of up to \<open>entries_per_file\<close> ranks. The variable \<open>max_rank\<close> of the code is written
  and never read.\<close>

fun gather_part ::
  "int \<Rightarrow> int \<Rightarrow> kvtree_elem list \<Rightarrow> kvtree option \<Rightarrow> (int \<times> kvtree_elem list \<times> kvtree option) option" where
  "gather_part entries_per_file cnt [] entries = Some (cnt, [], entries)"
| "gather_part entries_per_file cnt (elem # es) entries =
     (if cnt < entries_per_file then
        (case kvtree_elem_key_int (Some elem) of
           None \<Rightarrow> None
         | Some rank \<Rightarrow>
             (let entries = kvtree_merge_kv_int entries ''RANK'' rank (kvtree_elem_hash (Some elem))
              in gather_part entries_per_file (cnt + 1) es entries))
      else Some (cnt, elem # es, entries))"

text \<open>The record of a part in the map file.\<close>

definition gather_record :: "kvtree option \<Rightarrow> int \<Rightarrow> kvtree option option" where
  "gather_record files_hash writer =
     (let partname = snprintf_buf 1024 (''.0.'' @ fmt_signed writer);
          (files_hash, ptr) = kvtree_set_kv_int files_hash (Some ''RANK'') writer
      in case kvtree_util_set_str (kvtree_deref files_hash ptr) (Some ''FILE'') partname of
           Inl _ \<Rightarrow> None
         | Inr (_, files_rank_hash) \<Rightarrow>
             (case kvtree_util_set_bytecount files_rank_hash (Some ''OFFSET'') 0 of
                Inl _ \<Rightarrow> None
              | Inr (_, files_rank_hash) \<Rightarrow> Some (kvtree_write_ptr files_hash ptr files_rank_hash)))"

text \<open>The loop over the parts. It advances by the number of entries of a part, and does not end when that
  is zero. \<open>None\<close> stands for not returning: either the loop goes on forever or a call in it aborts or leaves
  a buffer; what tells them apart is whether the calls of a round return, see \<open>empty_round\<close>.\<close>

partial_function (option) gather_loop ::
  "endian \<Rightarrow> crc \<Rightarrow> string \<Rightarrow> int \<Rightarrow> int \<Rightarrow> os \<Rightarrow> int \<Rightarrow> kvtree_elem list \<Rightarrow> int \<Rightarrow> kvtree option \<Rightarrow>
     (os \<times> int \<times> kvtree option) option" where
  "gather_loop e crc32 prefix ranks entries_per_file os writer es rc files_hash =
     (if es = [] then Some (os, rc, files_hash)
      else
        (let entries = fst (kvtree_set_kv_int (Some kvtree_new) (Some ''LEVEL'') 0);
             entries = fst (kvtree_set_kv_int entries (Some ''RANKS'') ranks)
         in Option.bind (gather_part entries_per_file 0 es entries) (\<lambda>(cnt, es1, entries).
            Option.bind (kvtree_write_file e crc32 os
                (Some (snprintf_buf 1024 (prefix @ ''.0.'' @ fmt_signed writer))) entries) (\<lambda>(os1, wrc).
            Option.bind (gather_record files_hash writer) (\<lambda>files_hash1.
            gather_loop e crc32 prefix ranks entries_per_file os1 (writer + cnt)
              (if wrc \<noteq> KVTREE_SUCCESS then [] else es1)
              (if wrc \<noteq> KVTREE_SUCCESS then KVTREE_FAILURE else rc) files_hash1)))))"

definition kvtree_write_to_gather ::
  "endian \<Rightarrow> crc \<Rightarrow> string option \<Rightarrow> os \<Rightarrow> string \<Rightarrow> kvtree option \<Rightarrow> int \<Rightarrow> (os \<times> int \<times> kvtree option) option" where
  "kvtree_write_to_gather e crc32 env os prefix data ranks =
     (let entries_per_file = (case env of None \<Rightarrow> 8192 | Some s \<Rightarrow> atol s)
      in do {
        (_, data) \<leftarrow> kvtree_sort_int data KVTREE_SORT_ASCENDING;
        let files_hash = fst (kvtree_set_kv_int (Some kvtree_new) (Some ''LEVEL'') 1);
        (os, rc, files_hash) \<leftarrow>
          gather_loop e crc32 prefix ranks entries_per_file os 0 (hash_elems data) KVTREE_SUCCESS files_hash;
        let files_hash = fst (kvtree_set_kv_int files_hash (Some ''RANKS'') ranks);
        (os, wrc) \<leftarrow> kvtree_write_file e crc32 os (Some prefix) files_hash;
        Some (os, if wrc \<noteq> KVTREE_SUCCESS then KVTREE_FAILURE else rc, data)
      })"

section \<open>One part\<close>

text \<open>Trees with more key paths are larger by what the paths cost.\<close>

lemma size_add:
  assumes "kvtree_wf t" and "kvtree_wf u" and "kvtree_paths u \<subseteq> kvtree_paths t \<union> set ps"
  shows "kvtree_pack_size (Some u) \<le> kvtree_pack_size (Some t) + (\<Sum>p\<leftarrow>ps. path_cost p)"
proof -
  have "(\<Sum>p \<in> kvtree_paths u. path_cost p) \<le> (\<Sum>p \<in> kvtree_paths t \<union> set ps. path_cost p)"
    using assms(3) by (intro sum_mono2) auto
  also have "\<dots> \<le> (\<Sum>p \<in> kvtree_paths t. path_cost p) + (\<Sum>p \<in> set ps. path_cost p)"
    by (subst sum_Un_nat) auto
  also have "(\<Sum>p \<in> set ps. path_cost p) \<le> (\<Sum>p\<leftarrow>ps. path_cost p)"
    by (induction ps) (auto simp: insert_absorb sum.insert_if)
  finally show ?thesis using assms(1,2) by (simp add: pack_size_cost)
qed

definition part_head :: "int \<Rightarrow> kvpath set" where
  "part_head ranks = {[], [''LEVEL''], [''LEVEL'', ''0''], [''RANKS''], [''RANKS'', fmt_signed ranks]}"

lemma fmt_signed_small [simp]: "fmt_signed 0 = ''0''" "fmt_signed 1 = ''1''"
  by code_simp+

lemma set_kv_int_tree:
  assumes "kvtree_wf t" and "is_cstring k"
  obtains u where "fst (kvtree_set_kv_int (Some t) (Some k) i) = Some u" and "kvtree_wf u"
    and "kvtree_paths u = kvtree_paths t \<union> {[k], [k, fmt_signed i]}"
  using set_kv_int_spec [OF assms, of i] by (metis fst_conv)

lemma part_start:
  obtains t where "fst (kvtree_set_kv_int (fst (kvtree_set_kv_int (Some kvtree_new) (Some ''LEVEL'') 0)) (Some ''RANKS'') ranks) = Some t"
    and "kvtree_wf t" and "kvtree_paths t = part_head ranks"
proof -
  obtain t where t: "fst (kvtree_set_kv_int (Some kvtree_new) (Some ''LEVEL'') 0) = Some t" "kvtree_wf t"
    "kvtree_paths t = kvtree_paths kvtree_new \<union> {[''LEVEL''], [''LEVEL'', fmt_signed 0]}"
    by (rule set_kv_int_tree [of kvtree_new "''LEVEL''" 0]) simp_all
  obtain u where u: "fst (kvtree_set_kv_int (Some t) (Some ''RANKS'') ranks) = Some u" "kvtree_wf u"
    "kvtree_paths u = kvtree_paths t \<union> {[''RANKS''], [''RANKS'', fmt_signed ranks]}"
    by (rule set_kv_int_tree [OF t(2), of "''RANKS''" ranks]) simp_all
  have "kvtree_paths u = part_head ranks" unfolding u(3) t(3) part_head_def by auto
  with t u that show thesis by simp
qed

definition under_RANK :: "kvtree_elem list \<Rightarrow> kvpath set" where
  "under_RANK es = (if es = [] then {} else {[''RANK'']}) \<union> (#) ''RANK'' ` (\<Union>x \<in> set es. elem_paths x)"

lemma under_RANK_simps [simp]:
  "under_RANK [] = {}"
  "under_RANK (x # es) = insert [''RANK''] ((#) ''RANK'' ` elem_paths x) \<union> under_RANK es"
  by (auto simp: under_RANK_def)

lemma gather_part_spec:
  assumes "rank_keys n es" and "n \<le> 2 ^ 31" and "kvtree_wf t"
  shows "\<exists>u. gather_part m cnt es (Some t) =
      Some (cnt + int (min (length es) (nat (m - cnt))), drop (nat (m - cnt)) es, Some u) \<and>
    kvtree_wf u \<and> kvtree_paths u = kvtree_paths t \<union> under_RANK (take (nat (m - cnt)) es)"
  using assms(1,3)
proof (induction es arbitrary: cnt t)
  case (Cons x es)
  show ?case
  proof (cases "cnt < m")
    case True
    from Cons.prems obtain d h where x: "x = Kvtree_elem (Some (rank_key d)) h" "d < n" "hash_wf h" by (cases x) auto
    then have key: "kvtree_elem_key_int (Some x) = Some (int d)" "kvtree_elem_hash (Some x) = h"
      using assms(2) by (simp_all add: kvtree_elem_key_int_def kvtree_elem_hash_def atoi_key)
    obtain v where v: "kvtree_merge_kv_int (Some t) ''RANK'' (int d) h = Some v" "kvtree_wf v"
      "kvtree_paths v = kvtree_paths t \<union> insert [''RANK''] ((@) [''RANK'', rank_key d] ` hash_paths h)"
      using merge_kv_int_spec [OF Cons.prems(2) _ x(3), of "''RANK''" "int d"] by (auto simp: rank_key_def)
    have "(@) [''RANK'', rank_key d] ` hash_paths h = (#) ''RANK'' ` elem_paths x" by (simp add: x(1) image_image)
    moreover obtain k where k: "nat (m - cnt) = Suc k" "k = nat (m - (cnt + 1))" using True by (cases "nat (m - cnt)") auto
    ultimately show ?thesis
      using Cons.IH [of v "cnt + 1"] Cons.prems True key v by (auto simp: Un_ac)
  next
    case False
    then show ?thesis using Cons.prems by simp
  qed
qed simp

section \<open>The map file\<close>

lemma paths_assign_sub:
  assumes "kvtree_lookup hash p = Some s"
  shows "hash_paths (kvtree_assign hash p v) \<subseteq> hash_paths hash \<union> (@) p ` hash_paths v"
  using assms
proof (induction p arbitrary: hash)
  case (Cons k p)
  then obtain t where t: "hash = Some t" by (cases hash) auto
  have "kvtree_get hash (Some k) \<noteq> None" using Cons.prems by (cases "kvtree_get hash (Some k)") auto
  then obtain x where x: "find (has_key k) (elems t) = Some x"
    by (auto simp: t kvtree_get_eq Option.bind_eq_Some_conv)
  have key: "elem_key x = Some k" "x \<in> set (elems t)" using find_mem [OF x] by (auto simp: has_key_def)
  let ?f = "\<lambda>e. Kvtree_elem (elem_key e) (kvtree_assign (elem_hash e) p v)"
  have sub: "hash_paths (kvtree_assign (elem_hash x) p v) \<subseteq> hash_paths (elem_hash x) \<union> (@) p ` hash_paths v"
    using Cons.IH [of "elem_hash x"] Cons.prems x t by (simp add: kvtree_get_eq)
  have "set (update_first (has_key k) ?f es) \<subseteq> insert (?f x) (set es)" if "find (has_key k) es = Some x" for es
    using that by (induction es) (auto split: if_splits)
  from this [OF x] have "(\<Union>y \<in> set (update_first (has_key k) ?f (elems t)). elem_paths y) \<subseteq> kvtree_paths t \<union> elem_paths (?f x)"
    unfolding paths_elems [of t] by blast
  then have "hash_paths (kvtree_assign hash (k # p) v) \<subseteq> kvtree_paths t \<union> elem_paths (?f x)"
    using Nil_in_paths(1) [of t] by (simp add: t kvtree_assign.simps paths_elems [of "Kvtree _"])
  also have "elem_paths (?f x) = (#) k ` hash_paths (kvtree_assign (elem_hash x) p v)"
    by (subst elem_paths_key [of _ k]) (simp_all add: key)
  also have "\<dots> \<subseteq> (#) k ` (hash_paths (elem_hash x) \<union> (@) p ` hash_paths v)" by (rule image_mono [OF sub])
  also have "\<dots> \<subseteq> kvtree_paths t \<union> (@) (k # p) ` hash_paths v"
    using key(2) elem_paths_key [OF key(1)] by (auto simp: paths_elems)
  finally show ?case by (auto simp: t)
qed (auto simp: kvtree_assign.simps)

definition record_paths :: "int \<Rightarrow> kvpath list" where
  "record_paths w =
     [[''RANK''], [''RANK'', fmt_signed w], [''RANK'', fmt_signed w, ''FILE''],
      [''RANK'', fmt_signed w, ''FILE'', ''.0.'' @ fmt_signed w], [''RANK'', fmt_signed w, ''OFFSET''],
      [''RANK'', fmt_signed w, ''OFFSET'', ''0'']]"

lemma partname_fits: "is_int64 w \<Longrightarrow> snprintf_buf 1024 (''.0.'' @ fmt_signed w) = ''.0.'' @ fmt_signed w"
  using length_signed [of w] by (simp add: snprintf_buf_def)

lemma record_tree:
  assumes "kvtree_wf s" and "is_cstring pn"
  obtains s1 s2 where "kvtree_util_set_str (Some s) (Some ''FILE'') pn = Inr (KVTREE_SUCCESS, Some s1)"
    and "kvtree_util_set_bytecount (Some s1) (Some ''OFFSET'') 0 = Inr (KVTREE_SUCCESS, Some s2)"
    and "kvtree_wf s2" and "kvtree_paths s2 \<subseteq> kvtree_paths s \<union> {[''FILE''], [''FILE'', pn], [''OFFSET''], [''OFFSET'', ''0'']}"
proof -
  have ok: "key_ok ''FILE''" "key_ok ''OFFSET''" by (simp_all add: key_ok_def KVTREE_MAX_LINE_def)
  obtain s1 where s1: "kvtree_util_set_str (Some s) (Some ''FILE'') pn = Inr (KVTREE_SUCCESS, Some s1)" "kvtree_wf s1"
    "kvtree_paths s1 = {[''FILE''], [''FILE'', pn]} \<union> prune ''FILE'' (kvtree_paths s)"
    using str.put_fetch [OF assms(1) ok(1) assms(2)] by blast
  obtain s2 where s2: "kvtree_util_set_bytecount (Some s1) (Some ''OFFSET'') 0 = Inr (KVTREE_SUCCESS, Some s2)" "kvtree_wf s2"
    "kvtree_paths s2 = {[''OFFSET''], [''OFFSET'', fmt_unsigned (unat (0 :: u64))]} \<union> prune ''OFFSET'' (kvtree_paths s1)"
    using bytecount.put_fetch [OF s1(2) ok(2), of 0] by blast
  have "fmt_unsigned (unat (0 :: u64)) = ''0''" using fmt_signed_small(1) by (simp add: fmt_signed_def fmt_unsigned_def)
  then have "kvtree_paths s2 \<subseteq> kvtree_paths s \<union> {[''FILE''], [''FILE'', pn], [''OFFSET''], [''OFFSET'', ''0'']}"
    unfolding s2(3) s1(3) prune_def by auto
  with s1 s2 that show thesis by blast
qed

lemma gather_record_spec:
  assumes "kvtree_wf t" and "is_int64 w"
  obtains u where "gather_record (Some t) w = Some (Some u)" and "kvtree_wf u"
    and "kvtree_paths u \<subseteq> kvtree_paths t \<union> set (record_paths w)"
proof -
  let ?p = "[''RANK'', fmt_signed w]" and ?pn = "''.0.'' @ fmt_signed w"
  obtain v s where v: "kvtree_set_kv_int (Some t) (Some ''RANK'') w = (Some v, Some ?p)"
    "kvtree_wf v" "kvtree_lookup (Some v) ?p = Some s" "kvtree_paths v = kvtree_paths t \<union> {[''RANK''], ?p}"
    using set_kv_int_spec [OF assms(1), of "''RANK''" w] by auto
  note s = lookup_paths [OF v(2,3)]
  obtain s1 s2 where r: "kvtree_util_set_str (Some s) (Some ''FILE'') ?pn = Inr (KVTREE_SUCCESS, Some s1)"
    "kvtree_util_set_bytecount (Some s1) (Some ''OFFSET'') 0 = Inr (KVTREE_SUCCESS, Some s2)"
    "kvtree_wf s2" "kvtree_paths s2 \<subseteq> kvtree_paths s \<union> {[''FILE''], [''FILE'', ?pn], [''OFFSET''], [''OFFSET'', ''0'']}"
    by (rule record_tree [OF s(1), of ?pn]) (simp_all add: cstring_signed)
  let ?u = "kvtree_assign (Some v) ?p (Some s2)"
  have "hash_wf ?u" using v(2) r(3) by (intro assign_wf) simp_all
  moreover have "?u \<noteq> None" by (rule kvtree_assign_nonnull) simp_all
  moreover have "hash_paths ?u \<subseteq> kvtree_paths v \<union> (@) ?p ` kvtree_paths s2"
    using paths_assign_sub [OF v(3), of "Some s2"] by simp
  then have "hash_paths ?u \<subseteq> kvtree_paths t \<union> set (record_paths w)"
    using r(4) unfolding s(2) v(4) record_paths_def by auto
  moreover have "gather_record (Some t) w = Some ?u"
    using v(1,3) r(1,2) by (simp add: gather_record_def kvtree_write_ptr_def partname_fits [OF assms(2), simplified] Let_def del: kvtree_lookup.simps kvtree_assign.simps)
  ultimately show thesis using that by (cases ?u) (simp_all del: kvtree_assign.simps)
qed

section \<open>The loop over the parts\<close>

definition part_file :: "string \<Rightarrow> int \<Rightarrow> string" where
  "part_file prefix w = prefix @ ''.0.'' @ fmt_signed w"

lemma part_file_fits:
  "length prefix < 1000 \<Longrightarrow> is_int64 w \<Longrightarrow> snprintf_buf 1024 (prefix @ ''.0.'' @ fmt_signed w) = part_file prefix w"
  using length_signed [of w] by (simp add: snprintf_buf_def part_file_def)

text \<open>What a part file holds, and the invariant of the map file after \<open>m\<close> records.\<close>

definition part_of :: "int \<Rightarrow> kvtree_elem list \<Rightarrow> kvtree \<Rightarrow> bool" where
  "part_of ranks es t \<longleftrightarrow> kvtree_wf t \<and> kvtree_paths t = part_head ranks \<union> under_RANK es"

definition map_ok :: "nat \<Rightarrow> kvtree \<Rightarrow> bool" where
  "map_ok m t \<longleftrightarrow> kvtree_wf t \<and> (\<forall>p \<in> kvtree_paths t. p = [] \<or> hd p \<in> {''LEVEL'', ''RANK''}) \<and>
     kvtree_pack_size (Some t) \<le> 20 + 100 * m"

lemma record_cost: "is_int64 w \<Longrightarrow> (\<Sum>p\<leftarrow>record_paths w. path_cost p) \<le> 100"
  using length_signed [of w] by (simp add: record_paths_def path_cost_def)

lemma map_ok_record:
  assumes "map_ok m t" and "is_int64 w"
  obtains u where "gather_record (Some t) w = Some (Some u)" and "map_ok (Suc m) u"
proof -
  have wf: "kvtree_wf t" using assms(1) by (simp add: map_ok_def)
  obtain u where u: "gather_record (Some t) w = Some (Some u)" "kvtree_wf u"
    "kvtree_paths u \<subseteq> kvtree_paths t \<union> set (record_paths w)"
    by (rule gather_record_spec [OF wf assms(2)])
  have "\<forall>p \<in> kvtree_paths u. p = [] \<or> hd p \<in> {''LEVEL'', ''RANK''}"
    using u(3) assms(1) by (auto simp: map_ok_def record_paths_def)
  moreover have "kvtree_pack_size (Some u) \<le> 20 + 100 * Suc m"
    using size_add [OF wf u(2,3)] record_cost [OF assms(2)] assms(1) by (simp add: map_ok_def)
  ultimately show thesis using that u by (simp add: map_ok_def)
qed

text \<open>The size of a part is bounded by the size of the data.\<close>

lemma under_RANK_cost:
  assumes "rank_keys n es"
  shows "(\<Sum>p \<in> under_RANK es. path_cost p) \<le> 9 + (\<Sum>p \<in> (\<Union>x \<in> set es. elem_paths x). path_cost p)"
proof -
  let ?U = "\<Union>x \<in> set es. elem_paths x"
  have fin: "finite ?U"
  proof (intro finite_UN_I)
    fix x assume "x \<in> set es"
    then obtain d where "elem_key x = Some (rank_key d)" using assms by (auto simp: rank_keys_def)
    then show "finite (elem_paths x)" by (simp add: elem_paths_key)
  qed simp
  have ne: "[] \<notin> ?U" using assms by (auto simp: rank_keys_def elem_paths_key)
  have "(\<Sum>p \<in> (#) ''RANK'' ` ?U. path_cost p) = (\<Sum>p \<in> ?U. path_cost (''RANK'' # p))"
    by (simp add: sum.reindex inj_on_def)
  also have "\<dots> = (\<Sum>p \<in> ?U. path_cost p)" using ne by (intro sum.cong) (auto simp: path_cost_def)
  finally have "(\<Sum>p \<in> (#) ''RANK'' ` ?U. path_cost p) = (\<Sum>p \<in> ?U. path_cost p)" .
  moreover have "(\<Sum>p \<in> under_RANK es. path_cost p) \<le> (\<Sum>p \<in> {[''RANK'']}. path_cost p) + (\<Sum>p \<in> (#) ''RANK'' ` ?U. path_cost p)"
    unfolding under_RANK_def using fin by (subst sum_Un_nat) (auto intro!: add_mono sum_mono2)
  ultimately show ?thesis by (simp add: path_cost_def)
qed

lemma part_size:
  assumes "part_of ranks es t" and "rank_keys n es" and "is_int64 ranks"
  shows "kvtree_pack_size (Some t) \<le> 100 + (\<Sum>p \<in> (\<Union>x \<in> set es. elem_paths x). path_cost p)"
proof -
  have len: "length (fmt_signed ranks) \<le> 21" by (rule length_signed [OF assms(3)])
  have fin: "finite (under_RANK es)"
    using finite_paths(1) [of t] assms(1) unfolding part_of_def by (metis finite_Un)
  have "kvtree_pack_size (Some t) = (\<Sum>p \<in> part_head ranks \<union> under_RANK es. path_cost p)"
    using assms(1) pack_size_cost [of t] by (simp add: part_of_def)
  also have "\<dots> \<le> (\<Sum>p \<in> part_head ranks. path_cost p) + (\<Sum>p \<in> under_RANK es. path_cost p)"
    using fin by (subst sum_Un_nat) (auto simp: part_head_def)
  also have "(\<Sum>p \<in> part_head ranks. path_cost p) \<le> 62"
    using len by (simp add: part_head_def path_cost_def)
  finally show ?thesis using under_RANK_cost [OF assms(2)] by simp
qed

lemma map_ok_mono: "map_ok m t \<Longrightarrow> m \<le> m' \<Longrightarrow> map_ok m' t"
  by (auto simp: map_ok_def)

lemma rank_keys_sub: "rank_keys n es \<Longrightarrow> set es' \<subseteq> set es \<Longrightarrow> rank_keys n es'"
  by (auto simp: rank_keys_def)

lemma elems_cost_mono:
  assumes "rank_keys n es" and "set es' \<subseteq> set es"
  shows "(\<Sum>p \<in> (\<Union>x \<in> set es'. elem_paths x). path_cost p) \<le> (\<Sum>p \<in> (\<Union>x \<in> set es. elem_paths x). path_cost p)"
proof (rule sum_mono2)
  have "finite (elem_paths x)" if "x \<in> set es" for x
    using assms(1) that by (auto simp: rank_keys_def elem_paths_key)
  then show "finite (\<Union>x \<in> set es. elem_paths x)" by simp
qed (use assms(2) in auto)

text \<open>The first part: its tree, and what writing it does.\<close>

lemma first_part:
  assumes "rank_keys n es" and "n \<le> 2 ^ 31" and "is_int64 ranks"
  obtains t v where "fst (kvtree_set_kv_int (fst (kvtree_set_kv_int (Some kvtree_new) (Some ''LEVEL'') 0)) (Some ''RANKS'') ranks) = Some t"
    and "gather_part m 0 es (Some t) = Some (int (min (length es) (nat m)), drop (nat m) es, Some v)"
    and "part_of ranks (take (nat m) es) v"
proof -
  obtain t where t: "fst (kvtree_set_kv_int (fst (kvtree_set_kv_int (Some kvtree_new) (Some ''LEVEL'') 0)) (Some ''RANKS'') ranks) = Some t"
    "kvtree_wf t" "kvtree_paths t = part_head ranks" by (rule part_start)
  from gather_part_spec [OF assms(1,2) t(2), of m 0] t that show thesis by (auto simp: part_of_def)
qed

lemma gather_loop_step:
  assumes "es \<noteq> []" and "rank_keys n es" and "n \<le> 2 ^ 31" and "is_int64 ranks" and "is_int64 w" and "length prefix < 1000"
    and "crc32_local crc32" and "map_ok c t" and "(\<Sum>p \<in> (\<Union>x \<in> set es. elem_paths x). path_cost p) < 2 ^ 31"
  obtains v u os1 wrc where "part_of ranks (take (nat m) es) v" and "map_ok (Suc c) u"
    and "gather_loop e crc32 prefix ranks m os w es rc (Some t) =
      gather_loop e crc32 prefix ranks m os1 (w + int (min (length es) (nat m)))
        (if wrc \<noteq> KVTREE_SUCCESS then [] else drop (nat m) es)
        (if wrc \<noteq> KVTREE_SUCCESS then KVTREE_FAILURE else rc) (Some u)"
    and "wrc = KVTREE_SUCCESS \<longrightarrow> os_files os1 = (os_files os)(part_file prefix w \<mapsto> file_image crc32 v)"
    and "calm (os_script os) \<longrightarrow> wrc = KVTREE_SUCCESS \<and> calm (os_script os1)"
proof -
  obtain t0 v where v: "fst (kvtree_set_kv_int (fst (kvtree_set_kv_int (Some kvtree_new) (Some ''LEVEL'') 0)) (Some ''RANKS'') ranks) = Some t0"
    "gather_part m 0 es (Some t0) = Some (int (min (length es) (nat m)), drop (nat m) es, Some v)"
    "part_of ranks (take (nat m) es) v"
    by (rule first_part [OF assms(2-4)])
  have sub: "set (take (nat m) es) \<subseteq> set es" by (rule set_take_subset)
  have "kvtree_pack_size (Some v) \<le> 100 + (\<Sum>p \<in> (\<Union>x \<in> set es. elem_paths x). path_cost p)"
    using part_size [OF v(3) rank_keys_sub [OF assms(2) sub] assms(4)] elems_cost_mono [OF assms(2) sub] by simp
  then have size: "kvtree_persist_size (Some v) < 2 ^ 63"
    using assms(9) by (simp add: kvtree_persist_size_def file_consts)
  obtain os1 wrc where w: "kvtree_write_file e crc32 os (Some (part_file prefix w)) (Some v) = Some (os1, wrc)"
    "wrc = KVTREE_SUCCESS \<longrightarrow> os_files os1 = (os_files os)(part_file prefix w \<mapsto> file_image crc32 v)"
    "calm (os_script os) \<longrightarrow> wrc = KVTREE_SUCCESS \<and> calm (os_script os1)"
    using write_file_total [OF assms(7) size, of e os "part_file prefix w"] by blast
  obtain u where u: "gather_record (Some t) w = Some (Some u)" "map_ok (Suc c) u"
    by (rule map_ok_record [OF assms(8,5)])
  have "gather_loop e crc32 prefix ranks m os w es rc (Some t) =
      gather_loop e crc32 prefix ranks m os1 (w + int (min (length es) (nat m)))
        (if wrc \<noteq> KVTREE_SUCCESS then [] else drop (nat m) es)
        (if wrc \<noteq> KVTREE_SUCCESS then KVTREE_FAILURE else rc) (Some u)"
    by (subst gather_loop.simps) (simp only: assms(1) if_False Let_def v(1,2) bind.bind_lunit prod.case
        part_file_fits [OF assms(6,5)] w(1) u(1))
  with v(3) u(2) w(2,3) that show thesis by blast
qed

text \<open>The files after the loop: part \<open>j\<close> has the entries \<open>j * m\<close> to \<open>(j + 1) * m - 1\<close>, under the name of the
  first of them; no other file has changed.\<close>

definition parts_written :: "crc \<Rightarrow> string \<Rightarrow> int \<Rightarrow> nat \<Rightarrow> int \<Rightarrow> kvtree_elem list \<Rightarrow> os \<Rightarrow> os \<Rightarrow> (nat \<Rightarrow> kvtree) \<Rightarrow> bool" where
  "parts_written crc32 prefix ranks m w es os os' T \<longleftrightarrow>
     (\<forall>j. j * m < length es \<longrightarrow> part_of ranks (take m (drop (j * m) es)) (T j) \<and>
        os_files os' (part_file prefix (w + int (j * m))) = Some (file_image crc32 (T j))) \<and>
     (\<forall>f. (\<forall>j. j * m < length es \<longrightarrow> f \<noteq> part_file prefix (w + int (j * m))) \<longrightarrow> os_files os' f = os_files os f)"

lemma part_file_inj: "is_int32 v \<Longrightarrow> is_int32 w \<Longrightarrow> part_file prefix v = part_file prefix w \<longleftrightarrow> v = w"
  using codec_d.fmt_inj [of v w] by (simp add: part_file_def)

lemma parts_written_Nil: "parts_written crc32 prefix ranks m w [] os os T"
  by (simp add: parts_written_def)

lemma parts_written_Cons:
  assumes "part_of ranks (take m es) v" and "os_files os1 = (os_files os)(part_file prefix w \<mapsto> file_image crc32 v)"
    and "parts_written crc32 prefix ranks m (w + int (min (length es) m)) (drop m es) os1 os' T"
    and m: "0 < m" and w: "0 \<le> w" "w + int (length es) \<le> 2 ^ 31" and "es \<noteq> []"
  shows "parts_written crc32 prefix ranks m w es os os' (\<lambda>j. if j = 0 then v else T (j - 1))"
proof -
  have next_w: "w + int (min (length es) m) + int (j * m) = w + int (Suc j * m)" if "Suc j * m < length es" for j
    using that by (simp add: min_def)
  have bound: "j * m < length (drop m es) \<longleftrightarrow> Suc j * m < length es" for j by auto
  have r: "is_int32 (w + int (j * m))" if "j * m < length es" for j
  proof -
    have "int (j * m) < int (length es)" using that by (simp only: of_nat_less_iff)
    then show ?thesis using w by (simp add: is_int32_def INT_MIN_def INT_MAX_def del: of_nat_mult)
  qed
  have rest: "part_of ranks (take m (drop (Suc k * m) es)) (T k) \<and>
      os_files os' (part_file prefix (w + int (Suc k * m))) = Some (file_image crc32 (T k))" if k: "Suc k * m < length es" for k
  proof -
    have "drop (k * m) (drop m es) = drop (Suc k * m) es" by (simp add: add.commute)
    with assms(3) [unfolded parts_written_def bound, THEN conjunct1, rule_format, OF k]
    show ?thesis unfolding next_w [OF k] by (simp only:)
  qed
  have first: "os_files os' (part_file prefix w) = Some (file_image crc32 v)"
  proof -
    have "part_file prefix w \<noteq> part_file prefix (w + int (min (length es) m) + int (j * m))"
      if "Suc j * m < length es" for j
    proof -
      have "is_int32 w" using r [of 0] \<open>es \<noteq> []\<close> by simp
      moreover have "0 < Suc j * m" using m by simp
      then have "w \<noteq> w + int (Suc j * m)" by linarith
      ultimately show ?thesis unfolding next_w [OF that] using part_file_inj [OF _ r [OF that], of w prefix] by blast
    qed
    then show ?thesis using assms(2,3) unfolding parts_written_def bound by simp
  qed
  show ?thesis
    unfolding parts_written_def
  proof (intro conjI allI impI)
    fix j assume j: "j * m < length es"
    have "part_of ranks (take m (drop (j * m) es)) (if j = 0 then v else T (j - 1)) \<and>
        os_files os' (part_file prefix (w + int (j * m))) = Some (file_image crc32 (if j = 0 then v else T (j - 1)))"
      using assms(1) first rest [of "j - 1"] j by (cases j) simp_all
    then show "part_of ranks (take m (drop (j * m) es)) (if j = 0 then v else T (j - 1))"
      "os_files os' (part_file prefix (w + int (j * m))) = Some (file_image crc32 (if j = 0 then v else T (j - 1)))"
      by blast+
  next
    fix f assume f: "\<forall>j. j * m < length es \<longrightarrow> f \<noteq> part_file prefix (w + int (j * m))"
    then have "f \<noteq> part_file prefix w" using \<open>es \<noteq> []\<close> by (auto dest: spec [of _ 0])
    moreover have "f \<noteq> part_file prefix (w + int (min (length es) m) + int (j * m))" if "Suc j * m < length es" for j
      unfolding next_w [OF that] by (rule f [rule_format, OF that])
    ultimately show "os_files os' f = os_files os f"
      using assms(2,3) unfolding parts_written_def bound by simp
  qed
qed

lemma gather_loop_total:
  assumes m: "0 < m" and n: "n \<le> 2 ^ 31" "is_int64 ranks" "length prefix < 1000" "crc32_local crc32"
    and es: "rank_keys n es" "(\<Sum>p \<in> (\<Union>x \<in> set es. elem_paths x). path_cost p) < 2 ^ 31"
    and w: "0 \<le> w" "w + int (length es) \<le> 2 ^ 31" and t: "map_ok c t"
  shows "\<exists>os' rc' u T. gather_loop e crc32 prefix ranks m os w es rc (Some t) = Some (os', rc', Some u) \<and>
    map_ok (c + length es) u \<and>
    (calm (os_script os) \<longrightarrow> rc' = rc \<and> calm (os_script os') \<and> parts_written crc32 prefix ranks (nat m) w es os os' T)"
  using es w t
proof (induction "length es" arbitrary: es os w rc c t rule: less_induct)
  case less
  show ?case
  proof (cases "es = []")
    case True
    then show ?thesis using less.prems(5) by (auto simp: gather_loop.simps parts_written_Nil)
  next
    case False
    have w64: "is_int64 w" using less.prems(3,4) by (simp add: is_int64_def LONG_MIN_def LONG_MAX_def)
    obtain v u os1 wrc where st: "part_of ranks (take (nat m) es) v" "map_ok (Suc c) u"
      "gather_loop e crc32 prefix ranks m os w es rc (Some t) =
        gather_loop e crc32 prefix ranks m os1 (w + int (min (length es) (nat m)))
          (if wrc \<noteq> KVTREE_SUCCESS then [] else drop (nat m) es)
          (if wrc \<noteq> KVTREE_SUCCESS then KVTREE_FAILURE else rc) (Some u)"
      "wrc = KVTREE_SUCCESS \<longrightarrow> os_files os1 = (os_files os)(part_file prefix w \<mapsto> file_image crc32 v)"
      "calm (os_script os) \<longrightarrow> wrc = KVTREE_SUCCESS \<and> calm (os_script os1)"
      by (rule gather_loop_step [OF False less.prems(1) n(1,2) w64 n(3,4) less.prems(5,2)])
    show ?thesis
    proof (cases "wrc = KVTREE_SUCCESS")
      case fail: False
      have "map_ok (c + length es) u" using map_ok_mono [OF st(2), of "c + length es"] False by (cases es) auto
      then show ?thesis using fail st(3,5) by (auto simp: gather_loop.simps [of _ _ _ _ _ _ _ "[]"])
    next
      case True
      let ?es = "drop (nat m) es" and ?w = "w + int (min (length es) (nat m))"
      have sub: "set ?es \<subseteq> set es" by (rule set_drop_subset)
      have "length ?es < length es" using m False by (cases es) auto
      moreover have "(\<Sum>p \<in> (\<Union>x \<in> set ?es. elem_paths x). path_cost p) < 2 ^ 31"
        using elems_cost_mono [OF less.prems(1) sub] less.prems(2) by linarith
      moreover have "0 \<le> ?w" "?w + int (length ?es) \<le> 2 ^ 31" using less.prems(3,4) m by (simp_all add: min_def)
      ultimately obtain os' rc' u' T where IH: "gather_loop e crc32 prefix ranks m os1 ?w ?es rc (Some u) = Some (os', rc', Some u')"
        "map_ok (Suc c + length ?es) u'"
        "calm (os_script os1) \<longrightarrow> rc' = rc \<and> calm (os_script os') \<and> parts_written crc32 prefix ranks (nat m) ?w ?es os1 os' T"
        using less.hyps [of ?es ?w "Suc c" u os1 rc] rank_keys_sub [OF less.prems(1) sub] st(2) by blast
      have "map_ok (c + length es) u'" using map_ok_mono [OF IH(2), of "c + length es"] m False by (cases es) auto
      moreover have "parts_written crc32 prefix ranks (nat m) w es os os' (\<lambda>j. if j = 0 then v else T (j - 1))"
        if "calm (os_script os)"
        using that IH(3) st(1,4,5) True m less.prems(3,4) False by (intro parts_written_Cons [of _ _ _ v os1]) auto
      ultimately show ?thesis using st(3,5) True IH(1,3) by auto
    qed
  qed
qed

section \<open>The whole writer\<close>

lemma length_pack_size: "kvtree_wf t \<Longrightarrow> 5 * length (elems t) \<le> kvtree_pack_size (Some t)"
proof -
  assume wf: "kvtree_wf t"
  have "5 \<le> kvtree_elem_pack_size (Some x)" if "x \<in> set (elems t)" for x
  proof -
    from wf that have "elem_wf x" by (simp add: kvtree_wf_iff)
    then obtain k h where "x = Kvtree_elem (Some k) h" by (cases x) (auto simp: elem_wf_iff)
    moreover have "4 \<le> kvtree_pack_size h" by (cases h; cases "the h") (simp_all add: foldl_add)
    ultimately show ?thesis by simp
  qed
  then have "5 * length (elems t) \<le> (\<Sum>x\<leftarrow>elems t. kvtree_elem_pack_size (Some x))"
    using sum_list_mono [of "elems t" "\<lambda>_. 5" "\<lambda>x. kvtree_elem_pack_size (Some x)"] by (simp add: sum_list_triv)
  then show ?thesis by (cases t) (simp add: foldl_add)
qed

lemma elems_cost: "kvtree_wf t \<Longrightarrow> (\<Sum>p \<in> (\<Union>x \<in> set (elems t). elem_paths x). path_cost p) \<le> kvtree_pack_size (Some t)"
  unfolding pack_size_cost by (rule sum_mono2) (simp, auto simp: paths_elems [of t])

lemma map_start:
  obtains t where "fst (kvtree_set_kv_int (Some kvtree_new) (Some ''LEVEL'') 1) = Some t" and "map_ok 0 t"
proof -
  obtain t where t: "fst (kvtree_set_kv_int (Some kvtree_new) (Some ''LEVEL'') 1) = Some t" "kvtree_wf t"
    "kvtree_paths t = kvtree_paths kvtree_new \<union> {[''LEVEL''], [''LEVEL'', fmt_signed 1]}"
    by (rule set_kv_int_tree [of kvtree_new "''LEVEL''" 1]) simp_all
  moreover have "map_ok 0 t" using t(2) by (simp add: map_ok_def pack_size_cost t(3) path_cost_def)
  ultimately show thesis using that by blast
qed

text \<open>A map file that can be read back and records the number of ranks.\<close>

definition map_for :: "int \<Rightarrow> kvtree \<Rightarrow> bool" where
  "map_for ranks t \<longleftrightarrow> kvtree_wf t \<and> kvtree_pack_size (Some t) < 2 ^ 32 \<and>
     {q. ''RANKS'' # q \<in> kvtree_paths t} = {[], [fmt_signed ranks]}"

lemma map_end:
  assumes "map_ok m t" and "is_int64 ranks" and "m < 2 ^ 25"
  obtains u where "fst (kvtree_set_kv_int (Some t) (Some ''RANKS'') ranks) = Some u" and "map_for ranks u"
proof -
  have wf: "kvtree_wf t" using assms(1) by (simp add: map_ok_def)
  obtain u where u: "fst (kvtree_set_kv_int (Some t) (Some ''RANKS'') ranks) = Some u" "kvtree_wf u"
    "kvtree_paths u = kvtree_paths t \<union> {[''RANKS''], [''RANKS'', fmt_signed ranks]}"
    by (rule set_kv_int_tree [OF wf, of "''RANKS''" ranks]) simp_all
  have "kvtree_pack_size (Some u) \<le> kvtree_pack_size (Some t) + (\<Sum>p\<leftarrow>[[''RANKS''], [''RANKS'', fmt_signed ranks]]. path_cost p)"
    by (rule size_add [OF wf u(2)]) (simp add: u(3))
  then have "kvtree_pack_size (Some u) < 2 ^ 32"
    using length_signed [OF assms(2)] assms(1,3) by (simp add: map_ok_def path_cost_def)
  moreover have "{q. ''RANKS'' # q \<in> kvtree_paths u} = {[], [fmt_signed ranks]}"
    using assms(1) by (auto simp: u(3) map_ok_def)
  ultimately show thesis using that u(1,2) by (simp add: map_for_def)
qed

definition gathered :: "crc \<Rightarrow> string \<Rightarrow> int \<Rightarrow> nat \<Rightarrow> kvtree_elem list \<Rightarrow> os \<Rightarrow> os \<Rightarrow> bool" where
  "gathered crc32 prefix ranks m es os os' \<longleftrightarrow>
     (\<exists>T mp osm. parts_written crc32 prefix ranks m 0 es os osm T \<and> map_for ranks mp \<and>
        os_files os' = (os_files osm)(prefix \<mapsto> file_image crc32 mp))"

lemma sorted_ranks:
  assumes "indexed_by_ranks (2 ^ 31) t"
  obtains u where "kvtree_sort_int (Some t) KVTREE_SORT_ASCENDING = Some (KVTREE_SUCCESS, Some u)"
    and "mset (elems u) = mset (elems t)" and "rank_keys (2 ^ 31) (elems u)"
proof -
  have wf: "kvtree_wf t" using assms by (simp add: indexed_by_ranks_def)
  have keys: "rank_keys (2 ^ 31) (elems t)" using assms rank_keys_tree [OF wf] by (simp add: indexed_by_ranks_def)
  have "\<forall>x \<in> set (elems t). 0 \<le> atoi (key_of x) \<and> atoi (key_of x) \<le> 0 + INT_MAX"
    using keys by (auto simp: rank_keys_def atoi_key INT_MAX_def)
  from kvtree_sort_int_spec [OF wf this, of KVTREE_SORT_ASCENDING] obtain u where
    u: "kvtree_sort_int (Some t) KVTREE_SORT_ASCENDING = Some (KVTREE_SUCCESS, Some u)" "mset (elems u) = mset (elems t)" by blast
  moreover from u(2) have "set (elems u) = set (elems t)" by (metis set_mset_mset)
  then have "rank_keys (2 ^ 31) (elems u)" using keys by (simp add: rank_keys_def)
  ultimately show thesis using that by blast
qed

lemma write_to_gather_total:
  assumes crc: "crc32_local crc32" and t: "indexed_by_ranks (2 ^ 31) t" "kvtree_pack_size (Some t) < 2 ^ 27"
    and len: "length prefix < 1000" and ranks: "is_int64 ranks"
    and m: "0 < (case env of None \<Rightarrow> 8192 | Some s \<Rightarrow> atol s)" (is "0 < ?m")
  shows "\<exists>os' rc u. kvtree_write_to_gather e crc32 env os prefix (Some t) ranks = Some (os', rc, Some u) \<and>
    mset (elems u) = mset (elems t) \<and>
    (calm (os_script os) \<longrightarrow> rc = KVTREE_SUCCESS \<and> calm (os_script os') \<and> gathered crc32 prefix ranks (nat ?m) (elems u) os os')"
proof -
  have wf: "kvtree_wf t" using t(1) by (simp add: indexed_by_ranks_def)
  obtain u where u: "kvtree_sort_int (Some t) KVTREE_SORT_ASCENDING = Some (KVTREE_SUCCESS, Some u)"
    "mset (elems u) = mset (elems t)" and ukeys: "rank_keys (2 ^ 31) (elems u)" by (rule sorted_ranks [OF t(1)])
  have set: "set (elems u) = set (elems t)" and length: "length (elems u) = length (elems t)"
    using u(2) by (metis set_mset_mset, metis size_mset)
  have small: "length (elems u) < 2 ^ 25" using length_pack_size [OF wf] t(2) by (simp add: length)
  have cost: "(\<Sum>p \<in> (\<Union>x \<in> set (elems u). elem_paths x). path_cost p) < 2 ^ 31"
    using elems_cost [OF wf] t(2) by (simp add: set)
  obtain f where f: "fst (kvtree_set_kv_int (Some kvtree_new) (Some ''LEVEL'') 1) = Some f" "map_ok 0 f" by (rule map_start)
  from gather_loop_total [OF m _ ranks len crc ukeys cost _ _ f(2), of 0 e os KVTREE_SUCCESS] small
  obtain os1 rc1 g T where g: "gather_loop e crc32 prefix ranks ?m os 0 (elems u) KVTREE_SUCCESS (Some f) = Some (os1, rc1, Some g)"
    "map_ok (length (elems u)) g"
    "calm (os_script os) \<longrightarrow> rc1 = KVTREE_SUCCESS \<and> calm (os_script os1) \<and> parts_written crc32 prefix ranks (nat ?m) 0 (elems u) os os1 T"
    by auto
  obtain h where h: "fst (kvtree_set_kv_int (Some g) (Some ''RANKS'') ranks) = Some h" "map_for ranks h"
    by (rule map_end [OF g(2) ranks small])
  have "kvtree_persist_size (Some h) < 2 ^ 63" using h(2) by (simp add: map_for_def kvtree_persist_size_def file_consts)
  from write_file_total [OF crc this, of e os1 prefix] obtain os2 wrc where
    w: "kvtree_write_file e crc32 os1 (Some prefix) (Some h) = Some (os2, wrc)"
    "wrc = KVTREE_SUCCESS \<longrightarrow> os_files os2 = (os_files os1)(prefix \<mapsto> file_image crc32 h)"
    "calm (os_script os1) \<longrightarrow> wrc = KVTREE_SUCCESS \<and> calm (os_script os2)" by blast
  have "hash_elems (Some u) = elems u" by (simp add: hash_elems_def)
  then have "kvtree_write_to_gather e crc32 env os prefix (Some t) ranks =
      Some (os2, if wrc \<noteq> KVTREE_SUCCESS then KVTREE_FAILURE else rc1, Some u)"
    by (simp only: kvtree_write_to_gather_def Let_def u(1) f(1) g(1) h(1) w(1) bind.bind_lunit prod.case)
  moreover have "gathered crc32 prefix ranks (nat ?m) (elems u) os os2" if "calm (os_script os)"
    using that g(3) h(2) w(2,3) unfolding gathered_def by blast
  ultimately show ?thesis using u(2) g(3) w(3) by auto
qed

text \<open>With no entries per file a part is written over and over.\<close>

lemma gather_part_none: "m \<le> 0 \<Longrightarrow> gather_part m 0 es entries = Some (0, es, entries)"
  by (cases es) simp_all

abbreviation part_entries :: "int \<Rightarrow> kvtree option" where
  "part_entries ranks \<equiv>
     fst (kvtree_set_kv_int (fst (kvtree_set_kv_int (Some kvtree_new) (Some ''LEVEL'') 0)) (Some ''RANKS'') ranks)"

text \<open>The calls of a round that collects no entry: all return, and the next round starts where this one did.\<close>

lemma empty_part_written:
  assumes "calm (os_script os)" and "crc32_local crc32" and "is_int64 ranks"
  obtains t os1 where "part_entries ranks = Some t"
    and "kvtree_write_file e crc32 os (Some fname) (Some t) = Some (os1, KVTREE_SUCCESS)" and "calm (os_script os1)"
proof -
  obtain t where t: "part_entries ranks = Some t" "kvtree_wf t" "kvtree_paths t = part_head ranks" by (rule part_start)
  then have "part_of ranks [] t" by (simp add: part_of_def)
  then have "kvtree_persist_size (Some t) < 2 ^ 63"
    using part_size [of ranks "[]" t 0] assms(3) by (simp add: kvtree_persist_size_def file_consts)
  from write_file_total [OF assms(2) this, of e os fname] t(1) assms(1) that show thesis by auto
qed

lemma empty_round:
  assumes "m \<le> 0" and "calm (os_script os)" and "crc32_local crc32" and "is_int64 ranks"
    and "kvtree_wf f" and "is_int64 w"
  shows "\<exists>entries os1 f1. gather_part m 0 es (part_entries ranks) = Some (0, es, Some entries) \<and>
    kvtree_write_file e crc32 os (Some fname) (Some entries) = Some (os1, KVTREE_SUCCESS) \<and>
    gather_record (Some f) w = Some (Some f1) \<and> calm (os_script os1) \<and> kvtree_wf f1"
proof -
  obtain t os1 where t: "part_entries ranks = Some t"
    "kvtree_write_file e crc32 os (Some fname) (Some t) = Some (os1, KVTREE_SUCCESS)" "calm (os_script os1)"
    by (rule empty_part_written [OF assms(2-4)])
  moreover obtain f1 where "gather_record (Some f) w = Some (Some f1)" "kvtree_wf f1"
    by (rule gather_record_spec [OF assms(5,6)])
  moreover have "gather_part m 0 es (part_entries ranks) = Some (0, es, Some t)"
    using gather_part_none [OF assms(1)] t(1) by simp
  ultimately show ?thesis by blast
qed

lemma gather_loop_stuck:
  assumes "gather_loop e crc32 prefix ranks m os w es rc f = Some y"
    and "m \<le> 0" and "es \<noteq> []" and "calm (os_script os)" and "crc32_local crc32" and "is_int64 ranks"
  shows False
  using assms
proof (induction arbitrary: rule: gather_loop.raw_induct [rotated, consumes 1])
  case (1 gather_loop e crc32 prefix ranks m os w es rc f y)
  obtain t os1 where t: "part_entries ranks = Some t"
    and w: "kvtree_write_file e crc32 os (Some (snprintf_buf 1024 (prefix @ ''.0.'' @ fmt_signed w))) (Some t) =
      Some (os1, KVTREE_SUCCESS)" "calm (os_script os1)"
    by (rule empty_part_written) (use 1 in simp_all)
  have "Option.bind (gather_record f w) (\<lambda>f1. gather_loop e crc32 prefix ranks m os1 (w + 0) es rc f1) = Some y"
    using 1(2) by (simp only: \<open>es \<noteq> []\<close> if_False Let_def t gather_part_none [OF \<open>m \<le> 0\<close>] w(1) bind.bind_lunit prod.case simp_thms)
  then obtain f1 where "gather_loop e crc32 prefix ranks m os1 (w + 0) es rc f1 = Some y" by (auto simp: bind_eq_Some_conv)
  then show False by (rule 1(1)) (use 1(3-) w(2) in simp_all)
qed

text \<open>A tree with two ranks.\<close>

lemma two_ranks:
  "indexed_by_ranks (2 ^ 31) (Kvtree [Kvtree_elem (Some ''1'') None, Kvtree_elem (Some ''0'') None])"
  "indexed_by_ranks 2147483648 (Kvtree [Kvtree_elem (Some ''1'') None, Kvtree_elem (Some ''0'') None])"
proof -
  have "rank_key 0 = ''0''" "rank_key 1 = ''1''" by (simp_all add: rank_key_def)
  then have "\<exists>d < 2 ^ 31. k = rank_key d" if "k = ''0'' \<or> k = ''1''" for k
    using that by (auto intro: exI [of _ 0] exI [of _ 1])
  then show "indexed_by_ranks (2 ^ 31) (Kvtree [Kvtree_elem (Some ''1'') None, Kvtree_elem (Some ''0'') None])"
    by (auto simp: indexed_by_ranks_def kvtree_wf.simps paths_elems)
  then show "indexed_by_ranks 2147483648 (Kvtree [Kvtree_elem (Some ''1'') None, Kvtree_elem (Some ''0'') None])" by simp
qed

section \<open>Whether the writer ends\<close>

text \<open>C35. With a positive number of entries per file, \<open>kvtree_write_to_gather\<close> returns whatever the system calls
  do, with the elements of the caller's tree reordered and none lost; when no call fails it returns
  \<open>KVTREE_SUCCESS\<close>.\<close>

theorem gather_ends:
  assumes "crc32_local crc32" and "indexed_by_ranks (2 ^ 31) t" and "kvtree_pack_size (Some t) < 2 ^ 27"
    and "length prefix < 1000" and "is_int32 ranks" and "0 < (case env of None \<Rightarrow> 8192 | Some s \<Rightarrow> atol s)"
  shows "\<exists>os' rc u. kvtree_write_to_gather e crc32 env os prefix (Some t) ranks = Some (os', rc, Some u) \<and>
    mset (elems u) = mset (elems t) \<and> (calm (os_script os) \<longrightarrow> rc = KVTREE_SUCCESS)"
  using write_to_gather_total [OF assms(1-4) int32_int64 [OF assms(5)] assms(6), of e os] by blast

theorem gather_ends_witness:
  "\<exists>os' rc u. kvtree_write_to_gather Little_endian crc_ieee None
      \<lparr>os_files = Map.empty, os_fds = [], os_script = [Complete, Error EIO, Partial 3], os_umask = 0, os_junk = \<lambda>_. 0\<rparr>
      ''d/m'' (Some (Kvtree [Kvtree_elem (Some ''1'') None, Kvtree_elem (Some ''0'') None])) 2 = Some (os', rc, Some u) \<and>
    mset (elems u) = mset (elems (Kvtree [Kvtree_elem (Some ''1'') None, Kvtree_elem (Some ''0'') None])) \<and>
    (calm (os_script \<lparr>os_files = Map.empty, os_fds = [], os_script = [Complete, Error EIO, Partial 3], os_umask = 0,
       os_junk = \<lambda>_. 0\<rparr>) \<longrightarrow> rc = KVTREE_SUCCESS)"
  by (rule gather_ends) (simp_all add: crc_ieee_ok two_ranks is_int32_def INT_MIN_def INT_MAX_def)

text \<open>C36. With a number of entries per file that is not positive, which \<open>atol\<close> of \<open>KVTREE_ENTRIES_PER_FILE\<close> can
  give and nothing checks, the loop over the parts does not advance: while the system calls succeed the
  call never returns. It is not that something in the loop aborts: from every well-formed record of
  the files, each call of a round returns, and the round collects no entry and ends at the element it started at.\<close>

theorem gather_never_ends:
  assumes "crc32_local crc32" and "indexed_by_ranks (2 ^ 31) t" and "elems t \<noteq> []" and "is_int32 ranks"
    and "atol s \<le> 0" and "calm (os_script os)"
  shows "kvtree_write_to_gather e crc32 (Some s) os prefix (Some t) ranks = None \<and>
    (\<forall>os' es f. calm (os_script os') \<and> kvtree_wf f \<longrightarrow>
      (\<exists>entries os1 f1. gather_part (atol s) 0 es (part_entries ranks) = Some (0, es, Some entries) \<and>
        kvtree_write_file e crc32 os' (Some (snprintf_buf 1024 (prefix @ ''.0.'' @ fmt_signed 0))) (Some entries) =
          Some (os1, KVTREE_SUCCESS) \<and>
        gather_record (Some f) 0 = Some (Some f1) \<and> calm (os_script os1) \<and> kvtree_wf f1))"
proof -
  have ranks: "is_int64 ranks" by (rule int32_int64 [OF assms(4)])
  obtain u where u: "kvtree_sort_int (Some t) KVTREE_SORT_ASCENDING = Some (KVTREE_SUCCESS, Some u)"
    "mset (elems u) = mset (elems t)" by (rule sorted_ranks [OF assms(2)])
  have ne: "elems u \<noteq> []" using u(2) assms(3) by auto
  have "gather_loop e crc32 prefix ranks (atol s) os 0 (elems u) KVTREE_SUCCESS f = None" for f
    using gather_loop_stuck [OF _ assms(5) ne assms(6,1) ranks, of e prefix 0 KVTREE_SUCCESS f]
    by (cases "gather_loop e crc32 prefix ranks (atol s) os 0 (elems u) KVTREE_SUCCESS f") blast+
  then have "kvtree_write_to_gather e crc32 (Some s) os prefix (Some t) ranks = None"
    by (simp add: kvtree_write_to_gather_def u(1) hash_elems_def)
  moreover have "is_int64 0" by (simp add: is_int64_def LONG_MIN_def LONG_MAX_def)
  ultimately show ?thesis using empty_round [OF assms(5) _ assms(1) ranks] by blast
qed

theorem gather_never_ends_witness:
  defines "os \<equiv> \<lparr>os_files = Map.empty, os_fds = [], os_script = [], os_umask = 0, os_junk = \<lambda>_. 0\<rparr>"
  defines "es \<equiv> [Kvtree_elem (Some ''1'') None, Kvtree_elem (Some ''0'') None]"
  shows "kvtree_write_to_gather Little_endian crc_ieee (Some ''0'') os ''d/m'' (Some (Kvtree es)) 2 = None \<and>
    (\<exists>entries os1 f1. gather_part (atol ''0'') 0 es (part_entries 2) = Some (0, es, Some entries) \<and>
      kvtree_write_file Little_endian crc_ieee os (Some (snprintf_buf 1024 (''d/m'' @ ''.0.'' @ fmt_signed 0))) (Some entries) =
        Some (os1, KVTREE_SUCCESS) \<and>
      gather_record (Some kvtree_new) 0 = Some (Some f1) \<and> calm (os_script os1) \<and> kvtree_wf f1)"
proof -
  have atol: "atol ''0'' \<le> 0" by code_simp
  have ranks: "indexed_by_ranks (2 ^ 31) (Kvtree es)" unfolding es_def by (rule two_ranks)
  have "elems (Kvtree es) \<noteq> []" "is_int32 2" and calm: "calm (os_script os)"
    by (simp_all add: es_def os_def is_int32_def INT_MIN_def INT_MAX_def calm_def)
  note never = gather_never_ends [OF crc_ieee_ok(1) ranks this(1,2) atol calm]
  then show ?thesis using calm kvtree_new_wf by blast
qed

end
