(* ===== verification/KV_ParIO.thy ===== *)
theory KV_ParIO
  imports KV_Writers KV_Gather
begin

text \<open>
  Files written and read by a whole job (\<open>kvtree_write_gather\<close> and \<open>kvtree_read_scatter\<close> of
  \<open>src/kvtree_mpi_io.c\<close>): the ranks send their data to writers, the writers store it in part files, and the
  names of the parts are gathered, level by level, into map files up to a single one. The program of a rank
  threads the state of the operating system that the rank sees; files are shared by the ranks, and no file is
  written by more than one of them. The recursion over the levels takes a bound on their
  number as its first argument, beyond which the process ends in \<open>Abort\<close>; the theorems show that it is not
  reached.
\<close>

section \<open>Writing\<close>

text \<open>What a writer stores: the tree with its level and the number of ranks, in one piece at an offset.\<close>

definition write_map_file ::
  "endian \<Rightarrow> crc \<Rightarrow> os \<Rightarrow> string \<Rightarrow> kvtree option \<Rightarrow> int \<Rightarrow> nat \<Rightarrow> u64 \<Rightarrow> (os \<times> int) option" where
  "write_map_file e crc32 os mappath save level ranks offset =
     (let (os, mode) = kvtree_getmode os 1 1 0;
          (os, fd) = kvtree_open os mappath {O_WRONLY, O_CREAT, O_TRUNC} mode
      in if 0 \<le> fd then
           (case kvtree_util_set_int save (Some ''LEVEL'') level of
              Inl _ \<Rightarrow> None
            | Inr (_, save) \<Rightarrow>
                (case kvtree_util_set_int save (Some ''RANKS'') (int ranks) of
                   Inl _ \<Rightarrow> None
                 | Inr (_, save) \<Rightarrow>
                     do {
                       (_, b) \<leftarrow> kvtree_write_persist e crc32 (os_junk os) True save;
                       buf \<leftarrow> b;
                       let (os, _) = kvtree_lseek os mappath fd (sint offset) SEEK_SET;
                       let (os, write_rc) = kvtree_write_attempt os mappath fd buf;
                       let (os, _) = kvtree_close os mappath fd;
                       Some (os, if write_rc < 0 then KVTREE_FAILURE else KVTREE_SUCCESS)
                     }))
         else Some (os, KVTREE_FAILURE))"

text \<open>The record of a file in the map of the next level.\<close>

definition map_record :: "string \<Rightarrow> u64 \<Rightarrow> kvtree option option" where
  "map_record fname offset =
     (case kvtree_util_set_str (Some kvtree_new) (Some ''FILE'') fname of
        Inl _ \<Rightarrow> None
      | Inr (_, hash) \<Rightarrow>
          (case kvtree_util_set_bytecount hash (Some ''OFFSET'') offset of Inl _ \<Rightarrow> None | Inr (_, hash) \<Rightarrow> Some hash))"

definition save_hash :: "bool \<Rightarrow> kvtree option \<Rightarrow> kvtree option" where
  "save_hash writes recv =
     (if writes then fst (kvtree_set (Some kvtree_new) (Some ''RANK'') recv) else Some kvtree_new)"

fun kvtree_write_gather_map ::
  "nat \<Rightarrow> endian \<Rightarrow> crc \<Rightarrow> int \<Rightarrow> nat \<Rightarrow> nat \<Rightarrow> string \<Rightarrow> os \<Rightarrow> string \<Rightarrow> u64 \<Rightarrow> int \<Rightarrow> bool \<Rightarrow> (os \<times> int) proc" where
  "kvtree_write_gather_map 0 e crc32 null rank ranks prefix os fname offset level valid = Abort"
| "kvtree_write_gather_map (Suc levels) e crc32 null rank ranks prefix os fname offset level valid =
     (if offset \<noteq> 0 then Abort
      else
        seq (lift (if valid then map_record fname offset else Some (Some kvtree_new))) (\<lambda>hash.
        seq (pick_writer null rank ranks (if valid then word_of_nat (kvtree_pack_size hash) else 0)) (\<lambda>(writer, allranks).
        case (if valid then kvtree_exchange_sendq (Some kvtree_new) writer hash else Inr (KVTREE_SUCCESS, Some kvtree_new)) of
          Inl _ \<Rightarrow> Abort
        | Inr (_, send) \<Rightarrow>
            seq (kvtree_exchange_direction e (os_junk os) rank ranks send (Some kvtree_new) KVTREE_EXCHANGE_LEFT) (\<lambda>(_, recv).
            let save = save_hash (int rank = writer) recv;
                mapfile = snprintf_buf 1024
                  (if allranks \<noteq> 0 then [] else ''.'' @ fmt_signed level @ ''.'' @ fmt_signed writer);
                mappath = snprintf_buf 1024 (prefix @ mapfile)
            in seq (if allranks = 0 then
                      kvtree_write_gather_map levels e crc32 null rank ranks prefix os mapfile 0 (level + 1) (int rank = writer)
                    else Ret (os, KVTREE_SUCCESS)) (\<lambda>(os, map_rc).
               seq (if int rank = writer then lift (write_map_file e crc32 os mappath save level ranks offset)
                    else Ret (os, KVTREE_SUCCESS)) (\<lambda>(os, write_rc).
               Ret (os, if map_rc \<noteq> KVTREE_SUCCESS \<or> write_rc \<noteq> KVTREE_SUCCESS then KVTREE_FAILURE else KVTREE_SUCCESS)))))))"

declare kvtree_write_gather_map.simps [simp del]

definition kvtree_write_gather ::
  "nat \<Rightarrow> endian \<Rightarrow> crc \<Rightarrow> int \<Rightarrow> nat \<Rightarrow> nat \<Rightarrow> os \<Rightarrow> string \<Rightarrow> kvtree option \<Rightarrow> (os \<times> int) proc" where
  "kvtree_write_gather levels e crc32 null rank ranks os prefix data =
     seq (pick_writer null rank ranks (word_of_nat (kvtree_pack_size data))) (\<lambda>(writer, allranks).
     case kvtree_exchange_sendq (Some kvtree_new) writer data of
       Inl _ \<Rightarrow> Abort
     | Inr (_, send) \<Rightarrow>
         seq (kvtree_exchange_direction e (os_junk os) rank ranks send (Some kvtree_new) KVTREE_EXCHANGE_LEFT) (\<lambda>(_, recv).
         let save = save_hash (int rank = writer) recv;
             mapfile = snprintf_buf 1024 (''.0.'' @ fmt_signed writer);
             mappath = snprintf_buf 1024 (prefix @ mapfile)
         in seq (kvtree_write_gather_map levels e crc32 null rank ranks prefix os mapfile 0 1 (int rank = writer)) (\<lambda>(os, map_rc).
            seq (if int rank = writer then lift (write_map_file e crc32 os mappath save 0 ranks 0)
                 else Ret (os, KVTREE_SUCCESS)) (\<lambda>(os, write_rc).
            seq (kvtree_alltrue (\<not> (map_rc \<noteq> KVTREE_SUCCESS \<or> write_rc \<noteq> KVTREE_SUCCESS))) (\<lambda>all_valid.
            Ret (os, if all_valid \<noteq> 0 then KVTREE_SUCCESS else KVTREE_FAILURE))))))"

section \<open>Reading\<close>

definition read_map_file ::
  "endian \<Rightarrow> crc \<Rightarrow> os \<Rightarrow> string \<Rightarrow> u64 \<Rightarrow> (os \<times> int \<times> kvtree option) option" where
  "read_map_file e crc32 os fname offset =
     (let (os, fd) = kvtree_open os fname {O_RDONLY} 0
      in if 0 \<le> fd then
           do {
             let (os, _) = kvtree_lseek os fname fd (sint offset) SEEK_SET;
             (os, read_rc, hash) \<leftarrow> kvtree_read_fd e crc32 os (Some fname) fd (Some kvtree_new);
             let (os, _) = kvtree_close os fname fd;
             Some (os, if read_rc < 0 then KVTREE_FAILURE else KVTREE_SUCCESS, hash)
           }
         else Some (os, KVTREE_FAILURE, Some kvtree_new))"

text \<open>What a rank learns from the first message it received: the file it reads next and the offset.\<close>

definition next_file :: "string \<Rightarrow> int \<Rightarrow> kvtree option \<Rightarrow> int \<times> bool \<times> string option \<times> u64" where
  "next_file prefix rc recv =
     (case kvtree_elem_first recv of
        None \<Rightarrow> (rc, False, None, 0)
      | Some elem \<Rightarrow>
          (let elem_hash = kvtree_elem_hash (Some elem);
               (file_rc, val) = kvtree_util_get_str elem_hash (Some ''FILE'');
               newfile = (if file_rc = KVTREE_SUCCESS then map_option (\<lambda>v. snprintf_buf 1024 (prefix @ v)) val else None);
               (offset_rc, newoffset) = kvtree_util_get_bytecount elem_hash (Some ''OFFSET'')
           in (if file_rc \<noteq> KVTREE_SUCCESS \<or> offset_rc \<noteq> KVTREE_SUCCESS then KVTREE_FAILURE else rc,
               True, newfile, case newoffset of None \<Rightarrow> 0 | Some w \<Rightarrow> w)))"

fun kvtree_read_scatter_map ::
  "nat \<Rightarrow> endian \<Rightarrow> crc \<Rightarrow> nat \<Rightarrow> nat \<Rightarrow> string \<Rightarrow> os \<Rightarrow> bool \<Rightarrow> string option \<Rightarrow> u64 \<Rightarrow>
     (os \<times> int \<times> bool \<times> string option \<times> u64) proc" where
  "kvtree_read_scatter_map 0 e crc32 rank ranks prefix os valid fname offset = Abort"
| "kvtree_read_scatter_map (Suc levels) e crc32 rank ranks prefix os valid fname offset =
     seq (lift (if valid then Option.bind fname (\<lambda>f. read_map_file e crc32 os f offset)
                else Some (os, KVTREE_SUCCESS, Some kvtree_new))) (\<lambda>(os, rc, hash).
     seq (kvtree_alltrue (rc = KVTREE_SUCCESS)) (\<lambda>all_valid.
     if all_valid = 0 then Ret (os, KVTREE_FAILURE, valid, fname, offset)
     else
       let send = (if valid then snd (kvtree_merge (Some kvtree_new) (kvtree_get hash (Some ''RANK''))) else Some kvtree_new)
       in seq (kvtree_exchange_direction e (os_junk os) rank ranks send (Some kvtree_new) KVTREE_EXCHANGE_RIGHT) (\<lambda>(_, recv).
          let (rc, newvalid, newfile, newoffset) = next_file prefix rc recv;
              (rc, level_id) =
                (if valid then
                   (case kvtree_util_get_int hash (Some ''LEVEL'') of
                      (get_rc, v) \<Rightarrow> (if get_rc \<noteq> KVTREE_SUCCESS then KVTREE_FAILURE else rc,
                                      case v of None \<Rightarrow> - 1 | Some l \<Rightarrow> l))
                 else (rc, - 1))
          in seq (Coll (Bcast 0) (Mint level_id) Ret) (\<lambda>m.
             seq (lift (got_int (Some m))) (\<lambda>level_id.
             seq (kvtree_alltrue (rc = KVTREE_SUCCESS)) (\<lambda>all_valid.
             if all_valid = 0 then Ret (os, KVTREE_FAILURE, valid, fname, offset)
             else if 1 < level_id then
               kvtree_read_scatter_map levels e crc32 rank ranks prefix os newvalid newfile newoffset
             else Ret (os, rc, newvalid, newfile, newoffset)))))))"

declare kvtree_read_scatter_map.simps [simp del]

text \<open>Reading a part: the tree to send, and whether it was read and has the number of ranks of this job.\<close>

definition read_part_file ::
  "endian \<Rightarrow> crc \<Rightarrow> nat \<Rightarrow> os \<Rightarrow> string \<Rightarrow> u64 \<Rightarrow> (os \<times> int \<times> kvtree option) option" where
  "read_part_file e crc32 ranks_world os fname offset =
     (let (os, fd) = kvtree_open os fname {O_RDONLY} 0
      in if 0 \<le> fd then
           do {
             let (os, _) = kvtree_lseek os fname fd (sint offset) SEEK_SET;
             (os, readsize, save) \<leftarrow> kvtree_read_fd e crc32 os (Some fname) fd (Some kvtree_new);
             let ranks = (case snd (kvtree_util_get_int save (Some ''RANKS'')) of None \<Rightarrow> 0 | Some r \<Rightarrow> r);
             let rc = (if readsize < 0 \<or> ranks \<noteq> int ranks_world then KVTREE_FAILURE else KVTREE_SUCCESS);
             let send = fst (kvtree_extract save (Some ''RANK''));
             let (os, _) = kvtree_close os fname fd;
             Some (os, rc, send)
           }
         else Some (os, KVTREE_FAILURE, Some kvtree_new))"

definition merge_received :: "kvtree option \<Rightarrow> kvtree option \<Rightarrow> kvtree option" where
  "merge_received data recv =
     foldl (\<lambda>data elem. snd (kvtree_merge data (kvtree_elem_hash (Some elem)))) data (hash_elems recv)"

definition kvtree_read_scatter ::
  "nat \<Rightarrow> endian \<Rightarrow> crc \<Rightarrow> nat \<Rightarrow> nat \<Rightarrow> os \<Rightarrow> string \<Rightarrow> kvtree option \<Rightarrow> (os \<times> int \<times> kvtree option) proc" where
  "kvtree_read_scatter levels e crc32 rank ranks os prefix data =
     (let mappath = snprintf_buf 1024 prefix
      in seq (kvtree_read_scatter_map levels e crc32 rank ranks prefix os (rank = 0)
                (if rank = 0 then Some mappath else None) 0) (\<lambda>(os, map_rc, valid, fname, offset).
         seq (lift (if valid then Option.bind fname (\<lambda>f. read_part_file e crc32 ranks os f offset)
                    else Some (os, KVTREE_SUCCESS, Some kvtree_new))) (\<lambda>(os, read_rc, send).
         let rc = (if map_rc \<noteq> KVTREE_SUCCESS \<or> read_rc \<noteq> KVTREE_SUCCESS then KVTREE_FAILURE else KVTREE_SUCCESS)
         in seq (kvtree_alltrue (rc = KVTREE_SUCCESS)) (\<lambda>all_valid.
            if all_valid = 0 then Ret (os, KVTREE_FAILURE, data)
            else
              seq (kvtree_exchange_direction e (os_junk os) rank ranks send (Some kvtree_new) KVTREE_EXCHANGE_RIGHT) (\<lambda>(_, recv).
              let data = merge_received data recv
              in seq (kvtree_alltrue (rc = KVTREE_SUCCESS)) (\<lambda>all_valid.
                 Ret (os, if all_valid = 0 then KVTREE_FAILURE else rc, data)))))))"

section \<open>The files\<close>

text \<open>Seeking to the start of a file that was just opened changes nothing, whether it succeeds or not.\<close>

lemma lseek_start:
  assumes "kvtree_lseek os fname fd 0 SEEK_SET = (os', rc)" and "map_of (os_fds os) fd = Some f" and "of_off f = 0"
  shows "same_files os os'" and "calm (os_script os) \<Longrightarrow> calm (os_script os')"
proof -
  have "f\<lparr>of_off := 0\<rparr> = f" using assms(3) by (cases f) simp
  then show "same_files os os'" "calm (os_script os) \<Longrightarrow> calm (os_script os')"
    using assms(1,2) by (auto simp: kvtree_lseek_def sys_defs same_files_def Let_def fun_upd_idem split: outcome.splits if_splits prod.splits)
qed

lemma persist_small: "kvtree_pack_size (Some t) < 2 ^ 32 \<Longrightarrow> kvtree_persist_size (Some t) < 2 ^ 63"
  by (simp add: kvtree_persist_size_def file_consts)

text \<open>What a file holds: the level, the number of ranks, and the key paths \<open>Q\<close> of the data.\<close>

definition saved :: "nat \<Rightarrow> nat \<Rightarrow> kvpath set \<Rightarrow> kvtree \<Rightarrow> bool" where
  "saved n level Q t \<longleftrightarrow> kvtree_wf t \<and> kvtree_paths t =
     {[], [''LEVEL''], [''LEVEL'', fmt_signed (int level)], [''RANKS''], [''RANKS'', fmt_signed (int n)]} \<union> (#) ''RANK'' ` Q"

lemma saved_tree:
  assumes "kvtree_wf r" and "level < 2 ^ 31" and "n < 2 ^ 31"
  obtains s1 s2 where "kvtree_util_set_int (save_hash True (Some r)) (Some ''LEVEL'') (int level) = Inr (KVTREE_SUCCESS, Some s1)"
    and "kvtree_util_set_int (Some s1) (Some ''RANKS'') (int n) = Inr (KVTREE_SUCCESS, Some s2)"
    and "saved n level (kvtree_paths r) s2"
proof -
  obtain s0 where s0: "save_hash True (Some r) = Some s0" "kvtree_wf s0" "kvtree_paths s0 = insert [] ((#) ''RANK'' ` kvtree_paths r)"
  proof (cases "save_hash True (Some r)")
    case None
    then show thesis by (simp add: save_hash_def kvtree_set_eq)
  next
    case (Some s)
    moreover have "hash_wf (save_hash True (Some r))"
      unfolding save_hash_def using assms(1) by (simp add: kvtree_set_wf)
    moreover have "hash_paths (save_hash True (Some r)) = insert [] ((#) ''RANK'' ` kvtree_paths r)"
      unfolding save_hash_def by (auto simp: paths_set prune_def)
    ultimately show thesis using that by simp
  qed
  have ok: "key_ok ''LEVEL''" "key_ok ''RANKS''" by (simp_all add: key_ok_def KVTREE_MAX_LINE_def)
  obtain s1 where s1: "kvtree_util_set_int (Some s0) (Some ''LEVEL'') (int level) = Inr (KVTREE_SUCCESS, Some s1)" "kvtree_wf s1"
    "kvtree_paths s1 = {[''LEVEL''], [''LEVEL'', fmt_signed (int level)]} \<union> prune ''LEVEL'' (kvtree_paths s0)"
    using int32.put_fetch [OF s0(2) ok(1) rank_int32 [OF assms(2)]] by blast
  obtain s2 where s2: "kvtree_util_set_int (Some s1) (Some ''RANKS'') (int n) = Inr (KVTREE_SUCCESS, Some s2)" "kvtree_wf s2"
    "kvtree_paths s2 = {[''RANKS''], [''RANKS'', fmt_signed (int n)]} \<union> prune ''RANKS'' (kvtree_paths s1)"
    using int32.put_fetch [OF s1(2) ok(2) rank_int32 [OF assms(3)]] by blast
  have "saved n level (kvtree_paths r) s2"
    using s2(2) unfolding saved_def s2(3) s1(3) s0(3) prune_def by auto
  with s0(1) s1(1) s2(1) that show thesis by simp
qed

lemma write_map_file_spec:
  assumes crc: "crc32_local crc32" and r: "kvtree_wf r" and small: "level < 2 ^ 31" "n < 2 ^ 31"
    and size: "\<And>s. saved n level (kvtree_paths r) s \<Longrightarrow> kvtree_pack_size (Some s) < 2 ^ 32"
  shows "\<exists>os' rc s. write_map_file e crc32 os path (save_hash True (Some r)) (int level) n 0 = Some (os', rc) \<and>
    saved n level (kvtree_paths r) s \<and>
    (calm (os_script os) \<longrightarrow> rc = KVTREE_SUCCESS \<and> calm (os_script os') \<and>
       os_files os' = (os_files os)(path \<mapsto> file_image crc32 s))"
proof -
  let ?flags = "{O_WRONLY, O_CREAT, O_TRUNC}" and ?f = "KV_OS.opened path {O_WRONLY, O_CREAT, O_TRUNC}"
  obtain s1 s2 where s: "kvtree_util_set_int (save_hash True (Some r)) (Some ''LEVEL'') (int level) = Inr (KVTREE_SUCCESS, Some s1)"
    "kvtree_util_set_int (Some s1) (Some ''RANKS'') (int n) = Inr (KVTREE_SUCCESS, Some s2)" "saved n level (kvtree_paths r) s2"
    by (rule saved_tree [OF r small])
  note persist = kvtree_write_persist_eq [OF crc persist_small [OF size [OF s(3)]]]
  obtain mode where mode: "kvtree_getmode os 1 1 0 = (os, mode)"
    using kvtree_getmode_os [of os 1 1 0] by (metis prod.collapse)
  obtain os2 fd where op: "kvtree_open os path ?flags mode = (os2, fd)" by fastforce
  note opened = kvtree_open_spec [OF op]
  obtain os3 lrc where l: "kvtree_lseek os2 path fd 0 SEEK_SET = (os3, lrc)" by fastforce
  obtain os4 wrc where w: "kvtree_write_attempt os3 path fd (file_image crc32 s2) = (os4, wrc)" by fastforce
  obtain os5 crc where c: "kvtree_close os4 path fd = (os5, crc)" by fastforce
  have eq: "write_map_file e crc32 os path (save_hash True (Some r)) (int level) n 0 =
      (if 0 \<le> fd then Some (os5, if wrc < 0 then KVTREE_FAILURE else KVTREE_SUCCESS) else Some (os2, KVTREE_FAILURE))"
    by (simp add: write_map_file_def mode op s(1,2) persist l w c Let_def)
  have "0 \<le> wrc \<and> 0 \<le> fd \<and> calm (os_script os5) \<and> os_files os5 = (os_files os)(path \<mapsto> file_image crc32 s2)"
    if calm: "calm (os_script os)"
  proof -
    have fd: "0 \<le> fd" "calm (os_script os2)" using opened(2) calm by simp_all
    then have o: "is_opened os path ?flags os2 fd" using opened(1) by simp
    have fd2: "map_of (os_fds os2) fd = Some ?f" and files2: "os_files os2 = (os_files os)(path \<mapsto> [])"
      using o by (simp_all add: is_opened_def)
    have f: "of_name ?f = path" "of_off ?f = 0" "of_write ?f" by (simp_all add: KV_OS.opened_def)
    note seek = lseek_start [OF l fd2 f(2)]
    have fd3: "map_of (os_fds os3) fd = Some ?f" and files3: "os_files os3 = (os_files os)(path \<mapsto> [])"
      using seek(1) fd2 files2 by (simp_all add: same_files_def)
    note written = kvtree_write_attempt_spec [OF w fd3, of "[]", unfolded f files3 overwrite_empty, simplified]
    have "0 \<le> wrc" "calm (os_script os4)" using written(2) seek(2) fd(2) f(3) by auto
    then show ?thesis using written(1) kvtree_close_spec(1,4) [OF c] fd(1) by auto
  qed
  then show ?thesis unfolding eq using s(3) by (cases "0 \<le> fd") auto
qed

end
