(* ===== verification/KV_Levels.thy ===== *)
theory KV_Levels
  imports KV_ParIO
begin

text \<open>
  The levels of a gathered file: which ranks write at each level, what they send and store, and that the levels
  end with rank 0 as the only writer.
\<close>

section \<open>Reading a file back\<close>

lemma opened_for_reading:
  assumes "kvtree_open os fname {O_RDONLY} 0 = (os2, fd)" and "calm (os_script os)" and "os_files os fname \<noteq> None"
  obtains f where "0 \<le> fd" and "calm (os_script os2)" and "os_files os2 = os_files os" and "map_of (os_fds os2) fd = Some f"
    and "of_name f = fname" and "of_off f = 0" and "of_read f"
proof -
  note opened = kvtree_open_spec [OF assms(1)]
  have fd: "0 \<le> fd" "calm (os_script os2)" using opened(2) assms(2,3) by simp_all
  then have o: "is_opened os fname {O_RDONLY} os2 fd" using opened(1) by simp
  then have "os_files os2 = os_files os"
    using assms(3) by (auto simp: is_opened_def file_content_def fun_upd_idem)
  with fd o that [of "KV_OS.opened fname {O_RDONLY}"] show thesis by (simp add: is_opened_def KV_OS.opened_def)
qed

text \<open>Both readers open the file, seek to its start, read and close.\<close>

lemma read_image:
  assumes crc: "crc32_local crc32" "crc32_range crc32" and calm: "calm (os_script os)"
    and t: "kvtree_wf t" "kvtree_pack_size (Some t) < 2 ^ 32" and content: "os_files os fname = Some (file_image crc32 t)"
    and op: "kvtree_open os fname {O_RDONLY} 0 = (os2, fd)" and seek: "kvtree_lseek os2 fname fd 0 SEEK_SET = (os3, lrc)"
  obtains os4 nread u where "0 \<le> fd" and "0 \<le> nread"
    and "kvtree_read_fd e crc32 os3 (Some fname) fd (Some kvtree_new) = Some (os4, nread, Some u)"
    and "kvtree_wf u" and "kvtree_paths u = kvtree_paths t"
    and "\<And>os5 rc. kvtree_close os4 fname fd = (os5, rc) \<Longrightarrow> os_files os5 = os_files os \<and> calm (os_script os5)"
proof -
  obtain f where f: "0 \<le> fd" "calm (os_script os2)" "os_files os2 = os_files os" "map_of (os_fds os2) fd = Some f"
    "of_name f = fname" "of_off f = 0" "of_read f"
    by (rule opened_for_reading [OF op calm]) (use content in simp)
  note s = lseek_start [OF seek f(4,6)]
  have same: "os_files os3 = os_files os" "map_of (os_fds os3) fd = Some f" "calm (os_script os3)"
    using s f(2-4) by (simp_all add: same_files_def)
  have "file_content os3 (of_name f) = file_image crc32 t @ []" using same(1) content f(5) by (simp add: file_content_def)
  from kvtree_read_fd_eq [OF crc wf_packable [OF t] persist_small [OF t(2)] f(1) same(2) f(6) this, of e fname kvtree_new]
  obtain os4 nread h where r: "kvtree_read_fd e crc32 os3 (Some fname) fd (Some kvtree_new) = Some (os4, nread, h)"
    "os_files os4 = os_files os3" "0 \<le> nread" "calm (os_script os4)" "h = snd (kvtree_merge (Some kvtree_new) (Some (unpacked t)))"
    "map_of (os_fds os4) fd \<noteq> None"
    using same(3) f(7) by auto
  obtain u where u: "kvtree_merge (Some kvtree_new) (Some (unpacked t)) = (KVTREE_SUCCESS, Some u)" "kvtree_wf u"
    "kvtree_paths u = kvtree_paths t"
    using merge_eq [of kvtree_new "Some (unpacked t)"] t(1)
    by (auto simp: kvtree_wf_unpacked kvtree_paths_unpacked insert_absorb)
  have "os_files os5 = os_files os \<and> calm (os_script os5)" if "kvtree_close os4 fname fd = (os5, rc)" for os5 rc
    using kvtree_close_spec [OF that] r(2,4,6) same(1) by auto
  moreover have "h = Some u" using r(5) u(1) by simp
  ultimately show thesis using r(1) by (intro that [OF f(1) r(3) _ u(2,3)]) simp_all
qed

lemma single_first: "kvtree_get_val hash k = Some v \<Longrightarrow> kvtree_elem_get_first_val hash k = Some v"
  by (auto simp: kvtree_get_val_def kvtree_elem_get_first_val_def kvtree_elem_key_def split: option.splits if_splits)

lemma get_below:
  assumes "kvtree_wf t" and "{q. k # q \<in> kvtree_paths t} = Q" and "[] \<in> Q"
  shows "hash_paths (kvtree_get (Some t) (Some k)) = Q" and "hash_wf (kvtree_get (Some t) (Some k))"
proof -
  show "hash_wf (kvtree_get (Some t) (Some k))" using kvtree_get_wf [of "Some t" "Some k"] assms(1) by simp
  show "hash_paths (kvtree_get (Some t) (Some k)) = Q"
  proof (cases "kvtree_get (Some t) (Some k)")
    case None
    then show ?thesis using get_none_paths [OF assms(1) None] assms(2,3) by auto
  next
    case (Some s)
    then show ?thesis using get_paths_eq [OF assms(1) Some] assms(2) by simp
  qed
qed

lemma saved_fields:
  assumes "saved n level Q t" and "kvtree_wf u" and "kvtree_paths u = kvtree_paths t" and "level < 2 ^ 31" and "n < 2 ^ 31"
    and "[] \<in> Q"
  shows "kvtree_util_get_int (Some u) (Some ''LEVEL'') = (KVTREE_SUCCESS, Some (int level))"
    and "kvtree_util_get_int (Some u) (Some ''RANKS'') = (KVTREE_SUCCESS, Some (int n))"
    and "hash_paths (kvtree_get (Some u) (Some ''RANK'')) = Q" and "hash_wf (kvtree_get (Some u) (Some ''RANK''))"
proof -
  have paths: "kvtree_paths u = {[], [''LEVEL''], [''LEVEL'', fmt_signed (int level)], [''RANKS''], [''RANKS'', fmt_signed (int n)]} \<union>
      (#) ''RANK'' ` Q" using assms(1,3) by (simp add: saved_def)
  have "kvtree_get_val (Some u) (Some ''LEVEL'') = Some (fmt_signed (int level))"
    "kvtree_get_val (Some u) (Some ''RANKS'') = Some (fmt_signed (int n))"
    by (rule single_value [OF assms(2)]; auto simp: paths)+
  then show "kvtree_util_get_int (Some u) (Some ''LEVEL'') = (KVTREE_SUCCESS, Some (int level))"
    "kvtree_util_get_int (Some u) (Some ''RANKS'') = (KVTREE_SUCCESS, Some (int n))"
    using atoi_key assms(4,5) by (simp_all add: kvtree_util_get_int_def single_first rank_key_def [symmetric])
  have "{q. ''RANK'' # q \<in> kvtree_paths u} = Q" by (auto simp: paths)
  from get_below [OF assms(2) this assms(6)]
  show "hash_paths (kvtree_get (Some u) (Some ''RANK'')) = Q" "hash_wf (kvtree_get (Some u) (Some ''RANK''))" .
qed

section \<open>The record of a file\<close>

definition rec_paths :: "string \<Rightarrow> kvpath set" where
  "rec_paths name = {[], [''FILE''], [''FILE'', name], [''OFFSET''], [''OFFSET'', ''0'']}"

lemma rec_cost: "(\<Sum>p \<in> rec_paths name. path_cost p) = 35 + length name"
  by (simp add: rec_paths_def path_cost_def)

lemma map_record_spec:
  assumes "is_cstring name"
  obtains r where "map_record name 0 = Some (Some r)" and "kvtree_wf r" and "kvtree_paths r = rec_paths name"
    and "kvtree_pack_size (Some r) = 35 + length name"
proof -
  have ok: "key_ok ''FILE''" "key_ok ''OFFSET''" by (simp_all add: key_ok_def KVTREE_MAX_LINE_def)
  obtain s1 where s1: "kvtree_util_set_str (Some kvtree_new) (Some ''FILE'') name = Inr (KVTREE_SUCCESS, Some s1)" "kvtree_wf s1"
    "kvtree_paths s1 = {[''FILE''], [''FILE'', name]} \<union> prune ''FILE'' (kvtree_paths kvtree_new)"
    using str.put_fetch [of kvtree_new, OF _ ok(1) assms] by auto
  obtain s2 where s2: "kvtree_util_set_bytecount (Some s1) (Some ''OFFSET'') 0 = Inr (KVTREE_SUCCESS, Some s2)" "kvtree_wf s2"
    "kvtree_paths s2 = {[''OFFSET''], [''OFFSET'', fmt_unsigned (unat (0 :: u64))]} \<union> prune ''OFFSET'' (kvtree_paths s1)"
    using bytecount.put_fetch [OF s1(2) ok(2), of 0] by blast
  have "fmt_unsigned (unat (0 :: u64)) = ''0''" using fmt_signed_small(1) by (simp add: fmt_signed_def fmt_unsigned_def)
  then have "kvtree_paths s2 = rec_paths name" unfolding s2(3) s1(3) prune_def rec_paths_def by auto
  then show thesis using that [of s2] s1(1) s2(1,2) by (simp add: map_record_def pack_size_cost rec_cost)
qed

text \<open>Reading the record back, from any tree with these key paths below the key of a rank.\<close>

lemma record_fields:
  assumes "hash_wf h" and "hash_paths h = rec_paths name"
  shows "kvtree_util_get_str h (Some ''FILE'') = (KVTREE_SUCCESS, Some name)"
    and "kvtree_util_get_bytecount h (Some ''OFFSET'') = (KVTREE_SUCCESS, Some 0)"
proof -
  obtain t where t: "h = Some t" "kvtree_wf t" "kvtree_paths t = rec_paths name"
    using assms by (cases h) (auto simp: rec_paths_def)
  have "kvtree_get_val (Some t) (Some ''FILE'') = Some name" "kvtree_get_val (Some t) (Some ''OFFSET'') = Some ''0''"
    by (rule single_value [OF t(2)]; auto simp: t(3) rec_paths_def)+
  then show "kvtree_util_get_str h (Some ''FILE'') = (KVTREE_SUCCESS, Some name)"
    "kvtree_util_get_bytecount h (Some ''OFFSET'') = (KVTREE_SUCCESS, Some 0)"
    using strtoul_signed [of 0] by (simp_all add: t(1) kvtree_util_get_str_def kvtree_util_get_bytecount_def)
qed

section \<open>Data on its way\<close>

text \<open>Item \<open>k\<close>, for the \<open>k\<close> with \<open>V k\<close>, is at rank \<open>S k\<close>, under the key of rank \<open>D k\<close>, and has the key paths \<open>H k\<close>.\<close>

definition flow :: "nat \<Rightarrow> (nat \<Rightarrow> bool) \<Rightarrow> (nat \<Rightarrow> nat) \<Rightarrow> (nat \<Rightarrow> nat) \<Rightarrow> (nat \<Rightarrow> kvpath set) \<Rightarrow> nat \<Rightarrow> kvpath set" where
  "flow n V D S H i = insert [] (\<Union>k \<in> {k. k < n \<and> V k \<and> S k = i}. (#) (rank_key (D k)) ` H k)"

lemma flow_own: "i < n \<Longrightarrow> flow n V D (\<lambda>k. k) H i = insert [] (if V i then (#) (rank_key (D i)) ` H i else {})"
  by (auto simp: flow_def)

lemma flow_none: "(\<And>k. k < n \<Longrightarrow> V k \<Longrightarrow> S k \<noteq> i) \<Longrightarrow> flow n V D S H i = {[]}"
  by (auto simp: flow_def)

lemma rank_key_length: "k < 2 ^ 31 \<Longrightarrow> length (rank_key k) \<le> 21"
  using length_signed [OF int32_int64 [OF rank_int32]] by (simp add: rank_key_def)

lemma sum_UN_le:
  "finite K \<Longrightarrow> (\<And>k. k \<in> K \<Longrightarrow> finite (B k)) \<Longrightarrow> (\<Sum>x \<in> (\<Union>k \<in> K. B k). f x) \<le> (\<Sum>k \<in> K. \<Sum>x \<in> B k. f x :: nat)"
proof (induction K rule: finite_induct)
  case (insert k K)
  have "(\<Sum>x \<in> B k \<union> (\<Union>k \<in> K. B k). f x) \<le> (\<Sum>x \<in> B k. f x) + (\<Sum>x \<in> (\<Union>k \<in> K. B k). f x)"
    using insert by (subst sum_Un_nat) auto
  also have "\<dots> \<le> (\<Sum>x \<in> B k. f x) + (\<Sum>k \<in> K. \<Sum>x \<in> B k. f x)" using insert by simp
  finally show ?case using insert.hyps by simp
qed simp

lemma route_cost:
  assumes "d < 2 ^ 31" and "s < 2 ^ 31" and "finite Q"
  shows "(\<Sum>p \<in> {[''D'', rank_key d], [''D'', rank_key d, ''S'']} \<union> (\<lambda>q. ''D'' # rank_key d # ''S'' # rank_key s # q) ` Q. path_cost p)
    \<le> 60 + (\<Sum>q \<in> Q. path_cost q)"
proof -
  let ?f = "\<lambda>q. ''D'' # rank_key d # ''S'' # rank_key s # q" and ?A = "{[''D'', rank_key d], [''D'', rank_key d, ''S'']}"
  have len: "length (rank_key d) \<le> 21" "length (rank_key s) \<le> 21" using rank_key_length assms(1,2) by blast+
  have "(\<Sum>p \<in> ?f ` Q. path_cost p) = (\<Sum>q \<in> Q. path_cost (?f q))" by (simp add: sum.reindex inj_on_def)
  also have "\<dots> \<le> (\<Sum>q \<in> Q. path_cost q + (if q = [] then 22 else 0))"
    using len(2) by (intro sum_mono) (auto simp: path_cost_def)
  also have "\<dots> \<le> (\<Sum>q \<in> Q. path_cost q) + 22" using assms(3) by (simp add: sum.distrib sum.delta)
  finally have "(\<Sum>p \<in> ?f ` Q. path_cost p) \<le> (\<Sum>q \<in> Q. path_cost q) + 22" .
  moreover have "(\<Sum>p \<in> ?A. path_cost p) \<le> 32" using len(1) by (simp add: path_cost_def)
  moreover have "(\<Sum>p \<in> ?A \<union> ?f ` Q. path_cost p) \<le> (\<Sum>p \<in> ?A. path_cost p) + (\<Sum>p \<in> ?f ` Q. path_cost p)"
    using assms(3) by (subst sum_Un_nat) auto
  ultimately show ?thesis by simp
qed

lemma traffic_flow:
  assumes "finite K" and "\<And>k. k \<in> K \<Longrightarrow> D k < 2 ^ 31 \<and> S k < 2 ^ 31 \<and> finite (H k)"
  shows "traffic (\<Union>k \<in> K. {D k} \<times> {S k} \<times> H k) \<le> 10 + (\<Sum>k \<in> K. 60 + (\<Sum>q \<in> H k. path_cost q))"
proof -
  let ?B = "\<lambda>k. {[''D'', rank_key (D k)], [''D'', rank_key (D k), ''S'']} \<union>
    (\<lambda>q. ''D'' # rank_key (D k) # ''S'' # rank_key (S k) # q) ` H k"
  have fin: "finite (?B k)" if "k \<in> K" for k using assms(2) [OF that] by simp
  have "traffic (\<Union>k \<in> K. {D k} \<times> {S k} \<times> H k) \<le> (\<Sum>p \<in> {[], [''D'']} \<union> (\<Union>k \<in> K. ?B k). path_cost p)"
    unfolding traffic_def using assms(1) fin by (intro sum_mono2) (auto simp: routed_def)
  also have "\<dots> \<le> (\<Sum>p \<in> {[], [''D'']}. path_cost p) + (\<Sum>p \<in> (\<Union>k \<in> K. ?B k). path_cost p)"
    using assms(1) fin by (subst sum_Un_nat) auto
  also have "\<dots> \<le> 10 + (\<Sum>k \<in> K. \<Sum>p \<in> ?B k. path_cost p)"
    using sum_UN_le [OF assms(1) fin] by (simp add: path_cost_def)
  also have "\<dots> \<le> 10 + (\<Sum>k \<in> K. 60 + (\<Sum>q \<in> H k. path_cost q))"
    using assms(2) by (intro add_left_mono sum_mono route_cost) auto
  finally show ?thesis .
qed

text \<open>An exchange moves every item from its source to its destination.\<close>

definition fits :: "nat \<Rightarrow> (nat \<Rightarrow> bool) \<Rightarrow> (nat \<Rightarrow> kvpath set) \<Rightarrow> bool" where
  "fits n V H \<longleftrightarrow> (\<forall>k < n. V k \<longrightarrow> [] \<in> H k \<and> finite (H k)) \<and>
     10 + (\<Sum>k \<in> {k. k < n \<and> V k}. 60 + (\<Sum>q \<in> H k. path_cost q)) < 2 ^ 31"

lemma does_flow:
  assumes n: "n \<le> 2 ^ 30" and ranks: "\<And>k. k < n \<Longrightarrow> V k \<Longrightarrow> D k < n \<and> S k < n" and H: "fits n V H"
    and hs: "\<And>i. i < n \<Longrightarrow> kvtree_wf (hs i) \<and> kvtree_paths (hs i) = flow n V D S H i"
  shows "\<exists>u. does n eager red (\<lambda>i. kvtree_exchange_direction (e i) (junk i) i n (Some (hs i)) (Some kvtree_new) dir)
      (\<lambda>i. (KVTREE_SUCCESS, Some (u i))) \<and>
    (\<forall>i < n. kvtree_wf (u i) \<and> kvtree_paths (u i) = flow n V S D H i)"
proof -
  let ?K = "{k. k < n \<and> V k}"
  have n31: "k < 2 ^ 31" if "k < n" for k using that n by simp
  have D: "D k < n" "S k < n" "[] \<in> H k" "finite (H k)" if "k \<in> ?K" for k using that ranks H by (auto simp: fits_def)
  have path: "rank_key d # q \<in> flow n V D S H i \<longleftrightarrow> (\<exists>k \<in> ?K. S k = i \<and> D k = d \<and> q \<in> H k)" if "d < n" "i < n" for d i q
    using that D(1) rank_key_inj [OF n31 n31] by (auto simp: flow_def)
  have out: "outgoing n hs = (\<Union>k \<in> ?K. {D k} \<times> {S k} \<times> H k)"
    using hs path D(1,2) by (auto simp: outgoing_def)
  have index: "indexed_by_ranks n (hs i)" if "i < n" for i
    using hs [OF that] D(1) by (auto simp: indexed_by_ranks_def flow_def)
  have "traffic (outgoing n hs) \<le> 10 + (\<Sum>k \<in> ?K. 60 + (\<Sum>q \<in> H k. path_cost q))"
    unfolding out using D n31 by (intro traffic_flow) auto
  then have size: "int (traffic (outgoing n hs)) \<le> INT_MAX" using H by (simp add: fits_def INT_MAX_def)
  have hops: "(- 1 :: int) < 0 \<or> (\<forall>(d, s, q) \<in> outgoing n hs. rank_dist dir n s d < 2 ^ nat (- 1))" by simp
  obtain u where u: "does n eager red (\<lambda>i. kvtree_exchange_direction (e i) (junk i) i n (Some (hs i)) (Some kvtree_new) dir)
      (\<lambda>i. (KVTREE_SUCCESS, Some (u i)))" "delivered n (outgoing n hs) (\<lambda>_. kvtree_new) u"
    using does_direction_hops [where ho = "\<lambda>_. kvtree_new" and eager = eager and e = e and junk = junk and red = red,
      OF n index _ size hops] unfolding kvtree_exchange_direction_def by auto
  have "kvtree_paths (u i) = flow n V S D H i \<and> kvtree_wf (u i)" if "i < n" for i
    using u(2) that unfolding delivered_def out by (auto simp: flow_def)
  with u(1) show ?thesis by blast
qed

text \<open>The trees that are stored stay small.\<close>

lemma flow_cost:
  assumes "fits n V H" and n: "n \<le> 2 ^ 30" and D: "\<And>k. k < n \<Longrightarrow> V k \<Longrightarrow> D k < n"
  shows "(\<Sum>p \<in> flow n V D S H i. path_cost p) < 2 ^ 31" and "finite (flow n V D S H i)"
proof -
  let ?K = "{k. k < n \<and> V k}" and ?K' = "{k. k < n \<and> V k \<and> S k = i}" and ?c = "\<lambda>k. \<Sum>q \<in> H k. path_cost q"
  let ?B = "\<lambda>k. (#) (rank_key (D k)) ` H k"
  have H: "finite (H k)" if "k \<in> ?K'" for k using assms(1) that by (auto simp: fits_def)
  then show fin: "finite (flow n V D S H i)" by (simp add: flow_def)
  have one: "(\<Sum>p \<in> ?B k. path_cost p) \<le> 60 + ?c k" if k: "k \<in> ?K'" for k
  proof -
    have len: "length (rank_key (D k)) \<le> 21" using D [of k] k n by (intro rank_key_length) simp
    have "(\<Sum>p \<in> ?B k. path_cost p) = (\<Sum>q \<in> H k. path_cost (rank_key (D k) # q))" by (simp add: sum.reindex inj_on_def)
    also have "\<dots> \<le> (\<Sum>q \<in> H k. path_cost q + (if q = [] then 22 else 0))"
      using len by (intro sum_mono) (auto simp: path_cost_def)
    also have "\<dots> \<le> ?c k + 22" using H [OF k] by (simp add: sum.distrib sum.delta)
    finally show ?thesis by simp
  qed
  have "(\<Sum>p \<in> flow n V D S H i. path_cost p) \<le> (\<Sum>p \<in> {[]}. path_cost p) + (\<Sum>p \<in> (\<Union>k \<in> ?K'. ?B k). path_cost p)"
    unfolding flow_def using H by (subst insert_is_Un, subst sum_Un_nat) auto
  also have "\<dots> \<le> 4 + (\<Sum>k \<in> ?K'. \<Sum>p \<in> ?B k. path_cost p)"
    using sum_UN_le [of ?K' ?B path_cost] H by (simp add: path_cost_def)
  also have "\<dots> \<le> 4 + (\<Sum>k \<in> ?K'. 60 + ?c k)" using one by (intro add_left_mono sum_mono) auto
  also have "\<dots> \<le> 4 + (\<Sum>k \<in> ?K. 60 + ?c k)" by (intro add_left_mono sum_mono2) auto
  also have "\<dots> < 2 ^ 31" using assms(1) by (simp add: fits_def)
  finally show "(\<Sum>p \<in> flow n V D S H i. path_cost p) < 2 ^ 31" .
qed

lemma saved_size:
  assumes "saved n level Q t" and "finite Q" and "(\<Sum>p \<in> Q. path_cost p) < 2 ^ 31" and "level < 2 ^ 31" and "n < 2 ^ 31"
  shows "kvtree_pack_size (Some t) < 2 ^ 32"
proof -
  let ?h = "{[], [''LEVEL''], [''LEVEL'', rank_key level], [''RANKS''], [''RANKS'', rank_key n]}"
  have "(\<Sum>p \<in> (#) ''RANK'' ` Q. path_cost p) = (\<Sum>q \<in> Q. path_cost (''RANK'' # q))" by (simp add: sum.reindex inj_on_def)
  also have "\<dots> \<le> (\<Sum>q \<in> Q. path_cost q + (if q = [] then 5 else 0))" by (intro sum_mono) (auto simp: path_cost_def)
  also have "\<dots> \<le> (\<Sum>q \<in> Q. path_cost q) + 5" using assms(2) by (simp add: sum.distrib sum.delta)
  finally have "(\<Sum>p \<in> (#) ''RANK'' ` Q. path_cost p) < 2 ^ 31 + 5" using assms(3) by simp
  moreover have "(\<Sum>p \<in> ?h. path_cost p) \<le> 80"
    using rank_key_length [OF assms(4)] rank_key_length [OF assms(5)] by (simp add: path_cost_def)
  moreover have "kvtree_pack_size (Some t) = (\<Sum>p \<in> ?h \<union> (#) ''RANK'' ` Q. path_cost p)"
    using assms(1) pack_size_cost [of t] by (simp add: saved_def rank_key_def)
  moreover have "\<dots> \<le> (\<Sum>p \<in> ?h. path_cost p) + (\<Sum>p \<in> (#) ''RANK'' ` Q. path_cost p)"
    using assms(2) by (subst sum_Un_nat) auto
  ultimately show ?thesis by simp
qed

section \<open>The levels\<close>

definition level_file :: "nat \<Rightarrow> nat \<Rightarrow> string" where
  "level_file level i = ''.'' @ fmt_signed (int level) @ ''.'' @ fmt_signed (int i)"

text \<open>The ranks that write at each level: at level 0 by the sizes \<open>c\<close> of the data, then by the sizes of the records.\<close>

primrec starters :: "(nat \<Rightarrow> nat) \<Rightarrow> nat \<Rightarrow> nat \<Rightarrow> bool" where
  "starters c 0 = group_start c"
| "starters c (Suc level) = group_start (\<lambda>i. if starters c level i then 35 + length (level_file level i) else 0)"

definition only_root :: "nat \<Rightarrow> (nat \<Rightarrow> bool) \<Rightarrow> bool" where
  "only_root n st \<longleftrightarrow> (\<forall>j < n. writer st j = 0)"

lemma starters_0 [simp]: "starters c level 0"
  by (cases level) (simp_all add: group_start_def)

lemma writer_self: "st 0 \<Longrightarrow> writer st i = i \<longleftrightarrow> st i"
  using writer_props [of st i] by (metis le_neq_implies_less order_refl)

lemma level_file_short: "level < 2 ^ 31 \<Longrightarrow> i < 2 ^ 31 \<Longrightarrow> length (level_file level i) \<le> 44"
  using rank_key_length [of level] rank_key_length [of i] by (simp add: level_file_def rank_key_def)

lemma level_file_inj:
  "l < 2 ^ 31 \<Longrightarrow> l' < 2 ^ 31 \<Longrightarrow> level_file l i = level_file l' i \<longleftrightarrow> l = l'"
  using rank_key_inj [of l l'] by (simp add: level_file_def rank_key_def)

lemma cstring_level: "is_cstring (level_file level i)"
  by (simp add: level_file_def cstring_signed)

lemma group_count:
  "0 < n \<Longrightarrow> card {j. j < n \<and> group_start c j} \<le> 1 + ((\<Sum>k < n. c k) - 1) div 2 ^ 20"
proof (induction n)
  case (Suc n)
  let ?S = "\<Sum>k < n. c k"
  show ?case
  proof (cases "n = 0")
    case False
    have set: "{j. j < Suc n \<and> group_start c j} = {j. j < n \<and> group_start c j} \<union> (if group_start c n then {n} else {})"
      by (auto simp: less_Suc_eq)
    have "card {j. j < Suc n \<and> group_start c j} \<le> card {j. j < n \<and> group_start c j} + (if group_start c n then 1 else 0)"
      unfolding set by (auto simp: card_insert_if)
    also have "\<dots> \<le> 1 + (?S - 1) div 2 ^ 20 + (if group_start c n then 1 else 0)" using Suc False by simp
    also have "\<dots> \<le> 1 + (?S + c n - 1) div 2 ^ 20"
    proof (cases "group_start c n")
      case True
      then have "?S div 2 ^ 20 < (?S + c n - 1) div 2 ^ 20" using False by (simp add: group_start_def)
      moreover have "(?S - 1) div 2 ^ 20 \<le> ?S div 2 ^ 20" by (rule div_le_mono) simp
      ultimately show ?thesis using True by simp
    next
      case False
      then show ?thesis by (simp add: div_le_mono)
    qed
    finally show ?thesis by simp
  next
    case True
    then have "{j. j < Suc n \<and> group_start c j} \<subseteq> {0}" by auto
    from card_mono [OF _ this] show ?thesis by simp
  qed
qed simp

lemma level_decreases:
  assumes "0 < n" and "n \<le> 2 ^ 30" and "level < 2 ^ 31" and "\<not> only_root n (starters c (Suc level))"
  shows "card {i. i < n \<and> starters c (Suc level) i} < card {i. i < n \<and> starters c level i}"
proof -
  let ?V = "{i. i < n \<and> starters c level i}" and ?W = "{i. i < n \<and> starters c (Suc level) i}"
  let ?c = "\<lambda>i. if starters c level i then 35 + length (level_file level i) else 0"
  obtain j where "j < n" "writer (starters c (Suc level)) j \<noteq> 0" using assms(4) by (auto simp: only_root_def)
  then have "{0, writer (starters c (Suc level)) j} \<subseteq> ?W"
    using assms(1) writer_props(1,2) [of "starters c (Suc level)" j] starters_0 by (auto simp del: starters.simps)
  from card_mono [OF _ this] have two: "2 \<le> card ?W" using \<open>writer (starters c (Suc level)) j \<noteq> 0\<close> by simp
  have "(\<Sum>k < n. ?c k) = (\<Sum>k \<in> ?V. 35 + length (level_file level k))"
    by (simp add: sum.If_cases Int_def lessThan_def conj_commute)
  also have "\<dots> \<le> (\<Sum>k \<in> ?V. 100)"
  proof (rule sum_mono)
    fix k assume "k \<in> ?V"
    then have "length (level_file level k) \<le> 44" using assms(2) by (intro level_file_short [OF assms(3)]) simp
    then show "35 + length (level_file level k) \<le> 100" by simp
  qed
  finally have "(\<Sum>k < n. ?c k) \<le> 100 * card ?V" by simp
  then have "((\<Sum>k < n. ?c k) - 1) div 2 ^ 20 \<le> (100 * card ?V - 1) div 2 ^ 20" by (intro div_le_mono) simp
  moreover have "card ?W \<le> 1 + ((\<Sum>k < n. ?c k) - 1) div 2 ^ 20" using group_count [OF assms(1), of ?c] by simp
  ultimately show ?thesis using two by simp
qed

end
