(* ===== verification/KV_ParWrite.thy ===== *)
theory KV_ParWrite
  imports KV_Levels
begin

text \<open>
  What \<open>kvtree_write_gather\<close> writes: every run of the job ends, and when no system call fails the files hold
  the data and the maps of all levels.
\<close>

section \<open>The last steps of a writer\<close>

definition finish ::
  "endian \<Rightarrow> crc \<Rightarrow> nat \<Rightarrow> nat \<Rightarrow> string \<Rightarrow> kvtree option \<Rightarrow> bool \<Rightarrow> os \<times> int \<Rightarrow> (os \<times> int) proc" where
  "finish e crc32 ranks level path save writes =
     (\<lambda>(os, map_rc). seq (if writes then lift (write_map_file e crc32 os path save (int level) ranks 0)
                    else Ret (os, KVTREE_SUCCESS)) (\<lambda>(os, write_rc).
               Ret (os, if map_rc \<noteq> KVTREE_SUCCESS \<or> write_rc \<noteq> KVTREE_SUCCESS then KVTREE_FAILURE else KVTREE_SUCCESS)))"

lemma finish_ok:
  assumes "crc32_local crc32" and "kvtree_wf r" and "level < 2 ^ 31" and "n < 2 ^ 31"
    and "finite (kvtree_paths r) \<Longrightarrow> (\<Sum>p \<in> kvtree_paths r. path_cost p) < 2 ^ 31"
  shows "\<exists>os' rc s. finish e crc32 n level path (save_hash writes (Some r)) writes (os, map_rc) = Ret (os', rc) \<and>
    saved n level (kvtree_paths r) s \<and>
    (calm (os_script os) \<and> map_rc = KVTREE_SUCCESS \<longrightarrow> rc = KVTREE_SUCCESS \<and> calm (os_script os') \<and>
       os_files os' = (if writes then (os_files os)(path \<mapsto> file_image crc32 s) else os_files os))"
proof -
  have size: "kvtree_pack_size (Some s) < 2 ^ 32" if "saved n level (kvtree_paths r) s" for s
    using saved_size [OF that _ _ assms(3,4)] assms(5) by simp
  from write_map_file_spec [OF assms(1-4) size, of e os path] obtain os' rc s where
    w: "write_map_file e crc32 os path (save_hash True (Some r)) (int level) n 0 = Some (os', rc)" "saved n level (kvtree_paths r) s"
    "calm (os_script os) \<longrightarrow> rc = KVTREE_SUCCESS \<and> calm (os_script os') \<and> os_files os' = (os_files os)(path \<mapsto> file_image crc32 s)"
    by blast
  show ?thesis
  proof (cases writes)
    case True
    then show ?thesis using w by (auto simp: finish_def)
  next
    case False
    then show ?thesis using w(2) by (auto simp: finish_def)
  qed
qed

text \<open>Queueing the data of a rank for its writer gives the tree of a flow.\<close>

lemma queue_own:
  assumes "kvtree_wf t" and "w < 2 ^ 31" and "kvtree_paths t = H i" and "i < n" and "D i = w" and "V i"
  shows "\<exists>u. kvtree_exchange_sendq (Some kvtree_new) (int w) (Some t) = Inr (KVTREE_SUCCESS, Some u) \<and> kvtree_wf u \<and>
    kvtree_paths u = flow n V D (\<lambda>k. k) H i"
proof -
  let ?k = "fmt_signed (int w)"
  note keys = fmt_keys_d [OF rank_int32 [OF assms(2)]]
  have "kvtree_get (Some kvtree_new) (Some ?k) = None" by (simp add: kvtree_get_eq)
  moreover obtain copy where "kvtree_merge (Some kvtree_new) (Some t) = (KVTREE_SUCCESS, Some copy)" "kvtree_wf copy"
    "kvtree_paths copy = kvtree_paths t"
    using merge_eq [of kvtree_new "Some t"] assms(1) by (auto simp: insert_absorb)
  ultimately show ?thesis
    using setf_new_key [of kvtree_new, OF _ rank_int32 [OF assms(2)], of "Some copy"] getf_key [OF rank_int32 [OF assms(2)], of kvtree_new]
      assms(3-6) by (auto simp: kvtree_exchange_sendq_def flow_own rank_key_def)
qed

section \<open>The maps\<close>

lemma maps_fit:
  assumes "n \<le> 2 ^ 23" and "level < 2 ^ 31"
  shows "fits n (starters c level) (\<lambda>k. rec_paths (level_file level k))"
proof -
  let ?K = "{k. k < n \<and> starters c level k}"
  have "(\<Sum>k \<in> ?K. 60 + (\<Sum>q \<in> rec_paths (level_file level k). path_cost q)) \<le> (\<Sum>k \<in> ?K. 140)"
  proof (rule sum_mono)
    fix k assume "k \<in> ?K"
    then have "length (level_file level k) \<le> 44" using assms by (intro level_file_short) simp_all
    then show "60 + (\<Sum>q \<in> rec_paths (level_file level k). path_cost q) \<le> 140" by (simp add: rec_cost)
  qed
  also have "\<dots> \<le> 140 * n" using card_mono [of "{..<n}" ?K] by auto
  finally show ?thesis using assms(1) by (simp add: fits_def rec_paths_def)
qed

definition map_paths :: "nat \<Rightarrow> (nat \<Rightarrow> nat) \<Rightarrow> nat \<Rightarrow> nat \<Rightarrow> kvpath set" where
  "map_paths n c level i =
     flow n (starters c level) (\<lambda>k. k) (writer (starters c (Suc level))) (\<lambda>k. rec_paths (level_file level k)) i"

definition map_path :: "string \<Rightarrow> nat \<Rightarrow> (nat \<Rightarrow> nat) \<Rightarrow> nat \<Rightarrow> nat \<Rightarrow> string" where
  "map_path prefix n c level i = prefix @ (if only_root n (starters c level) then [] else level_file level i)"

text \<open>The files of rank \<open>i\<close> for the levels above \<open>l0\<close>, up to \<open>l1\<close>.\<close>

definition maps_written ::
  "crc \<Rightarrow> string \<Rightarrow> nat \<Rightarrow> (nat \<Rightarrow> nat) \<Rightarrow> nat \<Rightarrow> nat \<Rightarrow> nat \<Rightarrow> (nat \<Rightarrow> kvtree) \<Rightarrow> os \<Rightarrow> os \<Rightarrow> bool" where
  "maps_written crc32 prefix n c l0 l1 i T os os' \<longleftrightarrow>
     (\<forall>l. l0 \<le> l \<and> l < l1 \<and> starters c (Suc l) i \<longrightarrow> saved n (Suc l) (map_paths n c l i) (T l) \<and>
        os_files os' (map_path prefix n c (Suc l) i) = Some (file_image crc32 (T l))) \<and>
     (\<forall>f. (\<forall>l. l0 \<le> l \<and> l < l1 \<and> starters c (Suc l) i \<longrightarrow> f \<noteq> map_path prefix n c (Suc l) i) \<longrightarrow>
        os_files os' f = os_files os f)"

lemma level_file_fits:
  assumes "level < 2 ^ 31" and "i < 2 ^ 31" and "length prefix < 900"
  shows "snprintf_buf 1024 (level_file level i) = level_file level i"
    and "snprintf_buf 1024 (prefix @ level_file level i) = prefix @ level_file level i" and "snprintf_buf 1024 prefix = prefix"
  using level_file_short [OF assms(1,2)] assms(3) by (simp_all add: snprintf_buf_def)

lemma finish_idle: "finish e crc32 n level path save False = finish e crc32 n level path' save False"
  by (simp add: finish_def)

text \<open>What all ranks send to the writers of a level.\<close>

lemma map_sends:
  assumes n: "n \<le> 2 ^ 23" and L: "level < 2 ^ 31"
  shows "\<exists>r hs. \<forall>i.
    (starters c level i \<longrightarrow> map_record (level_file level i) 0 = Some (Some (r i)) \<and>
       kvtree_pack_size (Some (r i)) = 35 + length (level_file level i)) \<and>
    (i < n \<longrightarrow> (if starters c level i then
         kvtree_exchange_sendq (Some kvtree_new) (int (writer (starters c (Suc level)) i)) (Some (r i))
         else Inr (KVTREE_SUCCESS, Some kvtree_new)) = Inr (KVTREE_SUCCESS, Some (hs i)) \<and>
       kvtree_wf (hs i) \<and> kvtree_paths (hs i) =
         flow n (starters c level) (writer (starters c (Suc level))) (\<lambda>k. k) (\<lambda>k. rec_paths (level_file level k)) i)"
proof -
  let ?w = "writer (starters c (Suc level))" and ?H = "\<lambda>k. rec_paths (level_file level k)"
  have "\<forall>i. \<exists>r. map_record (level_file level i) 0 = Some (Some r) \<and> kvtree_wf r \<and> kvtree_paths r = ?H i \<and>
      kvtree_pack_size (Some r) = 35 + length (level_file level i)"
    using map_record_spec [OF cstring_level] by metis
  from choice [OF this] obtain r where r: "\<And>i. map_record (level_file level i) 0 = Some (Some (r i)) \<and> kvtree_wf (r i) \<and>
      kvtree_paths (r i) = ?H i \<and> kvtree_pack_size (Some (r i)) = 35 + length (level_file level i)" by blast
  have "\<exists>u. (if starters c level i then kvtree_exchange_sendq (Some kvtree_new) (int (?w i)) (Some (r i))
        else Inr (KVTREE_SUCCESS, Some kvtree_new)) = Inr (KVTREE_SUCCESS, Some u) \<and> kvtree_wf u \<and>
      kvtree_paths u = flow n (starters c level) ?w (\<lambda>k. k) ?H i" if i: "i < n" for i
  proof (cases "starters c level i")
    case True
    have "?w i < 2 ^ 31" using writer_props(1) [of "starters c (Suc level)" i] i n starters_0 by (simp del: starters.simps)
    with True show ?thesis using queue_own [of "r i" "?w i" ?H i n ?w "starters c level"] r [of i] i by simp
  next
    case False
    then show ?thesis using i by (simp add: flow_own)
  qed
  then have "\<forall>i. \<exists>u. i < n \<longrightarrow> (if starters c level i then kvtree_exchange_sendq (Some kvtree_new) (int (?w i)) (Some (r i))
        else Inr (KVTREE_SUCCESS, Some kvtree_new)) = Inr (KVTREE_SUCCESS, Some u) \<and> kvtree_wf u \<and>
      kvtree_paths u = flow n (starters c level) ?w (\<lambda>k. k) ?H i" by blast
  from choice [OF this] obtain hs where "\<And>i. i < n \<Longrightarrow> (if starters c level i then
        kvtree_exchange_sendq (Some kvtree_new) (int (?w i)) (Some (r i))
        else Inr (KVTREE_SUCCESS, Some kvtree_new)) = Inr (KVTREE_SUCCESS, Some (hs i)) \<and> kvtree_wf (hs i) \<and>
      kvtree_paths (hs i) = flow n (starters c level) ?w (\<lambda>k. k) ?H i" by blast
  with r show ?thesis by (intro exI [of _ r] exI [of _ hs]) blast
qed

lemma map_sizes:
  assumes "n \<le> 2 ^ 23" and "level < 2 ^ 31"
  shows "(\<Sum>k < n. unat (word_of_nat (if starters c level k then 35 + length (level_file level k) else 0) :: u64)) < 2 ^ 64"
    and "k < n \<Longrightarrow> unat (word_of_nat (if starters c level k then 35 + length (level_file level k) else 0) :: u64) =
      (if starters c level k then 35 + length (level_file level k) else 0)"
proof -
  let ?c = "\<lambda>k. if starters c level k then 35 + length (level_file level k) else 0"
  have small: "?c k \<le> 100" if "k < n" for k using level_file_short [OF assms(2), of k] that assms(1) by auto
  then show eq: "unat (word_of_nat (?c k) :: u64) = ?c k" if "k < n" for k
    using small [OF that] by (simp add: unsigned_of_nat take_bit_nat_eq_self)
  have "(\<Sum>k < n. unat (word_of_nat (?c k) :: u64)) \<le> (\<Sum>k < n. 100)" using small eq by (intro sum_mono) simp
  also have "\<dots> < 2 ^ 64" using assms(1) by simp
  finally show "(\<Sum>k < n. unat (word_of_nat (?c k) :: u64)) < 2 ^ 64" .
qed

lemma group_start_cong: "(\<And>k. k \<le> j \<Longrightarrow> c k = c' k) \<Longrightarrow> group_start c j = group_start c' j"
proof -
  assume eq: "\<And>k. k \<le> j \<Longrightarrow> c k = c' k"
  then have "(\<Sum>k < j. c k) = (\<Sum>k < j. c' k)" by (intro sum.cong) auto
  with eq [of j] show ?thesis by (simp add: group_start_def)
qed

lemma does_pick:
  assumes "mpi_collectives red" and "0 < n" and "n \<le> 2 ^ 30" and "\<And>j. j < n \<Longrightarrow> null \<noteq> int j"
    and sum: "(\<Sum>k < n. c k) < 2 ^ 64"
  shows "does n eager red (\<lambda>i. pick_writer null i n (word_of_nat (c i)))
    (\<lambda>i. (int (writer (group_start c) i), if only_root n (group_start c) then 1 else 0))"
proof -
  let ?c = "\<lambda>k. unat (word_of_nat (c k) :: u64)"
  have eq: "?c k = c k" if "k < n" for k
  proof -
    have "c k \<le> (\<Sum>k < n. c k)" using that by (intro member_le_sum) auto
    then show ?thesis using sum by (simp add: unsigned_of_nat take_bit_nat_eq_self)
  qed
  have "writer (group_start ?c) i = writer (group_start c) i" if "i < n" for i
    using that eq by (intro writer_cong group_start_cong) simp
  moreover have "(\<Sum>k < n. ?c k) = (\<Sum>k < n. c k)" using eq by simp
  ultimately show ?thesis
    using pick_writer_ok [where cnt = "\<lambda>k. word_of_nat (c k)" and eager = eager, OF assms(1-4)] sum
    by (subst does_result) (auto simp: only_root_def)
qed

text \<open>One level: choosing the writers, sending them the records, and what is left to do.\<close>

lemma map_round:
  assumes red: "mpi_collectives red" and n: "0 < n" "n \<le> 2 ^ 23" and null: "\<And>j. j < n \<Longrightarrow> null \<noteq> int j"
    and L: "Suc level < 2 ^ 31" and prefix: "length prefix < 900" and fname: "\<And>i. i < n \<Longrightarrow> starters c level i \<Longrightarrow> fname i = level_file level i"
  shows "\<exists>u. (\<forall>i < n. kvtree_wf (u i) \<and> kvtree_paths (u i) = map_paths n c level i) \<and>
    (\<forall>r. does n eager red (\<lambda>i. seq (if only_root n (starters c (Suc level)) then Ret (os i, KVTREE_SUCCESS)
           else kvtree_write_gather_map levels (e i) crc32 null i n prefix (os i)
                  (level_file (Suc level) (writer (starters c (Suc level)) i)) 0 (int (Suc (Suc level))) (starters c (Suc level) i))
        (finish (e i) crc32 n (Suc level) (map_path prefix n c (Suc level) i)
           (save_hash (starters c (Suc level) i) (Some (u i))) (starters c (Suc level) i))) r \<longrightarrow>
      does n eager red (\<lambda>i. kvtree_write_gather_map (Suc levels) (e i) crc32 null i n prefix (os i) (fname i) 0
        (int (Suc level)) (starters c level i)) r)"
proof -
  let ?V = "starters c level" and ?st = "starters c (Suc level)" and ?H = "\<lambda>k. rec_paths (level_file level k)"
  let ?w = "writer ?st" and ?c = "\<lambda>k. if ?V k then 35 + length (level_file level k) else 0"
  let ?all = "if only_root n ?st then 1 else 0 :: int"
  have st0: "?st 0" by (rule starters_0)
  have n31: "i < 2 ^ 31" "?w i \<le> i" if "i < n" for i using that n(2) writer_props(1) [of ?st, OF st0] by simp_all
  have L31: "level < 2 ^ 31" using L by simp
  have n30: "n \<le> 2 ^ 30" using n(2) by simp
  obtain rr hs where sends: "\<And>i. (?V i \<longrightarrow> map_record (level_file level i) 0 = Some (Some (rr i)) \<and>
        kvtree_pack_size (Some (rr i)) = 35 + length (level_file level i)) \<and>
      (i < n \<longrightarrow> (if ?V i then kvtree_exchange_sendq (Some kvtree_new) (int (?w i)) (Some (rr i))
          else Inr (KVTREE_SUCCESS, Some kvtree_new)) = Inr (KVTREE_SUCCESS, Some (hs i)) \<and>
        kvtree_wf (hs i) \<and> kvtree_paths (hs i) = flow n ?V ?w (\<lambda>k. k) ?H i)"
    using map_sends [OF n(2) L31, of c] by blast
  have rr: "?V i \<Longrightarrow> map_record (level_file level i) 0 = Some (Some (rr i))"
    "?V i \<Longrightarrow> kvtree_pack_size (Some (rr i)) = 35 + length (level_file level i)" for i using sends [of i] by blast+
  have hs: "i < n \<Longrightarrow> (if ?V i then kvtree_exchange_sendq (Some kvtree_new) (int (?w i)) (Some (rr i))
        else Inr (KVTREE_SUCCESS, Some kvtree_new)) = Inr (KVTREE_SUCCESS, Some (hs i))"
    "i < n \<Longrightarrow> kvtree_wf (hs i) \<and> kvtree_paths (hs i) = flow n ?V ?w (\<lambda>k. k) ?H i" for i using sends [of i] by blast+
  obtain u where u: "does n eager red (\<lambda>i. kvtree_exchange_direction (e i) (os_junk (os i)) i n (Some (hs i)) (Some kvtree_new)
        KVTREE_EXCHANGE_LEFT) (\<lambda>i. (KVTREE_SUCCESS, Some (u i)))"
      "\<And>i. i < n \<Longrightarrow> kvtree_wf (u i) \<and> kvtree_paths (u i) = map_paths n c level i"
    using does_flow [where eager = eager and red = red and e = e and junk = "\<lambda>i. os_junk (os i)" and dir = KVTREE_EXCHANGE_LEFT,
        OF n30 _ maps_fit [OF n(2) L31, of c] hs(2)] n31 unfolding map_paths_def by (auto intro: le_less_trans)
  let ?f2 = "\<lambda>i wr al. \<lambda>(_, recv).
     let save = save_hash (int i = wr) recv;
         mapfile = snprintf_buf 1024 (if al \<noteq> 0 then [] else ''.'' @ fmt_signed (int (Suc level)) @ ''.'' @ fmt_signed wr);
         mappath = snprintf_buf 1024 (prefix @ mapfile)
     in seq (if al = 0 then
               kvtree_write_gather_map levels (e i) crc32 null i n prefix (os i) mapfile 0 (int (Suc level) + 1) (int i = wr)
             else Ret (os i, KVTREE_SUCCESS)) (finish (e i) crc32 n (Suc level) mappath save (int i = wr))"
  let ?f1 = "\<lambda>i. \<lambda>(wr, al).
     (case (if ?V i then kvtree_exchange_sendq (Some kvtree_new) wr (Some (rr i)) else Inr (KVTREE_SUCCESS, Some kvtree_new)) of
        Inl _ \<Rightarrow> Abort
      | Inr (_, send) \<Rightarrow>
          seq (kvtree_exchange_direction (e i) (os_junk (os i)) i n send (Some kvtree_new) KVTREE_EXCHANGE_LEFT) (?f2 i wr al))"
  have none: "(word_of_nat 0 :: u64) = 0" by simp
  have prog: "kvtree_write_gather_map (Suc levels) (e i) crc32 null i n prefix (os i) (fname i) 0 (int (Suc level)) (?V i) =
      seq (pick_writer null i n (word_of_nat (?c i))) (?f1 i)" if "i < n" for i
    using rr [of i] fname [OF that]
    by (cases "?V i") (simp_all only: kvtree_write_gather_map.simps finish_def if_True if_False lift_simps seq.simps
        simp_thms none)
  have mid: "?f1 i (int (?w i), ?all) =
      seq (kvtree_exchange_direction (e i) (os_junk (os i)) i n (Some (hs i)) (Some kvtree_new) KVTREE_EXCHANGE_LEFT)
        (?f2 i (int (?w i)) ?all)" if "i < n" for i
    by (simp only: prod.case hs(1) [OF that] sum.case)
  have last: "?f2 i (int (?w i)) ?all (KVTREE_SUCCESS, Some (u i)) =
     seq (if only_root n ?st then Ret (os i, KVTREE_SUCCESS)
           else kvtree_write_gather_map levels (e i) crc32 null i n prefix (os i)
                  (level_file (Suc level) (?w i)) 0 (int (Suc (Suc level))) (?st i))
        (finish (e i) crc32 n (Suc level) (map_path prefix n c (Suc level) i) (save_hash (?st i) (Some (u i))) (?st i))"
    if i: "i < n" for i
  proof -
    have self: "int i = int (?w i) \<longleftrightarrow> ?st i" using writer_self [of ?st i, OF st0] by auto
    have w31: "?w i < 2 ^ 31" using n31 [OF i] by simp
    note fit = level_file_fits [OF L w31 prefix]
    have nm: "''.'' @ fmt_signed (int (Suc level)) @ ''.'' @ fmt_signed (int (?w i)) = level_file (Suc level) (?w i)"
      by (simp add: level_file_def)
    have path: "finish (e i) crc32 n (Suc level) (prefix @ (if only_root n ?st then [] else level_file (Suc level) (?w i))) save (?st i) =
        finish (e i) crc32 n (Suc level) (map_path prefix n c (Suc level) i) save (?st i)" for save
      using self finish_idle by (cases "?st i") (auto simp: map_path_def simp del: starters.simps)
    show ?thesis
      unfolding self nm by (cases "only_root n ?st") (use path fit in \<open>simp_all add: Let_def snprintf_buf_def [of 1024 "[]"] del: starters.simps\<close>)
  qed
  have pick: "does n eager red (\<lambda>i. pick_writer null i n (word_of_nat (?c i))) (\<lambda>i. (int (?w i), ?all))"
    using does_pick [OF red n(1) n30 null, of ?c eager] map_sizes(1) [OF n(2) L31, of c] map_sizes(2) [OF n(2) L31, of _ c] by simp
  have "does n eager red (\<lambda>i. kvtree_write_gather_map (Suc levels) (e i) crc32 null i n prefix (os i) (fname i) 0
      (int (Suc level)) (?V i)) r"
    if rest: "does n eager red (\<lambda>i. seq (if only_root n ?st then Ret (os i, KVTREE_SUCCESS)
           else kvtree_write_gather_map levels (e i) crc32 null i n prefix (os i)
                  (level_file (Suc level) (?w i)) 0 (int (Suc (Suc level))) (?st i))
        (finish (e i) crc32 n (Suc level) (map_path prefix n c (Suc level) i) (save_hash (?st i) (Some (u i))) (?st i))) r" for r
  proof -
    have "does n eager red (\<lambda>i. ?f2 i (int (?w i)) ?all (KVTREE_SUCCESS, Some (u i))) r"
      using rest by (subst does_cong [OF last])
    from does_seq [where f = "\<lambda>i. ?f2 i (int (?w i)) ?all", OF u(1) this]
    have "does n eager red (\<lambda>i. ?f1 i (int (?w i), ?all)) r" by (subst does_cong [OF mid])
    with pick have "does n eager red (\<lambda>i. seq (pick_writer null i n (word_of_nat (?c i))) (?f1 i)) r"
      by (intro does_seq [where f = ?f1])
    then show ?thesis by (subst does_cong [OF prog])
  qed
  with u(2) show ?thesis by blast
qed

lemma map_path_differs:
  assumes "l \<noteq> l'" and "l < 2 ^ 31" and "l' < 2 ^ 31" and "\<not> only_root n (starters c l)"
  shows "map_path prefix n c l i \<noteq> map_path prefix n c l' i"
  using assms level_file_inj [of l l' i] by (auto simp: map_path_def level_file_def)

lemma maps_written_next:
  assumes "maps_written crc32 prefix n c (Suc level) M i T os os1"
    and "os_files os' = (if starters c (Suc level) i then (os_files os1)(map_path prefix n c (Suc level) i \<mapsto> file_image crc32 s)
           else os_files os1)"
    and "saved n (Suc level) (map_paths n c level i) s" and "level < M" and "M < 2 ^ 31"
    and mid: "\<forall>l. level < l \<and> l < M \<longrightarrow> \<not> only_root n (starters c l)"
  shows "maps_written crc32 prefix n c level M i (T(level := s)) os os'"
  unfolding maps_written_def
proof (intro conjI allI impI)
  fix l assume l: "level \<le> l \<and> l < M \<and> starters c (Suc l) i"
  show "saved n (Suc l) (map_paths n c l i) ((T(level := s)) l)"
    using assms(1,3) l by (cases "l = level") (auto simp: maps_written_def)
  show "os_files os' (map_path prefix n c (Suc l) i) = Some (file_image crc32 ((T(level := s)) l))"
  proof (cases "l = level")
    case True
    then show ?thesis using assms(2) l by simp
  next
    case False
    then have "map_path prefix n c (Suc level) i \<noteq> map_path prefix n c (Suc l) i"
      using mid assms(5) l by (intro map_path_differs) auto
    then show ?thesis using assms(1,2) l False by (auto simp: maps_written_def simp del: starters.simps)
  qed
next
  fix f assume f: "\<forall>l. level \<le> l \<and> l < M \<and> starters c (Suc l) i \<longrightarrow> f \<noteq> map_path prefix n c (Suc l) i"
  then have "os_files os1 f = os_files os f" using assms(1) by (auto simp: maps_written_def simp del: starters.simps)
  moreover have "starters c (Suc level) i \<Longrightarrow> f \<noteq> map_path prefix n c (Suc level) i" using f assms(4) by blast
  ultimately show "os_files os' f = os_files os f" using assms(2) by (auto simp del: starters.simps)
qed

lemma maps_written_none: "maps_written crc32 prefix n c M M i T os os"
  by (auto simp: maps_written_def)

text \<open>The last steps of all ranks.\<close>

lemma all_finish:
  assumes crc: "crc32_local crc32" and n: "n \<le> 2 ^ 23" and L: "level < 2 ^ 31"
    and u: "\<forall>i < n. kvtree_wf (u i) \<and> kvtree_paths (u i) = Q i \<and> (\<Sum>p \<in> Q i. path_cost p) < 2 ^ 31"
  shows "\<exists>os' rc s. (\<forall>i < n. finish (e i) crc32 n level (path i) (save_hash (st i) (Some (u i))) (st i) (os i, map_rc i) =
      Ret (os' i, rc i) \<and> saved n level (Q i) (s i) \<and>
    (calm (os_script (os i)) \<and> map_rc i = KVTREE_SUCCESS \<longrightarrow> rc i = KVTREE_SUCCESS \<and> calm (os_script (os' i)) \<and>
       os_files (os' i) = (if st i then (os_files (os i))(path i \<mapsto> file_image crc32 (s i)) else os_files (os i))))"
proof -
  have n31: "n < 2 ^ 31" using n by simp
  have "\<forall>i. \<exists>x. i < n \<longrightarrow> finish (e i) crc32 n level (path i) (save_hash (st i) (Some (u i))) (st i) (os i, map_rc i) =
      Ret (fst x, fst (snd x)) \<and> saved n level (Q i) (snd (snd x)) \<and>
    (calm (os_script (os i)) \<and> map_rc i = KVTREE_SUCCESS \<longrightarrow> fst (snd x) = KVTREE_SUCCESS \<and> calm (os_script (fst x)) \<and>
       os_files (fst x) = (if st i then (os_files (os i))(path i \<mapsto> file_image crc32 (snd (snd x))) else os_files (os i)))"
  proof
    fix i
    show "\<exists>x. i < n \<longrightarrow> finish (e i) crc32 n level (path i) (save_hash (st i) (Some (u i))) (st i) (os i, map_rc i) =
      Ret (fst x, fst (snd x)) \<and> saved n level (Q i) (snd (snd x)) \<and>
    (calm (os_script (os i)) \<and> map_rc i = KVTREE_SUCCESS \<longrightarrow> fst (snd x) = KVTREE_SUCCESS \<and> calm (os_script (fst x)) \<and>
       os_files (fst x) = (if st i then (os_files (os i))(path i \<mapsto> file_image crc32 (snd (snd x))) else os_files (os i)))"
    proof (cases "i < n")
      case True
      then have ui: "kvtree_wf (u i)" "kvtree_paths (u i) = Q i" "(\<Sum>p \<in> kvtree_paths (u i). path_cost p) < 2 ^ 31"
        using u by auto
      from finish_ok [OF crc ui(1) L n31 ui(3), of "e i" "path i" "st i" "os i" "map_rc i"] show ?thesis
        unfolding ui(2) by auto
    qed simp
  qed
  from choice [OF this] obtain x where "\<forall>i. i < n \<longrightarrow> finish (e i) crc32 n level (path i) (save_hash (st i) (Some (u i))) (st i) (os i, map_rc i) =
      Ret (fst (x i), fst (snd (x i))) \<and> saved n level (Q i) (snd (snd (x i))) \<and>
    (calm (os_script (os i)) \<and> map_rc i = KVTREE_SUCCESS \<longrightarrow> fst (snd (x i)) = KVTREE_SUCCESS \<and> calm (os_script (fst (x i))) \<and>
       os_files (fst (x i)) = (if st i then (os_files (os i))(path i \<mapsto> file_image crc32 (snd (snd (x i)))) else os_files (os i)))" ..
  then show ?thesis
    by (intro exI [of _ "\<lambda>i. fst (x i)"] exI [of _ "\<lambda>i. fst (snd (x i))"] exI [of _ "\<lambda>i. snd (snd (x i))"])
qed

lemma does_maps:
  assumes red: "mpi_collectives red" and n: "0 < n" "n \<le> 2 ^ 23" and null: "\<And>j. j < n \<Longrightarrow> null \<noteq> int j"
    and crc: "crc32_local crc32" and prefix: "length prefix < 900"
    and "level + card {i. i < n \<and> starters c level i} \<le> n" and "card {i. i < n \<and> starters c level i} \<le> levels"
    and "\<And>i. i < n \<Longrightarrow> starters c level i \<Longrightarrow> fname i = level_file level i"
  shows "\<exists>M os' rc T. level < M \<and> M \<le> level + card {i. i < n \<and> starters c level i} \<and>
    only_root n (starters c M) \<and> (\<forall>l. level < l \<and> l < M \<longrightarrow> \<not> only_root n (starters c l)) \<and>
    does n eager red (\<lambda>i. kvtree_write_gather_map levels (e i) crc32 null i n prefix (os i) (fname i) 0
      (int (Suc level)) (starters c level i)) (\<lambda>i. (os' i, rc i)) \<and>
    ((\<forall>i < n. calm (os_script (os i))) \<longrightarrow> (\<forall>i < n. rc i = KVTREE_SUCCESS \<and> calm (os_script (os' i)) \<and>
       maps_written crc32 prefix n c level M i (T i) (os i) (os' i)))"
  using assms(7-9)
proof (induction levels arbitrary: level fname)
  case 0
  have "0 < card {i. i < n \<and> starters c level i}" using n(1) starters_0 [of c level] by (auto simp: card_gt_0_iff)
  with 0(2) show ?case by linarith
next
  case (Suc levels)
  let ?V = "{i. i < n \<and> starters c level i}" and ?W = "{i. i < n \<and> starters c (Suc level) i}"
  let ?st = "starters c (Suc level)"
  have pos: "0 < card ?V" using n(1) starters_0 [of c level] by (auto simp: card_gt_0_iff)
  have L: "Suc level < 2 ^ 31" "level < 2 ^ 31" using Suc.prems(1) n(2) pos by auto
  obtain u where u: "\<forall>i < n. kvtree_wf (u i) \<and> kvtree_paths (u i) = map_paths n c level i"
    and rest: "\<And>r. does n eager red (\<lambda>i. seq (if only_root n ?st then Ret (os i, KVTREE_SUCCESS)
           else kvtree_write_gather_map levels (e i) crc32 null i n prefix (os i)
                  (level_file (Suc level) (writer ?st i)) 0 (int (Suc (Suc level))) (?st i))
        (finish (e i) crc32 n (Suc level) (map_path prefix n c (Suc level) i) (save_hash (?st i) (Some (u i))) (?st i))) r \<Longrightarrow>
      does n eager red (\<lambda>i. kvtree_write_gather_map (Suc levels) (e i) crc32 null i n prefix (os i) (fname i) 0
        (int (Suc level)) (starters c level i)) r"
    using map_round [where fname = fname, OF red n null L(1) prefix Suc.prems(3)] by blast
  have cost: "(\<Sum>p \<in> map_paths n c level i. path_cost p) < 2 ^ 31" for i
    unfolding map_paths_def using n(2) by (intro flow_cost(1) maps_fit [OF n(2) L(2)]) auto
  then have u': "\<forall>i < n. kvtree_wf (u i) \<and> kvtree_paths (u i) = map_paths n c level i \<and> (\<Sum>p \<in> map_paths n c level i. path_cost p) < 2 ^ 31"
    using u by blast
  let ?finish = "\<lambda>i. finish (e i) crc32 n (Suc level) (map_path prefix n c (Suc level) i) (save_hash (?st i) (Some (u i))) (?st i)"
  obtain M os1 rc1 T1 where M: "level < M" "M \<le> level + card ?V" "only_root n (starters c M)"
      "\<forall>l. level < l \<and> l < M \<longrightarrow> \<not> only_root n (starters c l)"
    and first: "does n eager red (\<lambda>i. if only_root n ?st then Ret (os i, KVTREE_SUCCESS)
           else kvtree_write_gather_map levels (e i) crc32 null i n prefix (os i)
                  (level_file (Suc level) (writer ?st i)) 0 (int (Suc (Suc level))) (?st i)) (\<lambda>i. (os1 i, rc1 i))"
    and live: "(\<forall>i < n. calm (os_script (os i))) \<longrightarrow> (\<forall>i < n. rc1 i = KVTREE_SUCCESS \<and> calm (os_script (os1 i)) \<and>
       maps_written crc32 prefix n c (Suc level) M i (T1 i) (os i) (os1 i))"
  proof (cases "only_root n ?st")
    case True
    then have "does n eager red (\<lambda>i. if only_root n ?st then Ret (os i, KVTREE_SUCCESS)
           else kvtree_write_gather_map levels (e i) crc32 null i n prefix (os i)
                  (level_file (Suc level) (writer ?st i)) 0 (int (Suc (Suc level))) (?st i)) (\<lambda>i. (os i, KVTREE_SUCCESS))"
      by (intro does_Ret) simp
    with True pos show thesis
      by (intro that [of "Suc level" os "\<lambda>_. KVTREE_SUCCESS" "\<lambda>_ _. kvtree_new"]) (auto simp: maps_written_none simp del: starters.simps)
  next
    case False
    have less: "card ?W < card ?V" using level_decreases [OF n(1) _ L(2) False] n(2) by simp
    have name: "level_file (Suc level) (writer ?st i) = level_file (Suc level) i" if "?st i" for i
      using that writer_self [of ?st i, OF starters_0] by simp
    have "Suc level + card ?W \<le> n" "card ?W \<le> levels" using less Suc.prems(1,2) by simp_all
    from Suc.IH [OF this name] obtain M os1 rc1 T1 where IH: "Suc level < M" "M \<le> Suc level + card ?W" "only_root n (starters c M)"
      "\<forall>l. Suc level < l \<and> l < M \<longrightarrow> \<not> only_root n (starters c l)"
      "does n eager red (\<lambda>i. kvtree_write_gather_map levels (e i) crc32 null i n prefix (os i) (level_file (Suc level) (writer ?st i)) 0
        (int (Suc (Suc level))) (?st i)) (\<lambda>i. (os1 i, rc1 i))"
      "(\<forall>i < n. calm (os_script (os i))) \<longrightarrow> (\<forall>i < n. rc1 i = KVTREE_SUCCESS \<and> calm (os_script (os1 i)) \<and>
        maps_written crc32 prefix n c (Suc level) M i (T1 i) (os i) (os1 i))" by blast
    have "\<forall>l. level < l \<and> l < M \<longrightarrow> \<not> only_root n (starters c l)"
      using IH(4) False by (metis Suc_lessI)
    with IH False less show thesis by (intro that [of M os1 rc1 T1]) (simp_all del: starters.simps)
  qed
  obtain os' rc s where fin: "\<forall>i < n. ?finish i (os1 i, rc1 i) = Ret (os' i, rc i) \<and> saved n (Suc level) (map_paths n c level i) (s i) \<and>
    (calm (os_script (os1 i)) \<and> rc1 i = KVTREE_SUCCESS \<longrightarrow> rc i = KVTREE_SUCCESS \<and> calm (os_script (os' i)) \<and>
       os_files (os' i) = (if ?st i then (os_files (os1 i))(map_path prefix n c (Suc level) i \<mapsto> file_image crc32 (s i)) else os_files (os1 i)))"
    using all_finish [OF crc n(2) L(1) u', where e = e and path = "map_path prefix n c (Suc level)" and st = ?st and os = os1 and map_rc = rc1]
    by blast
  have "does n eager red (\<lambda>i. ?finish i (os1 i, rc1 i)) (\<lambda>i. (os' i, rc i))" using fin by (intro does_Ret) blast
  from rest [OF does_seq [where f = ?finish, OF first this]]
  have whole: "does n eager red (\<lambda>i. kvtree_write_gather_map (Suc levels) (e i) crc32 null i n prefix (os i) (fname i) 0
        (int (Suc level)) (starters c level i)) (\<lambda>i. (os' i, rc i))" .
  have "rc i = KVTREE_SUCCESS \<and> calm (os_script (os' i)) \<and> maps_written crc32 prefix n c level M i ((T1 i)(level := s i)) (os i) (os' i)"
    if "\<forall>i < n. calm (os_script (os i))" and i: "i < n" for i
    using live that fin M Suc.prems(1) n(2) by (intro conjI maps_written_next [of _ _ _ _ _ _ _ _ _ "os1 i"]) (auto simp del: starters.simps)
  with M whole show ?case by (intro exI [of _ M] exI [of _ os'] exI [of _ rc] exI [of _ "\<lambda>i. (T1 i)(level := s i)"]) blast
qed

section \<open>The whole writer\<close>

text \<open>The files after \<open>kvtree_write_gather\<close>, as rank \<open>i\<close> sees them: its part and its maps are added.\<close>

definition data_paths :: "nat \<Rightarrow> (nat \<Rightarrow> kvtree) \<Rightarrow> nat \<Rightarrow> kvpath set" where
  "data_paths n t i = flow n (\<lambda>_. True) (\<lambda>k. k) (writer (starters (\<lambda>k. kvtree_pack_size (Some (t k))) 0)) (\<lambda>k. kvtree_paths (t k)) i"

definition all_written ::
  "crc \<Rightarrow> string \<Rightarrow> nat \<Rightarrow> (nat \<Rightarrow> kvtree) \<Rightarrow> nat \<Rightarrow> nat \<Rightarrow> kvtree \<Rightarrow> (nat \<Rightarrow> kvtree) \<Rightarrow> os \<Rightarrow> os \<Rightarrow> bool" where
  "all_written crc32 prefix n t M i s T os os' \<longleftrightarrow>
     (let c = (\<lambda>k. kvtree_pack_size (Some (t k)))
      in saved n 0 (data_paths n t i) s \<and>
         (\<exists>os1. maps_written crc32 prefix n c 0 M i T os os1 \<and>
            os_files os' = (if starters c 0 i then (os_files os1)(prefix @ level_file 0 i \<mapsto> file_image crc32 s) else os_files os1)))"

lemma data_fits:
  assumes "\<And>i. i < n \<Longrightarrow> kvtree_wf (t i)" and "(\<Sum>i < n. kvtree_pack_size (Some (t i)) + 300) < 2 ^ 31"
  shows "fits n (\<lambda>_. True) (\<lambda>k. kvtree_paths (t k))" and "n \<le> 2 ^ 23" and "(\<Sum>i < n. kvtree_pack_size (Some (t i))) < 2 ^ 64"
proof -
  have eq: "(\<Sum>i < n. kvtree_pack_size (Some (t i)) + 300) = (\<Sum>i < n. kvtree_pack_size (Some (t i))) + 300 * n"
    by (simp add: sum.distrib)
  have pos: "(\<Sum>i < n. 4) \<le> (\<Sum>i < n. kvtree_pack_size (Some (t i)))"
  proof (rule sum_mono)
    fix i show "4 \<le> kvtree_pack_size (Some (t i))" by (cases "t i") (simp add: foldl_add)
  qed
  then show n: "n \<le> 2 ^ 23" using assms(2) eq by simp
  show "(\<Sum>i < n. kvtree_pack_size (Some (t i))) < 2 ^ 64" using assms(2) eq by simp
  have "(\<Sum>k < n. 60 + (\<Sum>q \<in> kvtree_paths (t k). path_cost q)) = (\<Sum>k < n. 60 + kvtree_pack_size (Some (t k)))"
    using assms(1) by (intro sum.cong) (simp_all add: pack_size_cost)
  also have "\<dots> = 60 * n + (\<Sum>k < n. kvtree_pack_size (Some (t k)))" by (simp add: sum.distrib)
  finally have "10 + (\<Sum>k < n. 60 + (\<Sum>q \<in> kvtree_paths (t k). path_cost q)) < 2 ^ 31"
    using assms(2) eq by (cases n) simp_all
  then show "fits n (\<lambda>_. True) (\<lambda>k. kvtree_paths (t k))" by (simp add: fits_def lessThan_def)
qed

lemma data_sends:
  assumes "\<And>i. i < n \<Longrightarrow> kvtree_wf (t i)" and "n \<le> 2 ^ 23" and "\<And>i. w i \<le> i"
  shows "\<exists>hs. \<forall>i < n. kvtree_exchange_sendq (Some kvtree_new) (int (w i)) (Some (t i)) = Inr (KVTREE_SUCCESS, Some (hs i)) \<and>
    kvtree_wf (hs i) \<and> kvtree_paths (hs i) = flow n (\<lambda>_. True) w (\<lambda>k. k) (\<lambda>k. kvtree_paths (t k)) i"
proof -
  have "\<exists>u. kvtree_exchange_sendq (Some kvtree_new) (int (w i)) (Some (t i)) = Inr (KVTREE_SUCCESS, Some u) \<and>
    kvtree_wf u \<and> kvtree_paths u = flow n (\<lambda>_. True) w (\<lambda>k. k) (\<lambda>k. kvtree_paths (t k)) i" if "i < n" for i
    using assms that le_less_trans [OF assms(3) [of i] that] by (intro queue_own) auto
  then have "\<forall>i. \<exists>u. i < n \<longrightarrow> kvtree_exchange_sendq (Some kvtree_new) (int (w i)) (Some (t i)) = Inr (KVTREE_SUCCESS, Some u) \<and>
    kvtree_wf u \<and> kvtree_paths u = flow n (\<lambda>_. True) w (\<lambda>k. k) (\<lambda>k. kvtree_paths (t k)) i" by blast
  from choice [OF this] show ?thesis by blast
qed

definition agree :: "os \<times> int \<Rightarrow> (os \<times> int) proc" where
  "agree = (\<lambda>(os, rc). seq (kvtree_alltrue (rc = KVTREE_SUCCESS)) (\<lambda>all_valid.
     Ret (os, if all_valid \<noteq> 0 then KVTREE_SUCCESS else KVTREE_FAILURE)))"

lemma does_agree:
  assumes "mpi_collectives red" and "0 < n"
  shows "does n eager red (\<lambda>i. agree (os i, rc i))
    (\<lambda>i. (os i, if \<forall>j < n. rc j = KVTREE_SUCCESS then KVTREE_SUCCESS else KVTREE_FAILURE))"
proof -
  let ?f = "\<lambda>i all_valid. Ret (os i, if all_valid \<noteq> (0 :: int) then KVTREE_SUCCESS else KVTREE_FAILURE)"
  have "does n eager red (\<lambda>i. ?f i (if \<forall>j < n. rc j = KVTREE_SUCCESS then 1 else 0))
     (\<lambda>i. (os i, if \<forall>j < n. rc j = KVTREE_SUCCESS then KVTREE_SUCCESS else KVTREE_FAILURE))"
    by (intro does_Ret) simp
  from does_seq [where f = ?f, OF does_alltrue [OF assms, of eager "\<lambda>i. rc i = KVTREE_SUCCESS"] this] show ?thesis
    by (simp add: agree_def)
qed

lemma finish_agree:
  "(\<lambda>(os, map_rc). seq (if writes then lift (write_map_file e crc32 os path save 0 n 0) else Ret (os, KVTREE_SUCCESS)) (\<lambda>(os, write_rc).
      seq (kvtree_alltrue (\<not> (map_rc \<noteq> KVTREE_SUCCESS \<or> write_rc \<noteq> KVTREE_SUCCESS))) (\<lambda>all_valid.
      Ret (os, if all_valid \<noteq> 0 then KVTREE_SUCCESS else KVTREE_FAILURE)))) =
   (\<lambda>x. seq (finish e crc32 n 0 path save writes x) agree)"
proof -
  have rc: "(if b then KVTREE_FAILURE else KVTREE_SUCCESS) = KVTREE_SUCCESS \<longleftrightarrow> \<not> b" for b by simp
  show ?thesis by (simp only: finish_def agree_def case_prod_unfold seq_assoc seq.simps fst_conv snd_conv rc int_ops(1) cong: if_cong)
qed

lemma gather_round:
  assumes red: "mpi_collectives red" and n: "0 < n" and null: "\<And>j. j < n \<Longrightarrow> null \<noteq> int j"
    and prefix: "length prefix < 900" and t: "\<And>i. i < n \<Longrightarrow> kvtree_wf (t i)" "(\<Sum>i < n. kvtree_pack_size (Some (t i)) + 300) < 2 ^ 31"
    and c: "c = (\<lambda>k. kvtree_pack_size (Some (t k)))"
  shows "\<exists>u. (\<forall>i < n. kvtree_wf (u i) \<and> kvtree_paths (u i) = data_paths n t i) \<and>
    (\<forall>r. does n eager red (\<lambda>i. seq (kvtree_write_gather_map levels (e i) crc32 null i n prefix (os i)
             (level_file 0 (writer (starters c 0) i)) 0 (int (Suc 0)) (starters c 0 i))
           (\<lambda>x. seq (finish (e i) crc32 n 0 (prefix @ level_file 0 i) (save_hash (starters c 0 i) (Some (u i))) (starters c 0 i) x) agree)) r \<longrightarrow>
      does n eager red (\<lambda>i. kvtree_write_gather levels (e i) crc32 null i n (os i) prefix (Some (t i))) r)"
proof -
  let ?st = "starters c 0" and ?H = "\<lambda>k. kvtree_paths (t k)"
  let ?w = "writer ?st" and ?all = "if only_root n ?st then 1 else 0 :: int"
  note small = data_fits [OF t]
  have w: "?w i \<le> i" for i using writer_props(1) [of ?st, OF starters_0] by blast
  have n30: "n \<le> 2 ^ 30" using small(2) by simp
  obtain hs where hs: "\<And>i. i < n \<Longrightarrow> kvtree_exchange_sendq (Some kvtree_new) (int (?w i)) (Some (t i)) = Inr (KVTREE_SUCCESS, Some (hs i)) \<and>
    kvtree_wf (hs i) \<and> kvtree_paths (hs i) = flow n (\<lambda>_. True) ?w (\<lambda>k. k) ?H i"
    using data_sends [of n t ?w, OF t(1) small(2) w] by blast
  have send: "\<And>i. i < n \<Longrightarrow> kvtree_wf (hs i) \<and> kvtree_paths (hs i) = flow n (\<lambda>_. True) ?w (\<lambda>k. k) ?H i" using hs by blast
  obtain u where u: "does n eager red (\<lambda>i. kvtree_exchange_direction (e i) (os_junk (os i)) i n (Some (hs i)) (Some kvtree_new)
        KVTREE_EXCHANGE_LEFT) (\<lambda>i. (KVTREE_SUCCESS, Some (u i)))"
      "\<And>i. i < n \<Longrightarrow> kvtree_wf (u i) \<and> kvtree_paths (u i) = data_paths n t i"
    using does_flow [where eager = eager and red = red and e = e and junk = "\<lambda>i. os_junk (os i)" and dir = KVTREE_EXCHANGE_LEFT,
        OF n30 _ small(1) send] le_less_trans [OF w] unfolding data_paths_def c by auto
  let ?f2 = "\<lambda>i wr. \<lambda>(_, recv).
     let save = save_hash (int i = wr) recv;
         mapfile = snprintf_buf 1024 (''.0.'' @ fmt_signed wr);
         mappath = snprintf_buf 1024 (prefix @ mapfile)
     in seq (kvtree_write_gather_map levels (e i) crc32 null i n prefix (os i) mapfile 0 1 (int i = wr))
          (\<lambda>x. seq (finish (e i) crc32 n 0 mappath save (int i = wr) x) agree)"
  let ?f1 = "\<lambda>i. \<lambda>(wr, al).
     (case kvtree_exchange_sendq (Some kvtree_new) wr (Some (t i)) of
        Inl _ \<Rightarrow> Abort
      | Inr (_, send) \<Rightarrow>
          seq (kvtree_exchange_direction (e i) (os_junk (os i)) i n send (Some kvtree_new) KVTREE_EXCHANGE_LEFT) (?f2 i wr))"
  have prog: "kvtree_write_gather levels (e i) crc32 null i n (os i) prefix (Some (t i)) =
      seq (pick_writer null i n (word_of_nat (c i))) (?f1 i)" for i
    unfolding kvtree_write_gather_def finish_agree c ..
  have mid: "?f1 i (int (?w i), ?all) =
      seq (kvtree_exchange_direction (e i) (os_junk (os i)) i n (Some (hs i)) (Some kvtree_new) KVTREE_EXCHANGE_LEFT)
        (?f2 i (int (?w i)))" if "i < n" for i
    by (simp only: prod.case hs [OF that] sum.case)
  have last: "?f2 i (int (?w i)) (KVTREE_SUCCESS, Some (u i)) =
     seq (kvtree_write_gather_map levels (e i) crc32 null i n prefix (os i) (level_file 0 (?w i)) 0 (int (Suc 0)) (?st i))
           (\<lambda>x. seq (finish (e i) crc32 n 0 (prefix @ level_file 0 i) (save_hash (?st i) (Some (u i))) (?st i) x) agree)"
    if i: "i < n" for i
  proof -
    have self: "int i = int (?w i) \<longleftrightarrow> ?st i" using writer_self [of ?st i, OF starters_0] by auto
    have w31: "?w i < 2 ^ 31" using w [of i] i small(2) by simp
    note fit = level_file_fits [of 0, OF _ w31 prefix]
    have nm: "''.0.'' @ fmt_signed (int (?w i)) = level_file 0 (?w i)" by (simp add: level_file_def)
    have path: "finish (e i) crc32 n 0 (prefix @ level_file 0 (?w i)) save (?st i) =
        finish (e i) crc32 n 0 (prefix @ level_file 0 i) save (?st i)" for save
      using self finish_idle by (cases "?st i") (auto simp del: starters.simps)
    show ?thesis unfolding self nm by (use path fit in \<open>simp add: Let_def del: starters.simps\<close>)
  qed
  have pick: "does n eager red (\<lambda>i. pick_writer null i n (word_of_nat (c i))) (\<lambda>i. (int (?w i), ?all))"
    using does_pick [OF red n n30 null, of c eager] small(3) by (simp add: c)
  have "does n eager red (\<lambda>i. kvtree_write_gather levels (e i) crc32 null i n (os i) prefix (Some (t i))) r"
    if rest: "does n eager red (\<lambda>i. seq (kvtree_write_gather_map levels (e i) crc32 null i n prefix (os i)
             (level_file 0 (?w i)) 0 (int (Suc 0)) (?st i))
           (\<lambda>x. seq (finish (e i) crc32 n 0 (prefix @ level_file 0 i) (save_hash (?st i) (Some (u i))) (?st i) x) agree)) r" for r
  proof -
    have "does n eager red (\<lambda>i. ?f2 i (int (?w i)) (KVTREE_SUCCESS, Some (u i))) r"
      using rest by (subst does_cong [OF last])
    from does_seq [where f = "\<lambda>i. ?f2 i (int (?w i))", OF u(1) this]
    have "does n eager red (\<lambda>i. ?f1 i (int (?w i), ?all)) r" by (subst does_cong [OF mid])
    with pick show ?thesis unfolding prog by (intro does_seq [where f = ?f1])
  qed
  with u(2) show ?thesis by blast
qed

lemma does_write_gather:
  assumes red: "mpi_collectives red" and n: "0 < n" and null: "\<And>j. j < n \<Longrightarrow> null \<noteq> int j" and crc: "crc32_local crc32"
    and prefix: "length prefix < 900" and t: "\<And>i. i < n \<Longrightarrow> kvtree_wf (t i)" "(\<Sum>i < n. kvtree_pack_size (Some (t i)) + 300) < 2 ^ 31"
    and levels: "n \<le> levels" and c: "c = (\<lambda>k. kvtree_pack_size (Some (t k)))"
  shows "\<exists>M os' rc s T. 0 < M \<and> M \<le> n \<and> only_root n (starters c M) \<and> (\<forall>l. 0 < l \<and> l < M \<longrightarrow> \<not> only_root n (starters c l)) \<and>
    does n eager red (\<lambda>i. kvtree_write_gather levels (e i) crc32 null i n (os i) prefix (Some (t i))) (\<lambda>i. (os' i, rc)) \<and>
    ((\<forall>i < n. calm (os_script (os i))) \<longrightarrow> rc = KVTREE_SUCCESS \<and>
       (\<forall>i < n. calm (os_script (os' i)) \<and> all_written crc32 prefix n t M i (s i) (T i) (os i) (os' i)))"
proof -
  let ?st = "starters c 0"
  note small = data_fits [OF t]
  obtain u where u: "\<forall>i < n. kvtree_wf (u i) \<and> kvtree_paths (u i) = data_paths n t i"
    and rest: "\<And>r. does n eager red (\<lambda>i. seq (kvtree_write_gather_map levels (e i) crc32 null i n prefix (os i)
             (level_file 0 (writer ?st i)) 0 (int (Suc 0)) (?st i))
           (\<lambda>x. seq (finish (e i) crc32 n 0 (prefix @ level_file 0 i) (save_hash (?st i) (Some (u i))) (?st i) x) agree)) r \<Longrightarrow>
      does n eager red (\<lambda>i. kvtree_write_gather levels (e i) crc32 null i n (os i) prefix (Some (t i))) r"
    using gather_round [OF red n null prefix t c, of eager levels e crc32 os] by blast
  have "card {i. i < n \<and> ?st i} \<le> card {..<n}" by (rule card_mono) auto
  then have card: "0 + card {i. i < n \<and> ?st i} \<le> n" "card {i. i < n \<and> ?st i} \<le> levels" using levels by simp_all
  have name: "level_file 0 (writer ?st i) = level_file 0 i" if "?st i" for i
    using that writer_self [of ?st i, OF starters_0] by simp
  obtain M os1 rc1 T where M: "0 < M" "M \<le> 0 + card {i. i < n \<and> ?st i}" "only_root n (starters c M)"
      "\<forall>l. 0 < l \<and> l < M \<longrightarrow> \<not> only_root n (starters c l)"
    and first: "does n eager red (\<lambda>i. kvtree_write_gather_map levels (e i) crc32 null i n prefix (os i)
             (level_file 0 (writer ?st i)) 0 (int (Suc 0)) (?st i)) (\<lambda>i. (os1 i, rc1 i))"
    and live: "(\<forall>i < n. calm (os_script (os i))) \<longrightarrow> (\<forall>i < n. rc1 i = KVTREE_SUCCESS \<and> calm (os_script (os1 i)) \<and>
       maps_written crc32 prefix n c 0 M i (T i) (os i) (os1 i))"
    using does_maps [where fname = "\<lambda>i. level_file 0 (writer ?st i)" and os = os and e = e and eager = eager,
        OF red n small(2) null crc prefix card name] by blast
  have cost: "(\<Sum>p \<in> data_paths n t i. path_cost p) < 2 ^ 31" for i
    unfolding data_paths_def using small(2) by (intro flow_cost(1) [OF small(1)]) auto
  then have u': "\<forall>i < n. kvtree_wf (u i) \<and> kvtree_paths (u i) = data_paths n t i \<and> (\<Sum>p \<in> data_paths n t i. path_cost p) < 2 ^ 31"
    using u by blast
  let ?finish = "\<lambda>i. finish (e i) crc32 n 0 (prefix @ level_file 0 i) (save_hash (?st i) (Some (u i))) (?st i)"
  obtain os' rc s where fin: "\<forall>i < n. ?finish i (os1 i, rc1 i) = Ret (os' i, rc i) \<and> saved n 0 (data_paths n t i) (s i) \<and>
    (calm (os_script (os1 i)) \<and> rc1 i = KVTREE_SUCCESS \<longrightarrow> rc i = KVTREE_SUCCESS \<and> calm (os_script (os' i)) \<and>
       os_files (os' i) = (if ?st i then (os_files (os1 i))(prefix @ level_file 0 i \<mapsto> file_image crc32 (s i)) else os_files (os1 i)))"
    using all_finish [OF crc small(2) _ u', where e = e and path = "\<lambda>i. prefix @ level_file 0 i" and st = ?st and os = os1 and map_rc = rc1 and level = 0]
    by auto
  have "does n eager red (\<lambda>i. seq (?finish i (os1 i, rc1 i)) agree)
      (\<lambda>i. (os' i, if \<forall>j < n. rc j = KVTREE_SUCCESS then KVTREE_SUCCESS else KVTREE_FAILURE))"
    using does_agree [OF red n, of eager os' rc] fin by (subst does_cong [of n _ "\<lambda>i. agree (os' i, rc i)"]) auto
  from rest [OF does_seq [where f = "\<lambda>i x. seq (?finish i x) agree", OF first this]]
  have whole: "does n eager red (\<lambda>i. kvtree_write_gather levels (e i) crc32 null i n (os i) prefix (Some (t i)))
      (\<lambda>i. (os' i, if \<forall>j < n. rc j = KVTREE_SUCCESS then KVTREE_SUCCESS else KVTREE_FAILURE))" .
  have "rc i = KVTREE_SUCCESS \<and> calm (os_script (os' i)) \<and> all_written crc32 prefix n t M i (s i) (T i) (os i) (os' i)"
    if "\<forall>i < n. calm (os_script (os i))" and i: "i < n" for i
    using live that fin unfolding all_written_def c [symmetric] Let_def by blast
  moreover have "M \<le> n" using M(2) card(1) by simp
  ultimately show ?thesis using M(1,3,4) whole
    by (intro exI [of _ M] exI [of _ os'] exI [of _ "if \<forall>j < n. rc j = KVTREE_SUCCESS then KVTREE_SUCCESS else KVTREE_FAILURE"]
        exI [of _ s] exI [of _ T]) auto
qed

end
