(* ===== verification/KV_ParRead.thy ===== *)
theory KV_ParRead
  imports KV_ParWrite
begin

text \<open>
  Reading gathered files back with \<open>kvtree_read_scatter\<close>: the readers of a level learn the files of the next,
  down to the parts, and every rank gets its data.
\<close>

section \<open>The files of the job\<close>

definition file_of :: "string \<Rightarrow> nat \<Rightarrow> nat \<Rightarrow> nat \<Rightarrow> string" where
  "file_of prefix M level i = (if level = M then prefix else prefix @ level_file level i)"

definition stored_paths :: "nat \<Rightarrow> (nat \<Rightarrow> kvtree) \<Rightarrow> nat \<Rightarrow> nat \<Rightarrow> kvpath set" where
  "stored_paths n t level i =
     (case level of 0 \<Rightarrow> data_paths n t i | Suc l \<Rightarrow> map_paths n (\<lambda>k. kvtree_pack_size (Some (t k))) l i)"

lemma digits_no_dot: "CHR ''.'' \<notin> set (fmt_signed (int l))"
  using nat_digits_digit [of 10 "CHR ''.''" l] by (auto simp: fmt_signed_def is_digit_of_def digit_val_def)

lemma level_file_inj2:
  assumes "level_file l i = level_file l' j" and "l < 2 ^ 31" "l' < 2 ^ 31" "i < 2 ^ 31" "j < 2 ^ 31"
  shows "l = l' \<and> i = j"
proof -
  have first: "takeWhile (\<lambda>x. x \<noteq> CHR ''.'') (tl (level_file l i)) = rank_key l" for l i
    using digits_no_dot [of l] by (simp add: level_file_def takeWhile_append rank_key_def)
  have "rank_key l = rank_key l'" using first [of l i] first [of l' j] assms(1) by simp
  then have l: "l = l'" using rank_key_inj assms(2,3) by blast
  then have "rank_key i = rank_key j" using assms(1) by (simp add: level_file_def rank_key_def)
  then show ?thesis using l rank_key_inj assms(4,5) by blast
qed

lemma root_only: "only_root n (starters c M) \<Longrightarrow> i < n \<Longrightarrow> starters c M i \<Longrightarrow> i = 0"
  using writer_self [of "starters c M" i, OF starters_0] by (auto simp: only_root_def)

lemma file_of_inj:
  assumes "file_of prefix M l i = file_of prefix M l' j" and "only_root n (starters c M)" and "M < 2 ^ 31" "n \<le> 2 ^ 31"
    and "l \<le> M" "l' \<le> M" "i < n" "j < n" "starters c l i" "starters c l' j"
  shows "l = l' \<and> i = j"
proof (cases "l = M \<or> l' = M")
  case True
  then have "l = M \<and> l' = M" using assms(1) by (auto simp: file_of_def level_file_def split: if_splits)
  then show ?thesis using root_only [OF assms(2)] assms(7-10) by auto
next
  case False
  then have "level_file l i = level_file l' j" using assms(1) by (simp add: file_of_def)
  then show ?thesis using assms by (intro level_file_inj2) auto
qed

text \<open>The files of one rank, level by level.\<close>

lemma own_files:
  assumes "all_written crc32 prefix n t M i s T os os'" and c: "c = (\<lambda>k. kvtree_pack_size (Some (t k)))"
    and M: "0 < M" "only_root n (starters c M)" "\<forall>l. 0 < l \<and> l < M \<longrightarrow> \<not> only_root n (starters c l)" and bounds: "M < 2 ^ 31"
  shows "l \<le> M \<Longrightarrow> starters c l i \<Longrightarrow> \<exists>s. saved n l (stored_paths n t l i) s \<and> os_files os' (file_of prefix M l i) = Some (file_image crc32 s)"
    and "(\<And>l. l \<le> M \<Longrightarrow> starters c l i \<Longrightarrow> f \<noteq> file_of prefix M l i) \<Longrightarrow> os_files os' f = os_files os f"
proof -
  obtain os1 where os1: "maps_written crc32 prefix n c 0 M i T os os1"
    "os_files os' = (if starters c 0 i then (os_files os1)(prefix @ level_file 0 i \<mapsto> file_image crc32 s) else os_files os1)"
    and s: "saved n 0 (data_paths n t i) s"
    using assms(1) unfolding all_written_def c [symmetric] Let_def by blast
  have path: "map_path prefix n c l i = file_of prefix M l i" if "0 < l" "l \<le> M" for l
    using that M(2,3) by (cases "l = M") (auto simp: map_path_def file_of_def)
  have differ: "file_of prefix M (Suc l) i \<noteq> prefix @ level_file 0 i" if "Suc l \<le> M" for l
    using that bounds level_file_inj [of "Suc l" 0 i] by (auto simp: file_of_def level_file_def)
  show "\<exists>s. saved n l (stored_paths n t l i) s \<and> os_files os' (file_of prefix M l i) = Some (file_image crc32 s)"
    if l: "l \<le> M" "starters c l i"
  proof (cases l)
    case 0
    then show ?thesis using l os1(2) s M(1) by (auto simp: stored_paths_def file_of_def simp del: starters.simps)
  next
    case (Suc k)
    then have "saved n l (map_paths n c k i) (T k)" "os_files os1 (map_path prefix n c l i) = Some (file_image crc32 (T k))"
      using os1(1) l unfolding maps_written_def by auto
    then show ?thesis using os1(2) path [of l] differ [of k] l Suc
      by (auto simp: stored_paths_def c [symmetric] simp del: starters.simps)
  qed
  show "os_files os' f = os_files os f" if f: "\<And>l. l \<le> M \<Longrightarrow> starters c l i \<Longrightarrow> f \<noteq> file_of prefix M l i"
  proof -
    have "f \<noteq> map_path prefix n c (Suc l) i" if "l < M" "starters c (Suc l) i" for l
      using f [of "Suc l"] that path [of "Suc l"] by simp
    then have "os_files os1 f = os_files os f" using os1(1) by (auto simp: maps_written_def simp del: starters.simps)
    moreover have "f \<noteq> prefix @ level_file 0 i" if "starters c 0 i" using f [of 0] that M(1) by (simp add: file_of_def)
    ultimately show ?thesis using os1(2) by (auto simp del: starters.simps)
  qed
qed

text \<open>What the file system holds after all ranks have written: each file as the rank left it that changed it.\<close>

definition settled :: "nat \<Rightarrow> (string \<rightharpoonup> byte list) \<Rightarrow> (nat \<Rightarrow> string \<rightharpoonup> byte list) \<Rightarrow> string \<rightharpoonup> byte list" where
  "settled n before after f = (case find (\<lambda>i. after i f \<noteq> before f) [0..<n] of None \<Rightarrow> before f | Some i \<Rightarrow> after i f)"

lemma settled_one:
  assumes "\<And>j. j < n \<Longrightarrow> j \<noteq> i \<Longrightarrow> after j f = before f" and "i < n"
  shows "settled n before after f = after i f"
proof (cases "find (\<lambda>i. after i f \<noteq> before f) [0..<n]")
  case None
  moreover from None have "after i f = before f" using assms(2) by (auto simp: find_None_iff)
  ultimately show ?thesis by (simp add: settled_def)
next
  case (Some j)
  then have "j < n" "after j f \<noteq> before f" by (auto simp: find_Some_iff)
  then show ?thesis using assms(1) Some by (auto simp: settled_def)
qed

definition stored :: "crc \<Rightarrow> string \<Rightarrow> nat \<Rightarrow> (nat \<Rightarrow> kvtree) \<Rightarrow> nat \<Rightarrow> (string \<rightharpoonup> byte list) \<Rightarrow> bool" where
  "stored crc32 prefix n t M files \<longleftrightarrow>
     (\<forall>l i. l \<le> M \<and> i < n \<and> starters (\<lambda>k. kvtree_pack_size (Some (t k))) l i \<longrightarrow>
        (\<exists>s. saved n l (stored_paths n t l i) s \<and> files (file_of prefix M l i) = Some (file_image crc32 s)))"

lemma settled_stored:
  assumes "\<forall>i < n. all_written crc32 prefix n t M i (s i) (T i) (os i) (os' i)" and c: "c = (\<lambda>k. kvtree_pack_size (Some (t k)))"
    and M: "0 < M" "only_root n (starters c M)" "\<forall>l. 0 < l \<and> l < M \<longrightarrow> \<not> only_root n (starters c l)" and bounds: "M < 2 ^ 31" "n \<le> 2 ^ 31"
    and before: "\<And>i. i < n \<Longrightarrow> os_files (os i) = before"
  shows "stored crc32 prefix n t M (settled n before (\<lambda>i. os_files (os' i)))"
  unfolding stored_def c [symmetric]
proof (intro allI impI)
  fix l i assume l: "l \<le> M \<and> i < n \<and> starters c l i"
  let ?f = "file_of prefix M l i"
  have "os_files (os' j) ?f = before ?f" if "j < n" "j \<noteq> i" for j
    using own_files(2) [OF _ c M bounds(1), of crc32 prefix j "s j" "T j" "os j" "os' j" ?f] assms(1) before that l
      file_of_inj [OF _ M(2) bounds, of prefix l i _ j] by fastforce
  then have "settled n before (\<lambda>i. os_files (os' i)) ?f = os_files (os' i) ?f" using l by (intro settled_one) auto
  then show "\<exists>s. saved n l (stored_paths n t l i) s \<and> settled n before (\<lambda>i. os_files (os' i)) ?f = Some (file_image crc32 s)"
    using own_files(1) [OF _ c M bounds(1), of crc32 prefix i "s i" "T i" "os i" "os' i" l] assms(1) l by simp
qed

section \<open>One step down\<close>

text \<open>A tree with one key.\<close>

lemma single_elem:
  assumes "kvtree_wf u" and "kvtree_paths u = insert [] ((#) k ` Q)" and "[] \<in> Q"
  obtains x where "elems u = [x]" and "elem_key x = Some k" and "hash_wf (elem_hash x)" and "hash_paths (elem_hash x) = Q"
proof -
  have "{k'. [k'] \<in> kvtree_paths u} = {k}" using assms(2,3) by auto
  then have "length (elems u) = 1" using size_keys [OF assms(1)] by simp
  then obtain x where x: "elems u = [x]" by (auto simp: length_Suc_conv)
  moreover have wf: "elem_wf x" using assms(1) x by (simp add: kvtree_wf_iff)
  then obtain k' where k': "elem_key x = Some k'" by (auto simp: elem_wf_iff)
  have paths: "kvtree_paths u = insert [] ((#) k' ` hash_paths (elem_hash x))"
    using elem_paths_key [OF k'] by (simp add: paths_elems [of u] x)
  have "[k'] \<in> kvtree_paths u" using Nil_in_paths(2) [of "elem_hash x"] by (auto simp: paths)
  then have "k' = k" using assms(2) by auto
  moreover from this have "hash_paths (elem_hash x) = Q" using paths assms(2) by auto
  ultimately show thesis using that k' wf by (auto simp: elem_wf_iff)
qed

lemma next_file_some:
  assumes "kvtree_wf u" and "kvtree_paths u = insert [] ((#) k ` rec_paths name)" and "length (prefix @ name) < 1024"
  shows "next_file prefix KVTREE_SUCCESS (Some u) = (KVTREE_SUCCESS, True, Some (prefix @ name), 0)"
proof -
  obtain x where x: "elems u = [x]" "hash_wf (elem_hash x)" "hash_paths (elem_hash x) = rec_paths name"
    by (rule single_elem [OF assms(1,2)]) (simp add: rec_paths_def)
  show ?thesis
    using record_fields [OF x(2,3)] x(1) assms(3)
    by (simp add: next_file_def kvtree_elem_first_def kvtree_elem_hash_def snprintf_buf_def)
qed

lemma next_file_none: "kvtree_wf u \<Longrightarrow> kvtree_paths u = {[]} \<Longrightarrow> next_file prefix rc (Some u) = (rc, False, None, 0)"
proof -
  assume u: "kvtree_wf u" "kvtree_paths u = {[]}"
  then have "length (elems u) = 0" using size_keys [OF u(1)] by simp
  then show ?thesis by (simp add: next_file_def kvtree_elem_first_def)
qed

text \<open>What a reader of a file of level \<open>l\<close> has in memory.\<close>

lemma read_stored:
  assumes crc: "crc32_local crc32" "crc32_range crc32" and calm: "calm (os_script os)"
    and s: "saved n l Q s" "os_files os f = Some (file_image crc32 s)" and Q: "finite Q" "[] \<in> Q" "(\<Sum>p \<in> Q. path_cost p) < 2 ^ 31"
    and small: "l < 2 ^ 31" "n < 2 ^ 31"
  shows "\<exists>os' h. read_map_file e crc32 os f 0 = Some (os', KVTREE_SUCCESS, h) \<and> os_files os' = os_files os \<and> calm (os_script os') \<and>
      hash_paths (kvtree_get h (Some ''RANK'')) = Q \<and> hash_wf (kvtree_get h (Some ''RANK'')) \<and>
      kvtree_util_get_int h (Some ''LEVEL'') = (KVTREE_SUCCESS, Some (int l))"
    and "Q \<noteq> {[]} \<Longrightarrow> \<exists>os' r. read_part_file e crc32 n os f 0 = Some (os', KVTREE_SUCCESS, Some r) \<and> os_files os' = os_files os \<and>
      calm (os_script os') \<and> kvtree_wf r \<and> kvtree_paths r = Q"
proof -
  obtain os2 fd where op: "kvtree_open os f {O_RDONLY} 0 = (os2, fd)" by fastforce
  obtain os3 lrc where l: "kvtree_lseek os2 f fd 0 SEEK_SET = (os3, lrc)" by fastforce
  have t: "kvtree_wf s" "kvtree_pack_size (Some s) < 2 ^ 32" using s(1) saved_size [OF s(1) Q(1,3) small] by (simp_all add: saved_def)
  obtain os4 nread u where r: "0 \<le> fd" "0 \<le> nread" "kvtree_read_fd e crc32 os3 (Some f) fd (Some kvtree_new) = Some (os4, nread, Some u)"
    "kvtree_wf u" "kvtree_paths u = kvtree_paths s"
    and cl: "\<And>os5 rc. kvtree_close os4 f fd = (os5, rc) \<Longrightarrow> os_files os5 = os_files os \<and> calm (os_script os5)"
    by (rule read_image [OF crc calm t s(2) op l, of e]) blast
  obtain os5 crc where c: "kvtree_close os4 f fd = (os5, crc)" by fastforce
  note fields = saved_fields [OF s(1) r(4,5) small Q(2)]
  have "read_map_file e crc32 os f 0 = Some (os5, KVTREE_SUCCESS, Some u)"
    using r(1-3) by (simp add: read_map_file_def op l c)
  then show "\<exists>os' h. read_map_file e crc32 os f 0 = Some (os', KVTREE_SUCCESS, h) \<and> os_files os' = os_files os \<and> calm (os_script os') \<and>
      hash_paths (kvtree_get h (Some ''RANK'')) = Q \<and> hash_wf (kvtree_get h (Some ''RANK'')) \<and>
      kvtree_util_get_int h (Some ''LEVEL'') = (KVTREE_SUCCESS, Some (int l))"
    using cl [OF c] fields by blast
  show "\<exists>os' r. read_part_file e crc32 n os f 0 = Some (os', KVTREE_SUCCESS, Some r) \<and> os_files os' = os_files os \<and>
      calm (os_script os') \<and> kvtree_wf r \<and> kvtree_paths r = Q" if ne: "Q \<noteq> {[]}"
  proof -
    obtain g where g: "kvtree_get (Some u) (Some ''RANK'') = Some g"
      using fields(3) ne by (cases "kvtree_get (Some u) (Some ''RANK'')") auto
    then have "fst (kvtree_extract (Some u) (Some ''RANK'')) = Some g" by (simp add: kvtree_extract_eq kvtree_get_eq)
    then have "read_part_file e crc32 n os f 0 = Some (os5, KVTREE_SUCCESS, Some g)"
      using r(1-3) fields(2) by (simp add: read_part_file_def op l c)
    then show ?thesis using cl [OF c] fields(3,4) g by auto
  qed
qed

section \<open>All ranks\<close>

text \<open>The bounds that make the stored trees small.\<close>

definition small_job :: "nat \<Rightarrow> (nat \<Rightarrow> kvtree) \<Rightarrow> bool" where
  "small_job n t \<longleftrightarrow> 0 < n \<and> (\<forall>i < n. kvtree_wf (t i)) \<and> (\<Sum>i < n. kvtree_pack_size (Some (t i)) + 300) < 2 ^ 31"

lemma small_jobD:
  assumes "small_job n t"
  shows "0 < n" and "\<And>i. i < n \<Longrightarrow> kvtree_wf (t i)" and "n \<le> 2 ^ 23" and "fits n (\<lambda>_. True) (\<lambda>k. kvtree_paths (t k))"
  using assms data_fits [of n t] by (auto simp: small_job_def)

lemma stored_paths_ok:
  assumes "small_job n t" and "l < 2 ^ 31"
  shows "finite (stored_paths n t l i)" and "[] \<in> stored_paths n t l i" and "(\<Sum>p \<in> stored_paths n t l i. path_cost p) < 2 ^ 31"
    and "\<not> starters (\<lambda>k. kvtree_pack_size (Some (t k))) l i \<Longrightarrow> stored_paths n t l i = {[]}"
proof -
  let ?c = "\<lambda>k. kvtree_pack_size (Some (t k))"
  note s = small_jobD [OF assms(1)]
  have idle: "flow n V D (writer (starters ?c l)) H i = {[]}" if "\<not> starters ?c l i" for V D H
    using that writer_props(2) [of "starters ?c l", OF starters_0] by (intro flow_none) (auto simp del: starters.simps)
  obtain V H where eq: "stored_paths n t l i = flow n V (\<lambda>k. k) (writer (starters ?c l)) H i" and fits: "fits n V H"
  proof (cases l)
    case 0
    then show thesis using s(4) by (intro that) (simp_all add: stored_paths_def data_paths_def)
  next
    case (Suc k)
    have "fits n (starters ?c k) (\<lambda>j. rec_paths (level_file k j))" using Suc assms(2) by (intro maps_fit [OF s(3)]) simp
    then show thesis using Suc by (intro that) (simp_all add: stored_paths_def map_paths_def)
  qed
  have "n \<le> 2 ^ 30" using s(3) by simp
  from flow_cost [OF fits this, of "\<lambda>k. k"]
  show "finite (stored_paths n t l i)" "(\<Sum>p \<in> stored_paths n t l i. path_cost p) < 2 ^ 31" unfolding eq by blast+
  show "[] \<in> stored_paths n t l i" unfolding eq by (simp add: flow_def)
  show "\<not> starters ?c l i \<Longrightarrow> stored_paths n t l i = {[]}" unfolding eq by (rule idle)
qed

text \<open>All readers of a level read their files.\<close>

definition level_send :: "bool \<Rightarrow> kvtree option \<Rightarrow> kvtree option" where
  "level_send valid hash =
     (if valid then snd (kvtree_merge (Some kvtree_new) (kvtree_get hash (Some ''RANK''))) else Some kvtree_new)"

definition reader_file :: "string \<Rightarrow> nat \<Rightarrow> (nat \<Rightarrow> nat) \<Rightarrow> nat \<Rightarrow> nat \<Rightarrow> string option" where
  "reader_file prefix M c l i = (if starters c l i then Some (file_of prefix M l i) else None)"

lemma all_read:
  assumes crc: "crc32_local crc32" "crc32_range crc32" and job: "small_job n t" and c: "c = (\<lambda>k. kvtree_pack_size (Some (t k)))"
    and stored: "\<And>i. i < n \<Longrightarrow> stored crc32 prefix n t M (os_files (os i))" and calm: "\<And>i. i < n \<Longrightarrow> calm (os_script (os i))"
    and l: "l \<le> M" "M < 2 ^ 31"
  shows "\<exists>os' h hs. \<forall>i < n.
    (if starters c l i then Option.bind (reader_file prefix M c l i) (\<lambda>f. read_map_file (e i) crc32 (os i) f 0)
     else Some (os i, KVTREE_SUCCESS, Some kvtree_new)) = Some (os' i, KVTREE_SUCCESS, h i) \<and>
    os_files (os' i) = os_files (os i) \<and> calm (os_script (os' i)) \<and>
    level_send (starters c l i) (h i) = Some (hs i) \<and> kvtree_wf (hs i) \<and> kvtree_paths (hs i) = stored_paths n t l i \<and>
    (starters c l i \<longrightarrow> kvtree_util_get_int (h i) (Some ''LEVEL'') = (KVTREE_SUCCESS, Some (int l)))"
proof -
  have l31: "l < 2 ^ 31" and n31: "n < 2 ^ 31" using l small_jobD(3) [OF job] by simp_all
  note Q = stored_paths_ok [OF job l31]
  let ?P = "\<lambda>i os' h hs. (if starters c l i then Option.bind (reader_file prefix M c l i) (\<lambda>f. read_map_file (e i) crc32 (os i) f 0)
     else Some (os i, KVTREE_SUCCESS, Some kvtree_new)) = Some (os', KVTREE_SUCCESS, h) \<and>
    os_files os' = os_files (os i) \<and> calm (os_script os') \<and>
    level_send (starters c l i) h = Some hs \<and> kvtree_wf hs \<and> kvtree_paths hs = stored_paths n t l i \<and>
    (starters c l i \<longrightarrow> kvtree_util_get_int h (Some ''LEVEL'') = (KVTREE_SUCCESS, Some (int l)))"
  have "\<exists>os' h hs. ?P i os' h hs" if i: "i < n" for i
  proof (cases "starters c l i")
    case True
    obtain s where s: "saved n l (stored_paths n t l i) s" "os_files (os i) (file_of prefix M l i) = Some (file_image crc32 s)"
      using stored [OF i] True i l(1) unfolding stored_def c [symmetric] by blast
    from read_stored(1) [OF crc calm [OF i] s Q(1,2,3) l31 n31, of "e i"] obtain os' h where
      h: "read_map_file (e i) crc32 (os i) (file_of prefix M l i) 0 = Some (os', KVTREE_SUCCESS, h)" "os_files os' = os_files (os i)"
      "calm (os_script os')" "hash_paths (kvtree_get h (Some ''RANK'')) = stored_paths n t l i" "hash_wf (kvtree_get h (Some ''RANK''))"
      "kvtree_util_get_int h (Some ''LEVEL'') = (KVTREE_SUCCESS, Some (int l))" by blast
    obtain m where "kvtree_merge (Some kvtree_new) (kvtree_get h (Some ''RANK'')) = (KVTREE_SUCCESS, Some m)" "kvtree_wf m"
      "kvtree_paths m = kvtree_paths kvtree_new \<union> stored_paths n t l i"
      using merge_eq [of kvtree_new, OF _ h(5)] h(4) by auto
    then show ?thesis using h(1-3,6) True Q(2) [of i]
      by (intro exI [of _ os'] exI [of _ h] exI [of _ m]) (auto simp: reader_file_def level_send_def)
  next
    case False
    then show ?thesis using calm [OF i] Q(4) [of i]
      by (intro exI [of _ "os i"] exI [of _ "Some kvtree_new"] exI [of _ kvtree_new]) (simp add: level_send_def c)
  qed
  then have "\<forall>i. \<exists>x. i < n \<longrightarrow> ?P i (fst x) (fst (snd x)) (snd (snd x))" by fastforce
  from choice [OF this] obtain x where "\<forall>i. i < n \<longrightarrow> ?P i (fst (x i)) (fst (snd (x i))) (snd (snd (x i)))" ..
  then show ?thesis
    by (intro exI [of _ "\<lambda>i. fst (x i)"] exI [of _ "\<lambda>i. fst (snd (x i))"] exI [of _ "\<lambda>i. snd (snd (x i))"])
qed

lemma does_true:
  assumes "mpi_collectives red" and "0 < n" and "does n eager red (\<lambda>i. f i 1) r"
  shows "does n eager red (\<lambda>i. seq (kvtree_alltrue True) (f i)) r"
  using does_seq [where f = f, OF does_alltrue [OF assms(1,2), of eager "\<lambda>_. True"]] assms(3) by simp

lemma does_level:
  assumes "mpi_collectives red" and "0 < n" and "v 0 = l" and "does n eager red (\<lambda>i. f i l) r"
  shows "does n eager red (\<lambda>i. seq (Coll (Bcast 0) (Mint (v i)) Ret) (\<lambda>m. seq (lift (got_int (Some m))) (f i))) r"
proof -
  let ?k = "\<lambda>i m. seq (lift (got_int (Some m))) (f i)"
  have "red (Bcast 0) (map (\<lambda>i. Mint (v i)) [0..<n]) i = Mint l" if "i < n" for i
    using red_bcast [OF assms(1), of 0 n i "\<lambda>i. Mint (v i)"] that assms(2,3) by simp
  then have "does n eager red (\<lambda>i. ?k i (red (Bcast 0) (map (\<lambda>i. Mint (v i)) [0..<n]) i)) r"
    using assms(4) by (subst does_cong [of n _ "\<lambda>i. f i l"]) (simp_all add: got_int_def)
  then show ?thesis unfolding seq.simps by (rule does_coll [where k = ?k, OF assms(2)])
qed

lemma file_of_length:
  assumes "l < 2 ^ 31" and "i < 2 ^ 31" and "length prefix < 900"
  shows "length (prefix @ level_file l i) < 1024"
  using level_file_short [OF assms(1,2)] assms(3) by simp

lemma scatter_round:
  assumes red: "mpi_collectives red" and crc: "crc32_local crc32" "crc32_range crc32" and job: "small_job n t"
    and c: "c = (\<lambda>k. kvtree_pack_size (Some (t k)))" and prefix: "length prefix < 900"
    and stored: "\<And>i. i < n \<Longrightarrow> stored crc32 prefix n t M (os_files (os i))" and calm: "\<And>i. i < n \<Longrightarrow> calm (os_script (os i))"
    and l: "Suc l \<le> M" "M < 2 ^ 31"
  shows "\<exists>os'. (\<forall>i < n. os_files (os' i) = os_files (os i) \<and> calm (os_script (os' i))) \<and>
    (\<forall>r. does n eager red (\<lambda>i. if 1 < int (Suc l) then
           kvtree_read_scatter_map levels (e i) crc32 i n prefix (os' i) (starters c l i) (reader_file prefix M c l i) 0
         else Ret (os' i, KVTREE_SUCCESS, starters c l i, reader_file prefix M c l i, 0)) r \<longrightarrow>
       does n eager red (\<lambda>i. kvtree_read_scatter_map (Suc levels) (e i) crc32 i n prefix (os i) (starters c (Suc l) i)
         (reader_file prefix M c (Suc l) i) 0) r)"
proof -
  let ?V = "starters c l" and ?st = "starters c (Suc l)" and ?H = "\<lambda>k. rec_paths (level_file l k)"
  note s = small_jobD [OF job]
  have l31: "l < 2 ^ 31" using l by simp
  have n30: "n \<le> 2 ^ 30" using s(3) by simp
  have w: "writer ?st i \<le> i" for i using writer_props(1) [of ?st, OF starters_0] by blast
  obtain os1 h hs where rd: "\<And>i. i < n \<Longrightarrow>
      (if ?st i then Option.bind (reader_file prefix M c (Suc l) i) (\<lambda>f. read_map_file (e i) crc32 (os i) f 0)
       else Some (os i, KVTREE_SUCCESS, Some kvtree_new)) = Some (os1 i, KVTREE_SUCCESS, h i) \<and>
      os_files (os1 i) = os_files (os i) \<and> calm (os_script (os1 i)) \<and>
      level_send (?st i) (h i) = Some (hs i) \<and> kvtree_wf (hs i) \<and> kvtree_paths (hs i) = stored_paths n t (Suc l) i \<and>
      (?st i \<longrightarrow> kvtree_util_get_int (h i) (Some ''LEVEL'') = (KVTREE_SUCCESS, Some (int (Suc l))))"
    using all_read [where e = e and os = os, OF crc job c stored calm l] by blast
  have sends: "kvtree_wf (hs i) \<and> kvtree_paths (hs i) = flow n ?V (\<lambda>k. k) (writer ?st) ?H i" if "i < n" for i
    using rd [OF that] by (simp add: stored_paths_def map_paths_def c)
  obtain u where u: "does n eager red (\<lambda>i. kvtree_exchange_direction (e i) (os_junk (os1 i)) i n (Some (hs i)) (Some kvtree_new)
        KVTREE_EXCHANGE_RIGHT) (\<lambda>i. (KVTREE_SUCCESS, Some (u i)))"
      "\<And>i. i < n \<Longrightarrow> kvtree_wf (u i) \<and> kvtree_paths (u i) = flow n ?V (writer ?st) (\<lambda>k. k) ?H i"
    using does_flow [where eager = eager and red = red and e = e and junk = "\<lambda>i. os_junk (os1 i)" and dir = KVTREE_EXCHANGE_RIGHT,
        OF n30 _ maps_fit [OF s(3) l31] sends] le_less_trans [OF w] by auto
  have next_: "next_file prefix KVTREE_SUCCESS (Some (u i)) = (KVTREE_SUCCESS, ?V i, reader_file prefix M c l i, 0)" if i: "i < n" for i
  proof (cases "?V i")
    case True
    have "i < 2 ^ 31" using i s(3) by simp
    then show ?thesis using True next_file_some [of "u i" _ "level_file l i" prefix] u(2) [OF i] file_of_length [OF l31 _ prefix, of i] l(1)
      by (simp add: flow_own [OF i] reader_file_def file_of_def)
  next
    case False
    then show ?thesis using next_file_none [of "u i" prefix] u(2) [OF i] by (simp add: flow_own [OF i] reader_file_def)
  qed
  let ?A = "\<lambda>i. Ret (os1 i, KVTREE_FAILURE, ?st i, reader_file prefix M c (Suc l) i, 0 :: u64)"
  let ?go = "\<lambda>i level_id all_valid. if all_valid = (0 :: int) then ?A i
     else if 1 < level_id then
       kvtree_read_scatter_map levels (e i) crc32 i n prefix (os1 i) (?V i) (reader_file prefix M c l i) 0
     else Ret (os1 i, KVTREE_SUCCESS, ?V i, reader_file prefix M c l i, 0)"
  let ?g = "\<lambda>i. \<lambda>(_, recv).
     let (rc, newvalid, newfile, newoffset) = next_file prefix KVTREE_SUCCESS recv;
         (rc, level_id) =
           (if ?st i then
              (case kvtree_util_get_int (h i) (Some ''LEVEL'') of
                 (get_rc, v) \<Rightarrow> (if get_rc \<noteq> KVTREE_SUCCESS then KVTREE_FAILURE else rc,
                                 case v of None \<Rightarrow> - 1 | Some l \<Rightarrow> l))
            else (rc, - 1))
     in seq (Coll (Bcast 0) (Mint level_id) Ret) (\<lambda>m.
        seq (lift (got_int (Some m))) (\<lambda>level_id.
        seq (kvtree_alltrue (rc = KVTREE_SUCCESS)) (\<lambda>all_valid.
        if all_valid = 0 then ?A i
        else if 1 < level_id then
          kvtree_read_scatter_map levels (e i) crc32 i n prefix (os1 i) newvalid newfile newoffset
        else Ret (os1 i, rc, newvalid, newfile, newoffset))))"
  let ?f = "\<lambda>i all_valid. if all_valid = (0 :: int) then ?A i
     else seq (kvtree_exchange_direction (e i) (os_junk (os1 i)) i n (level_send (?st i) (h i)) (Some kvtree_new) KVTREE_EXCHANGE_RIGHT) (?g i)"
  have prog: "kvtree_read_scatter_map (Suc levels) (e i) crc32 i n prefix (os i) (?st i) (reader_file prefix M c (Suc l) i) 0 =
      seq (kvtree_alltrue True) (?f i)" if "i < n" for i
    using rd [OF that, THEN conjunct1]
    by (simp only: kvtree_read_scatter_map.simps lift_simps seq.simps prod.case level_send_def Let_def simp_thms)
  have mid: "?f i 1 = seq (kvtree_exchange_direction (e i) (os_junk (os1 i)) i n (Some (hs i)) (Some kvtree_new) KVTREE_EXCHANGE_RIGHT) (?g i)"
    if "i < n" for i
    by (simp only: rd [OF that] one_neq_zero if_False)
  have last: "?g i (KVTREE_SUCCESS, Some (u i)) =
      seq (Coll (Bcast 0) (Mint (if ?st i then int (Suc l) else - 1)) Ret) (\<lambda>m. seq (lift (got_int (Some m))) (\<lambda>level_id.
        seq (kvtree_alltrue True) (?go i level_id)))" if "i < n" for i
    using rd [OF that] next_ [OF that] by (cases "?st i") (simp_all del: starters.simps of_nat_Suc add: Let_def)
  have "does n eager red (\<lambda>i. kvtree_read_scatter_map (Suc levels) (e i) crc32 i n prefix (os i) (?st i)
         (reader_file prefix M c (Suc l) i) 0) r"
    if rest: "does n eager red (\<lambda>i. if 1 < int (Suc l) then
           kvtree_read_scatter_map levels (e i) crc32 i n prefix (os1 i) (?V i) (reader_file prefix M c l i) 0
         else Ret (os1 i, KVTREE_SUCCESS, ?V i, reader_file prefix M c l i, 0)) r" for r
  proof -
    have "does n eager red (\<lambda>i. ?go i (int (Suc l)) 1) r" using rest by (simp del: of_nat_Suc)
    from does_level [where v = "\<lambda>i. if ?st i then int (Suc l) else - 1" and f = "\<lambda>i level_id. seq (kvtree_alltrue True) (?go i level_id)",
        OF red s(1) _ does_true [where f = "\<lambda>i. ?go i (int (Suc l))", OF red s(1) this]]
    have "does n eager red (\<lambda>i. ?g i (KVTREE_SUCCESS, Some (u i))) r"
      by (subst does_cong [OF last]) (simp_all only: starters_0 if_True)
    from does_seq [where f = ?g, OF u(1) this]
    have "does n eager red (\<lambda>i. ?f i 1) r" by (subst does_cong [OF mid])
    from does_true [where f = ?f, OF red s(1) this] show ?thesis by (subst does_cong [OF prog])
  qed
  with rd show ?thesis by blast
qed

lemma does_scatter_map:
  assumes red: "mpi_collectives red" and crc: "crc32_local crc32" "crc32_range crc32" and job: "small_job n t"
    and c: "c = (\<lambda>k. kvtree_pack_size (Some (t k)))" and prefix: "length prefix < 900" and M: "M < 2 ^ 31"
    and "\<And>i. i < n \<Longrightarrow> stored crc32 prefix n t M (os_files (os i))" and "\<And>i. i < n \<Longrightarrow> calm (os_script (os i))"
    and "Suc l \<le> M" and "l < levels"
  shows "\<exists>os'. (\<forall>i < n. os_files (os' i) = os_files (os i) \<and> calm (os_script (os' i))) \<and>
    does n eager red (\<lambda>i. kvtree_read_scatter_map levels (e i) crc32 i n prefix (os i) (starters c (Suc l) i) (reader_file prefix M c (Suc l) i) 0)
      (\<lambda>i. (os' i, KVTREE_SUCCESS, starters c 0 i, reader_file prefix M c 0 i, 0))"
  using assms(8-11)
proof (induction l arbitrary: levels os)
  case 0
  then obtain lv where lv: "levels = Suc lv" by (cases levels) auto
  obtain os' where os': "\<forall>i < n. os_files (os' i) = os_files (os i) \<and> calm (os_script (os' i))"
    and rest: "\<And>r. does n eager red (\<lambda>i. if 1 < int (Suc 0) then
           kvtree_read_scatter_map lv (e i) crc32 i n prefix (os' i) (starters c 0 i) (reader_file prefix M c 0 i) 0
         else Ret (os' i, KVTREE_SUCCESS, starters c 0 i, reader_file prefix M c 0 i, 0)) r \<Longrightarrow>
       does n eager red (\<lambda>i. kvtree_read_scatter_map (Suc lv) (e i) crc32 i n prefix (os i) (starters c (Suc 0) i)
         (reader_file prefix M c (Suc 0) i) 0) r"
    using scatter_round [where eager = eager and levels = lv and e = e and os = os, OF red crc job c prefix 0(1,2,3) M] by blast
  show ?case unfolding lv using os' by (intro exI [of _ os'] conjI rest does_Ret) simp_all
next
  case (Suc l)
  then obtain lv where lv: "levels = Suc lv" "l < lv" by (cases levels) auto
  obtain os1 where os1: "\<forall>i < n. os_files (os1 i) = os_files (os i) \<and> calm (os_script (os1 i))"
    and rest: "\<And>r. does n eager red (\<lambda>i. if 1 < int (Suc (Suc l)) then
           kvtree_read_scatter_map lv (e i) crc32 i n prefix (os1 i) (starters c (Suc l) i) (reader_file prefix M c (Suc l) i) 0
         else Ret (os1 i, KVTREE_SUCCESS, starters c (Suc l) i, reader_file prefix M c (Suc l) i, 0)) r \<Longrightarrow>
       does n eager red (\<lambda>i. kvtree_read_scatter_map (Suc lv) (e i) crc32 i n prefix (os i) (starters c (Suc (Suc l)) i)
         (reader_file prefix M c (Suc (Suc l)) i) 0) r"
    using scatter_round [where eager = eager and levels = lv and e = e and os = os, OF red crc job c prefix Suc.prems(1-3) M] by blast
  have more: "1 < int (Suc (Suc l))" by simp
  obtain os' where os': "\<forall>i < n. os_files (os' i) = os_files (os1 i) \<and> calm (os_script (os' i))"
    "does n eager red (\<lambda>i. kvtree_read_scatter_map lv (e i) crc32 i n prefix (os1 i) (starters c (Suc l) i) (reader_file prefix M c (Suc l) i) 0)
      (\<lambda>i. (os' i, KVTREE_SUCCESS, starters c 0 i, reader_file prefix M c 0 i, 0))"
    using Suc.IH [of os1 lv] os1 Suc.prems(1,3) lv(2) by auto
  show ?case
    unfolding lv(1) using os' os1 more by (intro exI [of _ os'] conjI rest) (simp_all only: if_True, auto)
qed

lemma all_read_parts:
  assumes crc: "crc32_local crc32" "crc32_range crc32" and job: "small_job n t" and c: "c = (\<lambda>k. kvtree_pack_size (Some (t k)))"
    and stored: "\<And>i. i < n \<Longrightarrow> stored crc32 prefix n t M (os_files (os i))" and calm: "\<And>i. i < n \<Longrightarrow> calm (os_script (os i))"
  shows "\<exists>os' hs. \<forall>i < n.
    (if starters c 0 i then Option.bind (reader_file prefix M c 0 i) (\<lambda>f. read_part_file (e i) crc32 n (os i) f 0)
     else Some (os i, KVTREE_SUCCESS, Some kvtree_new)) = Some (os' i, KVTREE_SUCCESS, Some (hs i)) \<and>
    kvtree_wf (hs i) \<and> kvtree_paths (hs i) = data_paths n t i"
proof -
  have n31: "n < 2 ^ 31" using small_jobD(3) [OF job] by simp
  have zero: "(0 :: nat) < 2 ^ 31" by simp
  note Q = stored_paths_ok [OF job zero]
  let ?P = "\<lambda>i os' hs. (if starters c 0 i then Option.bind (reader_file prefix M c 0 i) (\<lambda>f. read_part_file (e i) crc32 n (os i) f 0)
     else Some (os i, KVTREE_SUCCESS, Some kvtree_new)) = Some (os', KVTREE_SUCCESS, Some hs) \<and>
    kvtree_wf hs \<and> kvtree_paths hs = data_paths n t i"
  have data: "stored_paths n t 0 i = data_paths n t i" for i by (simp add: stored_paths_def)
  have "\<exists>os' hs. ?P i os' hs" if i: "i < n" for i
  proof (cases "starters c 0 i")
    case True
    obtain s where s: "saved n 0 (stored_paths n t 0 i) s" "os_files (os i) (file_of prefix M 0 i) = Some (file_image crc32 s)"
      using stored [OF i] True i unfolding stored_def c [symmetric] by blast
    have "writer (starters c 0) i = i" using True writer_self [of "starters c 0" i, OF starters_0] by blast
    then have "rank_key i # [] \<in> data_paths n t i"
      using i Nil_in_paths(1) [of "t i"] by (auto simp: data_paths_def flow_def c simp del: starters.simps)
    then have "stored_paths n t 0 i \<noteq> {[]}" by (auto simp: data)
    from read_stored(2) [OF crc calm [OF i] s Q(1,2,3) zero n31 this, of "e i"] show ?thesis
      using True unfolding data by (auto simp: reader_file_def simp del: starters.simps)
  next
    case False
    then show ?thesis using Q(4) [of i] data [of i]
      by (intro exI [of _ "os i"] exI [of _ kvtree_new]) (simp add: c del: starters.simps)
  qed
  then have "\<forall>i. \<exists>x. i < n \<longrightarrow> ?P i (fst x) (snd x)" by fastforce
  from choice [OF this] obtain x where "\<forall>i. i < n \<longrightarrow> ?P i (fst (x i)) (snd (x i))" ..
  then show ?thesis by (intro exI [of _ "\<lambda>i. fst (x i)"] exI [of _ "\<lambda>i. snd (x i)"])
qed

lemma merge_one:
  assumes "kvtree_wf u" and "kvtree_paths u = insert [] ((#) k ` kvtree_paths t)" and "kvtree_wf d"
  shows "\<exists>v. merge_received (Some d) (Some u) = Some v \<and> kvtree_wf v \<and> kvtree_paths v = kvtree_paths d \<union> kvtree_paths t"
proof -
  obtain x where x: "elems u = [x]" "hash_wf (elem_hash x)" "hash_paths (elem_hash x) = kvtree_paths t"
    by (rule single_elem [OF assms(1,2)]) simp
  obtain v where "kvtree_merge (Some d) (elem_hash x) = (KVTREE_SUCCESS, Some v)" "kvtree_wf v"
    "kvtree_paths v = kvtree_paths d \<union> kvtree_paths t" using merge_eq [OF assms(3) x(2)] x(3) by auto
  then show ?thesis by (simp add: merge_received_def hash_elems_def x(1) kvtree_elem_hash_def)
qed

section \<open>The whole reader\<close>

lemma does_read_scatter:
  assumes red: "mpi_collectives red" and crc: "crc32_local crc32" "crc32_range crc32" and job: "small_job n t"
    and c: "c = (\<lambda>k. kvtree_pack_size (Some (t k)))" and prefix: "length prefix < 900"
    and M: "0 < M" "M < 2 ^ 31" "only_root n (starters c M)" "M \<le> levels"
    and stored: "\<And>i. i < n \<Longrightarrow> stored crc32 prefix n t M (os_files (os i))" and calm: "\<And>i. i < n \<Longrightarrow> calm (os_script (os i))"
    and d: "\<And>i. i < n \<Longrightarrow> kvtree_wf (d i)"
  shows "\<exists>os' v. does n eager red (\<lambda>i. kvtree_read_scatter levels (e i) crc32 i n (os i) prefix (Some (d i)))
      (\<lambda>i. (os' i, KVTREE_SUCCESS, Some (v i))) \<and>
    (\<forall>i < n. kvtree_wf (v i) \<and> kvtree_paths (v i) = kvtree_paths (d i) \<union> kvtree_paths (t i))"
proof -
  let ?st = "starters c 0" and ?H = "\<lambda>k. kvtree_paths (t k)"
  note s = small_jobD [OF job]
  have n30: "n \<le> 2 ^ 30" using s(3) by simp
  have w: "writer ?st i \<le> i" for i using writer_props(1) [of ?st, OF starters_0] by blast
  obtain l where l: "M = Suc l" using M(1) by (cases M) auto
  obtain os1 where os1: "\<And>i. i < n \<Longrightarrow> os_files (os1 i) = os_files (os i) \<and> calm (os_script (os1 i))"
    and down: "does n eager red (\<lambda>i. kvtree_read_scatter_map levels (e i) crc32 i n prefix (os i) (starters c M i) (reader_file prefix M c M i) 0)
      (\<lambda>i. (os1 i, KVTREE_SUCCESS, ?st i, reader_file prefix M c 0 i, 0))"
    using does_scatter_map [where eager = eager and levels = levels and e = e and os = os and l = l, OF red crc job c prefix M(2) stored calm] l M(4)
    by auto
  have stored1: "\<And>i. i < n \<Longrightarrow> stored crc32 prefix n t M (os_files (os1 i))" and calm1: "\<And>i. i < n \<Longrightarrow> calm (os_script (os1 i))"
    using os1 stored by simp_all
  obtain os2 hs where rd: "\<And>i. i < n \<Longrightarrow>
      (if ?st i then Option.bind (reader_file prefix M c 0 i) (\<lambda>f. read_part_file (e i) crc32 n (os1 i) f 0)
       else Some (os1 i, KVTREE_SUCCESS, Some kvtree_new)) = Some (os2 i, KVTREE_SUCCESS, Some (hs i)) \<and>
      kvtree_wf (hs i) \<and> kvtree_paths (hs i) = data_paths n t i"
    using all_read_parts [where e = e and os = os1, OF crc job c stored1 calm1] by blast
  have sends: "kvtree_wf (hs i) \<and> kvtree_paths (hs i) = flow n (\<lambda>_. True) (\<lambda>k. k) (writer ?st) ?H i" if "i < n" for i
    using rd [OF that] by (simp add: data_paths_def c)
  obtain u where u: "does n eager red (\<lambda>i. kvtree_exchange_direction (e i) (os_junk (os2 i)) i n (Some (hs i)) (Some kvtree_new)
        KVTREE_EXCHANGE_RIGHT) (\<lambda>i. (KVTREE_SUCCESS, Some (u i)))"
      "\<And>i. i < n \<Longrightarrow> kvtree_wf (u i) \<and> kvtree_paths (u i) = flow n (\<lambda>_. True) (writer ?st) (\<lambda>k. k) ?H i"
    using does_flow [where eager = eager and red = red and e = e and junk = "\<lambda>i. os_junk (os2 i)" and dir = KVTREE_EXCHANGE_RIGHT,
        OF n30 _ s(4) sends] le_less_trans [OF w] by auto
  have "\<forall>i. \<exists>v. i < n \<longrightarrow> merge_received (Some (d i)) (Some (u i)) = Some v \<and> kvtree_wf v \<and>
      kvtree_paths v = kvtree_paths (d i) \<union> kvtree_paths (t i)"
    using merge_one [OF _ _ d] u(2) by (fastforce simp: flow_own)
  from choice [OF this] obtain v where v: "\<And>i. i < n \<Longrightarrow> merge_received (Some (d i)) (Some (u i)) = Some (v i) \<and> kvtree_wf (v i) \<and>
      kvtree_paths (v i) = kvtree_paths (d i) \<union> kvtree_paths (t i)" by blast
  let ?g = "\<lambda>i. \<lambda>(_, recv).
     seq (kvtree_alltrue True) (\<lambda>all_valid.
       Ret (os2 i, if all_valid = (0 :: int) then KVTREE_FAILURE else KVTREE_SUCCESS, merge_received (Some (d i)) recv))"
  let ?f = "\<lambda>i all_valid. if all_valid = (0 :: int) then Ret (os2 i, KVTREE_FAILURE, Some (d i))
     else seq (kvtree_exchange_direction (e i) (os_junk (os2 i)) i n (Some (hs i)) (Some kvtree_new) KVTREE_EXCHANGE_RIGHT) (?g i)"
  let ?h = "\<lambda>i. \<lambda>(os, map_rc, valid, fname, offset).
     seq (lift (if valid then Option.bind fname (\<lambda>f. read_part_file (e i) crc32 n os f offset)
                else Some (os, KVTREE_SUCCESS, Some kvtree_new))) (\<lambda>(os, read_rc, send).
     let rc = (if map_rc \<noteq> KVTREE_SUCCESS \<or> read_rc \<noteq> KVTREE_SUCCESS then KVTREE_FAILURE else KVTREE_SUCCESS)
     in seq (kvtree_alltrue (rc = KVTREE_SUCCESS)) (\<lambda>all_valid.
        if all_valid = (0 :: int) then Ret (os, KVTREE_FAILURE, Some (d i))
        else
          seq (kvtree_exchange_direction (e i) (os_junk os) i n send (Some kvtree_new) KVTREE_EXCHANGE_RIGHT) (\<lambda>(_, recv).
          let data = merge_received (Some (d i)) recv
          in seq (kvtree_alltrue (rc = KVTREE_SUCCESS)) (\<lambda>all_valid.
             Ret (os, if all_valid = (0 :: int) then KVTREE_FAILURE else rc, data)))))"
  have prog: "kvtree_read_scatter levels (e i) crc32 i n (os i) prefix (Some (d i)) =
      seq (kvtree_read_scatter_map levels (e i) crc32 i n prefix (os i) (starters c M i) (reader_file prefix M c M i) 0) (?h i)" if "i < n" for i
  proof -
    have root: "starters c M i \<longleftrightarrow> i = 0" using root_only [OF M(3) that] starters_0 by blast
    have "snprintf_buf 1024 prefix = prefix" using prefix by (simp add: snprintf_buf_def)
    then show ?thesis unfolding kvtree_read_scatter_def Let_def reader_file_def file_of_def root by simp
  qed
  have mid: "?h i (os1 i, KVTREE_SUCCESS, ?st i, reader_file prefix M c 0 i, 0) = seq (kvtree_alltrue True) (?f i)" if "i < n" for i
    using rd [OF that, THEN conjunct1] by (simp only: prod.case lift_simps seq.simps Let_def simp_thms if_False)
  have "does n eager red (\<lambda>i. Ret (os2 i, if (1 :: int) = 0 then KVTREE_FAILURE else KVTREE_SUCCESS, merge_received (Some (d i)) (Some (u i))))
      (\<lambda>i. (os2 i, KVTREE_SUCCESS, Some (v i)))" using v by (intro does_Ret) simp
  from does_true [where f = "\<lambda>i all_valid. Ret (os2 i, if all_valid = (0 :: int) then KVTREE_FAILURE else KVTREE_SUCCESS,
        merge_received (Some (d i)) (Some (u i)))", OF red s(1) this]
  have "does n eager red (\<lambda>i. ?g i (KVTREE_SUCCESS, Some (u i))) (\<lambda>i. (os2 i, KVTREE_SUCCESS, Some (v i)))" by simp
  from does_seq [where f = ?g, OF u(1) this]
  have "does n eager red (\<lambda>i. ?f i 1) (\<lambda>i. (os2 i, KVTREE_SUCCESS, Some (v i)))" by simp
  from does_true [where f = ?f, OF red s(1) this]
  have "does n eager red (\<lambda>i. ?h i (os1 i, KVTREE_SUCCESS, ?st i, reader_file prefix M c 0 i, 0)) (\<lambda>i. (os2 i, KVTREE_SUCCESS, Some (v i)))"
    by (subst does_cong [OF mid])
  from does_seq [where f = ?h, OF down this]
  have "does n eager red (\<lambda>i. kvtree_read_scatter levels (e i) crc32 i n (os i) prefix (Some (d i))) (\<lambda>i. (os2 i, KVTREE_SUCCESS, Some (v i)))"
    by (subst does_cong [OF prog])
  with v show ?thesis by blast
qed

section \<open>Properties\<close>

text \<open>C15. When all ranks call \<open>kvtree_write_gather\<close> with their data, every run of the job ends, whatever the system
  calls on any rank do, and all ranks return the same value; the value is \<open>KVTREE_SUCCESS\<close> when no system call
  fails. The recursion over the levels of map files ends because every level has fewer writers.\<close>

theorem write_gather_ends:
  assumes "mpi_collectives red" and "crc32_local crc32" and "small_job n t" and "\<And>j. j < n \<Longrightarrow> null \<noteq> int j"
    and "length prefix < 900" and "n \<le> levels"
  shows "\<exists>os' rc. mpi_outcome n eager red (\<lambda>i. kvtree_write_gather levels (e i) crc32 null i n (os i) prefix (Some (t i)))
      (\<lambda>i. (os' i, rc)) \<and>
    ((\<forall>i < n. calm (os_script (os i))) \<longrightarrow> rc = KVTREE_SUCCESS)"
proof -
  have t: "0 < n" "\<And>i. i < n \<Longrightarrow> kvtree_wf (t i)" "(\<Sum>i < n. kvtree_pack_size (Some (t i)) + 300) < 2 ^ 31"
    using assms(3) by (auto simp: small_job_def)
  from does_write_gather [where eager = eager and e = e and os = os, OF assms(1) t(1) assms(4,2,5) t(2,3) assms(6) refl]
  obtain os' rc where "does n eager red (\<lambda>i. kvtree_write_gather levels (e i) crc32 null i n (os i) prefix (Some (t i))) (\<lambda>i. (os' i, rc))"
    "(\<forall>i < n. calm (os_script (os i))) \<longrightarrow> rc = KVTREE_SUCCESS" by blast
  then show ?thesis using does_outcome by blast
qed

text \<open>A job of three ranks.\<close>

definition leaf :: "string \<Rightarrow> kvtree" where
  "leaf k = Kvtree [Kvtree_elem (Some k) None]"

lemma leaf_job: "small_job 3 (\<lambda>_. leaf ''a'')"
  by (simp add: small_job_def leaf_def kvtree_wf.simps lessThan_nat_numeral)

theorem write_gather_ends_witness:
  "\<exists>os' rc. mpi_outcome 3 (\<lambda>_ _ _. False) mpi_red (\<lambda>i. kvtree_write_gather 3 Little_endian crc_ieee (- 2) i 3
      \<lparr>os_files = Map.empty, os_fds = [], os_script = [Complete, Error EIO], os_umask = 0, os_junk = \<lambda>_. 0\<rparr> ''p'' (Some (leaf ''a'')))
      (\<lambda>i. (os' i, rc)) \<and>
    ((\<forall>i < 3 :: nat. calm (os_script \<lparr>os_files = Map.empty, os_fds = [], os_script = [Complete, Error EIO], os_umask = 0,
        os_junk = \<lambda>_. 0\<rparr>)) \<longrightarrow> rc = KVTREE_SUCCESS)"
  by (rule write_gather_ends) (simp_all add: mpi_red_ok crc_ieee_ok leaf_job)

text \<open>C6. What a job writes with \<open>kvtree_write_gather\<close> a job of as many ranks reads back with
  \<open>kvtree_read_scatter\<close>, on hosts of whatever byte order, with whatever buffering and interleaving: when no
  system call fails, every run of both jobs ends with \<open>KVTREE_SUCCESS\<close> on every rank, and the tree of rank
  \<open>i\<close> gains exactly the key paths that rank \<open>i\<close> wrote. The reading ranks see the files as the writing ranks left them.\<close>

theorem parallel_roundtrip:
  assumes "mpi_collectives red" and "crc32_local crc32" and "crc32_range crc32" and "small_job n t"
    and "\<And>j. j < n \<Longrightarrow> null \<noteq> int j" and "length prefix < 900" and "n \<le> levels"
    and "\<And>i. i < n \<Longrightarrow> os_files (os i) = before \<and> calm (os_script (os i))" and "\<And>i. i < n \<Longrightarrow> kvtree_wf (d i)"
  shows "\<exists>os1. mpi_outcome n eager red (\<lambda>i. kvtree_write_gather levels (e i) crc32 null i n (os i) prefix (Some (t i)))
      (\<lambda>i. (os1 i, KVTREE_SUCCESS)) \<and>
    (\<forall>os2. (\<forall>i < n. os_files (os2 i) = settled n before (\<lambda>i. os_files (os1 i)) \<and> calm (os_script (os2 i))) \<longrightarrow>
       (\<exists>os3 v. mpi_outcome n eager' red (\<lambda>i. kvtree_read_scatter levels (e' i) crc32 i n (os2 i) prefix (Some (d i)))
            (\<lambda>i. (os3 i, KVTREE_SUCCESS, Some (v i))) \<and>
          (\<forall>i < n. kvtree_wf (v i) \<and> kvtree_paths (v i) = kvtree_paths (d i) \<union> kvtree_paths (t i))))"
proof -
  let ?c = "\<lambda>k. kvtree_pack_size (Some (t k))"
  have t: "0 < n" "\<And>i. i < n \<Longrightarrow> kvtree_wf (t i)" "(\<Sum>i < n. kvtree_pack_size (Some (t i)) + 300) < 2 ^ 31"
    using assms(4) by (auto simp: small_job_def)
  have n: "n \<le> 2 ^ 31" "n < 2 ^ 31" using small_jobD(3) [OF assms(4)] by simp_all
  from does_write_gather [where eager = eager and e = e and os = os, OF assms(1) t(1) assms(5,2,6) t(2,3) assms(7) refl] assms(8)
  obtain M os1 s T where M: "0 < M" "M \<le> n" "only_root n (starters ?c M)" "\<forall>l. 0 < l \<and> l < M \<longrightarrow> \<not> only_root n (starters ?c l)"
    and wrote: "does n eager red (\<lambda>i. kvtree_write_gather levels (e i) crc32 null i n (os i) prefix (Some (t i))) (\<lambda>i. (os1 i, KVTREE_SUCCESS))"
    and files: "\<forall>i < n. all_written crc32 prefix n t M i (s i) (T i) (os i) (os1 i)" by blast
  have M31: "M < 2 ^ 31" "M \<le> levels" using M(2) n assms(7) by simp_all
  have stored: "stored crc32 prefix n t M (settled n before (\<lambda>i. os_files (os1 i)))"
    using assms(8) by (intro settled_stored [OF files refl M(1,3,4) M31(1) n(1)]) blast
  have "\<exists>os3 v. mpi_outcome n eager' red (\<lambda>i. kvtree_read_scatter levels (e' i) crc32 i n (os2 i) prefix (Some (d i)))
            (\<lambda>i. (os3 i, KVTREE_SUCCESS, Some (v i))) \<and>
          (\<forall>i < n. kvtree_wf (v i) \<and> kvtree_paths (v i) = kvtree_paths (d i) \<union> kvtree_paths (t i))"
    if os2: "\<forall>i < n. os_files (os2 i) = settled n before (\<lambda>i. os_files (os1 i)) \<and> calm (os_script (os2 i))" for os2
  proof -
    have "\<And>i. i < n \<Longrightarrow> stored crc32 prefix n t M (os_files (os2 i))" "\<And>i. i < n \<Longrightarrow> calm (os_script (os2 i))"
      using os2 stored by simp_all
    from does_read_scatter [where eager = eager' and e = e' and os = os2 and d = d,
        OF assms(1-4) refl assms(6) M(1) M31(1) M(3) M31(2) this assms(9)] show ?thesis using does_outcome by blast
  qed
  then show ?thesis using does_outcome [OF wrote] by blast
qed

theorem parallel_roundtrip_witness:
  "\<exists>os1. mpi_outcome 3 (\<lambda>_ _ _. True) mpi_red (\<lambda>i. kvtree_write_gather 3 Little_endian crc_ieee (- 2) i 3
      \<lparr>os_files = Map.empty, os_fds = [], os_script = [Partial 3], os_umask = 0, os_junk = \<lambda>_. 0\<rparr> ''p'' (Some (leaf ''a'')))
      (\<lambda>i. (os1 i, KVTREE_SUCCESS)) \<and>
    (\<exists>os3 v. mpi_outcome 3 (\<lambda>_ _ _. False) mpi_red (\<lambda>i. kvtree_read_scatter 3 Big_endian crc_ieee i 3
        \<lparr>os_files = settled 3 Map.empty (\<lambda>i. os_files (os1 i)), os_fds = [], os_script = [], os_umask = 0, os_junk = \<lambda>_. 0\<rparr> ''p'' (Some (leaf ''b'')))
          (\<lambda>i. (os3 i, KVTREE_SUCCESS, Some (v i))) \<and>
        kvtree_paths (v 2) = kvtree_paths (leaf ''b'') \<union> kvtree_paths (leaf ''a''))"
proof -
  let ?os = "\<lparr>os_files = Map.empty, os_fds = [], os_script = [Partial 3], os_umask = 0, os_junk = \<lambda>_. 0\<rparr>"
  have ok: "\<And>j. j < 3 \<Longrightarrow> (- 2 :: int) \<noteq> int j" "length ''p'' < 900" "(3 :: nat) \<le> 3" "kvtree_wf (leaf ''b'')"
    "os_files ?os = Map.empty \<and> calm (os_script ?os)" by (simp_all add: leaf_def kvtree_wf.simps calm_def)
  from parallel_roundtrip [where n = 3 and os = "\<lambda>_. ?os" and d = "\<lambda>_. leaf ''b''" and eager = "\<lambda>_ _ _. True" and eager' = "\<lambda>_ _ _. False"
      and e = "\<lambda>_. Little_endian" and e' = "\<lambda>_. Big_endian", OF mpi_red_ok crc_ieee_ok leaf_job ok(1,2,3,5,4)]
  obtain os1 where os1: "mpi_outcome 3 (\<lambda>_ _ _. True) mpi_red (\<lambda>i. kvtree_write_gather 3 Little_endian crc_ieee (- 2) i 3 ?os ''p''
      (Some (leaf ''a''))) (\<lambda>i. (os1 i, KVTREE_SUCCESS))"
    and rd: "\<And>os2. \<forall>i < 3. os_files (os2 i) = settled 3 Map.empty (\<lambda>i. os_files (os1 i)) \<and> calm (os_script (os2 i)) \<Longrightarrow>
       (\<exists>os3 v. mpi_outcome 3 (\<lambda>_ _ _. False) mpi_red (\<lambda>i. kvtree_read_scatter 3 Big_endian crc_ieee i 3 (os2 i) ''p'' (Some (leaf ''b'')))
            (\<lambda>i. (os3 i, KVTREE_SUCCESS, Some (v i))) \<and>
          (\<forall>i < 3. kvtree_wf (v i) \<and> kvtree_paths (v i) = kvtree_paths (leaf ''b'') \<union> kvtree_paths (leaf ''a'')))" by blast
  from rd [of "\<lambda>_. \<lparr>os_files = settled 3 Map.empty (\<lambda>i. os_files (os1 i)), os_fds = [], os_script = [], os_umask = 0, os_junk = \<lambda>_. 0\<rparr>"]
  obtain os3 v where "mpi_outcome 3 (\<lambda>_ _ _. False) mpi_red (\<lambda>i. kvtree_read_scatter 3 Big_endian crc_ieee i 3
      \<lparr>os_files = settled 3 Map.empty (\<lambda>i. os_files (os1 i)), os_fds = [], os_script = [], os_umask = 0, os_junk = \<lambda>_. 0\<rparr> ''p'' (Some (leaf ''b'')))
            (\<lambda>i. (os3 i, KVTREE_SUCCESS, Some (v i)))" "kvtree_paths (v 2) = kvtree_paths (leaf ''b'') \<union> kvtree_paths (leaf ''a'')"
    by (auto simp: calm_def)
  with os1 show ?thesis by blast
qed

end
