(* ===== verification/KV_Scatter.thy ===== *)
theory KV_Scatter
  imports KV_Gather
begin

text \<open>
  Gathered files without MPI, the reader (\<open>kvtree_read_scatter_single\<close> of \<open>src/kvtree.c\<close>), which finds the part
  files in the directory, and the round trip with the writer. The directory entries and the regular
  expressions of the C library are parameters: \<open>dirents\<close> gives the names in a directory in the order of
  \<open>readdir\<close> (\<open>None\<close> when it cannot be opened), and \<open>regcomp\<close> the strings that a pattern matches (\<open>None\<close> when it does
  not compile).
\<close>

section \<open>Library functions for paths\<close>

definition strip_slashes :: "string \<Rightarrow> string" where
  "strip_slashes s = rev (dropWhile (\<lambda>c. c = CHR ''/'') (rev s))"

definition basename :: "string \<Rightarrow> string" where
  "basename s =
     (if s = [] then ''.''
      else if strip_slashes s = [] then ''/''
      else rev (takeWhile (\<lambda>c. c \<noteq> CHR ''/'') (rev (strip_slashes s))))"

definition dirname :: "string \<Rightarrow> string" where
  "dirname s =
     (let t = strip_slashes s;
          d = rev (dropWhile (\<lambda>c. c \<noteq> CHR ''/'') (rev t))
      in if t = [] then (if s = [] then ''.'' else ''/'')
         else if d = [] then ''.''
         else if strip_slashes d = [] then ''/''
         else strip_slashes d)"

section \<open>Reading\<close>

text \<open>What a part file adds to the result and to the count of ranks.\<close>

definition scatter_add :: "kvtree option \<Rightarrow> kvtree option \<Rightarrow> u64 \<Rightarrow> kvtree option \<times> u64" where
  "scatter_add subfile_tree final_tree actual_ranks =
     (let (rc, level) = kvtree_util_get_unsigned_long subfile_tree (Some ''LEVEL'')
      in if rc = KVTREE_SUCCESS \<and> level = Some 0 then
           (let (subfile_rank_tree, subfile_tree) = kvtree_extract subfile_tree (Some ''RANK'')
            in if subfile_rank_tree \<noteq> None then
                 (let (rc, final_tree) = kvtree_merge final_tree subfile_rank_tree
                  in (final_tree,
                      if rc = KVTREE_SUCCESS then actual_ranks + word_of_int (kvtree_size subfile_rank_tree)
                      else actual_ranks))
               else (final_tree, actual_ranks))
         else (final_tree, actual_ranks))"

fun scatter_loop ::
  "endian \<Rightarrow> crc \<Rightarrow> (string \<Rightarrow> bool) \<Rightarrow> string \<Rightarrow> os \<Rightarrow> string list \<Rightarrow> kvtree option \<Rightarrow> u64 \<Rightarrow>
     (os \<times> kvtree option \<times> u64) option" where
  "scatter_loop e crc32 re prefix_dir os [] final_tree actual_ranks = Some (os, final_tree, actual_ranks)"
| "scatter_loop e crc32 re prefix_dir os (d_name # names) final_tree actual_ranks =
     (if re d_name then
        do {
          (os1, rc, subfile_tree) \<leftarrow>
            kvtree_read_file e crc32 os (Some (snprintf_buf 4096 (prefix_dir @ ''/'' @ d_name))) (Some kvtree_new);
          let (final_tree, actual_ranks) =
            (if rc = KVTREE_SUCCESS then scatter_add subfile_tree final_tree actual_ranks
             else (final_tree, actual_ranks));
          scatter_loop e crc32 re prefix_dir os1 names final_tree actual_ranks
        }
      else scatter_loop e crc32 re prefix_dir os names final_tree actual_ranks)"

definition part_pattern :: "string \<Rightarrow> string" where
  "part_pattern prefix_file =
     snprintf_buf 4096 (''^'' @ prefix_file @ [CHR 0x5C] @ ''.0'' @ [CHR 0x5C] @ ''.[0-9]+$'')"

definition kvtree_read_scatter_single ::
  "endian \<Rightarrow> crc \<Rightarrow> (string \<Rightarrow> (string \<Rightarrow> bool) option) \<Rightarrow> (os \<Rightarrow> string \<Rightarrow> string list option) \<Rightarrow> os \<Rightarrow> string \<Rightarrow>
     kvtree option \<Rightarrow> (os \<times> int \<times> kvtree option) option" where
  "kvtree_read_scatter_single e crc32 regcomp dirents os prefix data =
     do {
       (os1, rc, final_tree) \<leftarrow> kvtree_read_file e crc32 os (Some prefix) (Some kvtree_new);
       if rc \<noteq> KVTREE_SUCCESS then Some (os1, rc, data)
       else
         (let (rc, expected_ranks) = kvtree_util_get_unsigned_long final_tree (Some ''RANKS'')
          in if rc \<noteq> KVTREE_SUCCESS then Some (os1, rc, data)
             else
               (case regcomp (part_pattern (basename prefix)) of
                  None \<Rightarrow> Some (os1, KVTREE_FAILURE, data)
                | Some re \<Rightarrow>
                    (case dirents os1 (dirname prefix) of
                       None \<Rightarrow> Some (os1, KVTREE_FAILURE, data)
                     | Some names \<Rightarrow>
                         do {
                           (os2, final_tree, actual_ranks) \<leftarrow>
                             scatter_loop e crc32 re (dirname prefix) os1 names (Some kvtree_new) 0;
                           let data = snd (kvtree_merge data final_tree);
                           Some (os2, if Some actual_ranks \<noteq> expected_ranks then KVTREE_FAILURE else KVTREE_SUCCESS, data)
                         })))
     }"

section \<open>Reading a part\<close>

lemma chunk_keys:
  "rank_keys n es \<Longrightarrow> distinct (map elem_key es) \<Longrightarrow> card {k. [k] \<in> (\<Union>x \<in> set es. elem_paths x)} = length es"
  by (rule card_keys) (auto simp: rank_keys_def)

lemma scatter_add_part:
  assumes t: "kvtree_wf t" "kvtree_paths t = part_head ranks \<union> under_RANK es"
    and es: "rank_keys n es" "distinct (map elem_key es)" "es \<noteq> []" and f: "kvtree_wf f"
  obtains u where "scatter_add (Some t) (Some f) a = (Some u, a + word_of_nat (length es))" and "kvtree_wf u"
    and "kvtree_paths u = kvtree_paths f \<union> (\<Union>x \<in> set es. elem_paths x)"
proof -
  have "kvtree_get_val (Some t) (Some ''LEVEL'') = Some ''0''"
    by (rule single_value [OF t(1)]) (auto simp: t(2) part_head_def under_RANK_def split: if_splits)
  then have level: "kvtree_util_get_unsigned_long (Some t) (Some ''LEVEL'') = (KVTREE_SUCCESS, Some 0)"
    using strtoul_signed [of 0] by (simp add: kvtree_util_get_unsigned_long_def)
  obtain x where x: "x \<in> set es" using es(3) by (cases es) auto
  then obtain d where d: "elem_key x = Some (rank_key d)" using es(1) by (auto simp: rank_keys_def)
  have "[''RANK'', rank_key d] \<in> kvtree_paths t"
    using x elem_paths_key [OF d] Nil_in_paths(2) by (auto simp: t(2) under_RANK_def)
  from get_child [OF t(1) this] obtain r where r: "kvtree_get (Some t) (Some ''RANK'') = Some r" "kvtree_wf r"
    "kvtree_paths r = {p. ''RANK'' # p \<in> kvtree_paths t}" .
  have rp: "kvtree_paths r = insert [] (\<Union>x \<in> set es. elem_paths x)"
    using es(3) by (auto simp: r(3) t(2) part_head_def under_RANK_def)
  have "length (elems r) = length es"
    using size_keys [OF r(2)] chunk_keys [OF es(1,2)] by (simp add: rp)
  moreover obtain u where u: "kvtree_merge (Some f) (Some r) = (KVTREE_SUCCESS, Some u)" "kvtree_wf u"
    "kvtree_paths u = kvtree_paths f \<union> kvtree_paths r"
    using merge_eq [OF f, of "Some r"] r(2) by auto
  moreover have "fst (kvtree_extract (Some t) (Some ''RANK'')) = Some r"
    using r(1) by (simp add: kvtree_extract_eq kvtree_get_eq)
  ultimately have "scatter_add (Some t) (Some f) a = (Some u, a + word_of_nat (length es))"
    by (simp add: scatter_add_def level case_prod_beta)
  moreover have "kvtree_paths u = kvtree_paths f \<union> (\<Union>x \<in> set es. elem_paths x)"
    using Nil_in_paths(1) [of f] by (auto simp: u(3) rp)
  ultimately show thesis using that u(2) by blast
qed

section \<open>Reading the parts\<close>

text \<open>The listing names part files whose entries are \<open>C\<close>.\<close>

definition parts_listed :: "crc \<Rightarrow> string \<Rightarrow> int \<Rightarrow> (string \<Rightarrow> bool) \<Rightarrow> (string \<Rightarrow> kvtree_elem list) \<Rightarrow> string list \<Rightarrow> os \<Rightarrow> bool" where
  "parts_listed crc32 dir ranks re C names os \<longleftrightarrow>
     (\<forall>nm \<in> set names. re nm \<longrightarrow> length (dir @ ''/'' @ nm) < 4096 \<and> C nm \<noteq> [] \<and>
        rank_keys (2 ^ 31) (C nm) \<and> distinct (map elem_key (C nm)) \<and>
        (\<exists>t. part_of ranks (C nm) t \<and> kvtree_pack_size (Some t) < 2 ^ 32 \<and>
             os_files os (dir @ ''/'' @ nm) = Some (file_image crc32 t)))"

lemma read_tree:
  assumes "crc32_local crc32" and "crc32_range crc32" and "calm (os_script os)"
    and "kvtree_wf t" and "kvtree_pack_size (Some t) < 2 ^ 32" and "os_files os f = Some (file_image crc32 t)"
  obtains os' u where "kvtree_read_file e crc32 os (Some f) (Some kvtree_new) = Some (os', KVTREE_SUCCESS, Some u)"
    and "os_files os' = os_files os" and "calm (os_script os')" and "kvtree_wf u" and "kvtree_paths u = kvtree_paths t"
proof -
  have size: "kvtree_persist_size (Some t) < 2 ^ 63" using assms(5) by (simp add: kvtree_persist_size_def file_consts)
  obtain u where u: "kvtree_merge (Some kvtree_new) (Some (unpacked t)) = (KVTREE_SUCCESS, Some u)" "kvtree_wf u"
    "kvtree_paths u = kvtree_paths t"
    using merge_eq [of kvtree_new "Some (unpacked t)"] assms(4)
    by (auto simp: kvtree_wf_unpacked kvtree_paths_unpacked insert_absorb)
  have "os_files os f = Some (file_image crc32 t @ [])" using assms(6) by simp
  from kvtree_read_file_spec [OF assms(1,2) wf_packable [OF assms(4,5)] size this, of e kvtree_new] assms(3) u that
  show thesis by auto
qed

lemma scatter_loop_spec:
  assumes crc: "crc32_local crc32" "crc32_range crc32"
    and "parts_listed crc32 dir ranks re C names os" and "calm (os_script os)" and "kvtree_wf f"
  shows "\<exists>os' u. scatter_loop e crc32 re dir os names (Some f) a =
      Some (os', Some u, a + word_of_nat (\<Sum>nm\<leftarrow>filter re names. length (C nm))) \<and> kvtree_wf u \<and>
    kvtree_paths u = kvtree_paths f \<union> (\<Union>nm \<in> set (filter re names). \<Union>x \<in> set (C nm). elem_paths x)"
  using assms(3-5)
proof (induction names arbitrary: os f a)
  case (Cons nm names)
  have rest: "parts_listed crc32 dir ranks re C names os" using Cons.prems(1) by (simp add: parts_listed_def)
  show ?case
  proof (cases "re nm")
    case False
    then show ?thesis using Cons.IH [OF rest Cons.prems(2,3)] by simp
  next
    case True
    let ?f = "dir @ ''/'' @ nm"
    from Cons.prems(1) True obtain t where t: "part_of ranks (C nm) t" "kvtree_pack_size (Some t) < 2 ^ 32"
      "os_files os ?f = Some (file_image crc32 t)" and len: "length ?f < 4096" and ne: "C nm \<noteq> []"
      and keys: "rank_keys (2 ^ 31) (C nm)" "distinct (map elem_key (C nm))"
      by (auto simp: parts_listed_def)
    obtain os1 v where v: "kvtree_read_file e crc32 os (Some ?f) (Some kvtree_new) = Some (os1, KVTREE_SUCCESS, Some v)"
      "os_files os1 = os_files os" "calm (os_script os1)" "kvtree_wf v" "kvtree_paths v = part_head ranks \<union> under_RANK (C nm)"
      using read_tree [OF crc Cons.prems(2) _ t(2,3), of e] t(1) by (auto simp: part_of_def)
    obtain g where g: "scatter_add (Some v) (Some f) a = (Some g, a + word_of_nat (length (C nm)))" "kvtree_wf g"
      "kvtree_paths g = kvtree_paths f \<union> (\<Union>x \<in> set (C nm). elem_paths x)"
      by (rule scatter_add_part [OF v(4,5) keys ne Cons.prems(3)])
    have "parts_listed crc32 dir ranks re C names os1" using rest v(2) by (simp add: parts_listed_def)
    from Cons.IH [OF this v(3) g(2), of "a + word_of_nat (length (C nm))"] obtain os' u where
      "scatter_loop e crc32 re dir os1 names (Some g) (a + word_of_nat (length (C nm))) =
        Some (os', Some u, a + word_of_nat (length (C nm)) + word_of_nat (\<Sum>nm\<leftarrow>filter re names. length (C nm)))"
      "kvtree_wf u" and paths: "kvtree_paths u = kvtree_paths g \<union> (\<Union>nm \<in> set (filter re names). \<Union>x \<in> set (C nm). elem_paths x)"
      by blast
    moreover have "snprintf_buf 4096 ?f = ?f" using len by (simp add: snprintf_buf_def)
    moreover have "kvtree_paths u = kvtree_paths f \<union> (\<Union>nm \<in> set (filter re (nm # names)). \<Union>x \<in> set (C nm). elem_paths x)"
      unfolding paths g(3) using True by (simp add: Un_assoc)
    ultimately show ?thesis using True v(1) g(1) by (simp add: add.assoc)
  qed
qed simp

section \<open>The parts cover the data\<close>

lemma chunks_concat: "concat (map (\<lambda>j. take m (drop (j * m) es)) [0..<k]) = take (k * m) es"
proof (induction k)
  case (Suc k)
  have "Suc k * m = k * m + m" by simp
  then show ?case using Suc by (simp only: take_add [of "k * m" m es]) simp
qed simp

lemma chunks_cover:
  assumes "0 < m"
  shows "(\<Sum>j \<in> {j. j * m < length es}. length (take m (drop (j * m) es))) = length es"
    and "(\<Union>j \<in> {j. j * m < length es}. set (take m (drop (j * m) es))) = set es"
    and "finite {j. j * m < length es}"
proof -
  let ?J = "{j. j * m < length es}" and ?c = "\<lambda>j. take m (drop (j * m) es)"
  have sub: "?J \<subseteq> {..<length es}"
  proof
    fix j assume "j \<in> ?J"
    then have "j * m < length es" by simp
    moreover have "j \<le> j * m" using assms by simp
    ultimately have "j < length es" by (rule le_less_trans [rotated])
    then show "j \<in> {..<length es}" by simp
  qed
  then show "finite ?J" by (rule finite_subset) simp
  have all: "concat (map ?c [0..<length es]) = es" using assms by (simp add: chunks_concat)
  have empty: "?c j = []" if "j \<notin> ?J" for j using that by simp
  have "(\<Sum>j \<in> ?J. length (?c j)) = (\<Sum>j \<in> {..<length es}. length (?c j))"
    using sub empty by (intro sum.mono_neutral_left) auto
  also have "\<dots> = length (concat (map ?c [0..<length es]))"
    by (simp add: length_concat comp_def interv_sum_list_conv_sum_set_nat atLeast0LessThan)
  finally show "(\<Sum>j \<in> ?J. length (?c j)) = length es" unfolding all .
  have "(\<Union>j \<in> ?J. set (?c j)) = (\<Union>j \<in> {..<length es}. set (?c j))" using sub empty by fastforce
  also have "\<dots> = set (concat (map ?c [0..<length es]))" by (simp add: atLeast0LessThan)
  finally show "(\<Union>j \<in> ?J. set (?c j)) = set es" unfolding all .
qed

section \<open>Reading back what was written\<close>

lemma dropWhile_id: "xs = [] \<or> \<not> P (hd xs) \<Longrightarrow> dropWhile P xs = xs"
  by (cases xs) auto

lemma path_split:
  assumes "dir \<noteq> []" and "last dir \<noteq> CHR ''/''" and "base \<noteq> []" and "CHR ''/'' \<notin> set base"
  shows "basename (dir @ ''/'' @ base) = base" and "dirname (dir @ ''/'' @ base) = dir"
proof -
  have "hd (rev base) \<in> set (rev base)" using assms(3) by (intro hd_in_set) simp
  then have hd: "hd (rev base @ xs) \<noteq> CHR ''/''" for xs using assms(3,4) by (auto simp: hd_append)
  have strip: "strip_slashes (dir @ ''/'' @ base) = dir @ ''/'' @ base" "strip_slashes dir = dir"
    using hd [of "CHR ''/'' # rev dir"] assms(1,2) by (simp_all add: strip_slashes_def dropWhile_id hd_rev)
  have sep: "takeWhile (\<lambda>c. c \<noteq> CHR ''/'') (rev base @ CHR ''/'' # xs) = rev base"
    "dropWhile (\<lambda>c. c \<noteq> CHR ''/'') (rev base @ CHR ''/'' # xs) = CHR ''/'' # xs" for xs
    using assms(4) by (auto simp: takeWhile_append dropWhile_append)
  show "basename (dir @ ''/'' @ base) = base" using strip(1) sep(1) by (simp add: basename_def)
  have "strip_slashes (dir @ ''/'') = dir" using strip(2) by (simp add: strip_slashes_def)
  then show "dirname (dir @ ''/'' @ base) = dir" using strip(1) sep(2) assms(1) by (simp add: dirname_def)
qed

text \<open>The names that the pattern of the code means: the base name, \<open>.0.\<close> and digits.\<close>

definition is_part :: "string \<Rightarrow> string \<Rightarrow> bool" where
  "is_part base nm \<longleftrightarrow> (let n = length base + 3
     in take n nm = base @ ''.0.'' \<and> drop n nm \<noteq> [] \<and> list_all (is_digit_of 10) (drop n nm))"

text \<open>What is assumed of the C library: a pattern with this base name compiles to that meaning, and
  \<open>readdir\<close> lists each file of the directory once.\<close>

definition matches_parts :: "(string \<Rightarrow> (string \<Rightarrow> bool) option) \<Rightarrow> string \<Rightarrow> bool" where
  "matches_parts regcomp base \<longleftrightarrow> (\<exists>re. regcomp (part_pattern base) = Some re \<and> (\<forall>nm. re nm \<longleftrightarrow> is_part base nm))"

definition lists_directory :: "(os \<Rightarrow> string \<Rightarrow> string list option) \<Rightarrow> string \<Rightarrow> string set \<Rightarrow> bool" where
  "lists_directory dirents dir files \<longleftrightarrow>
     (\<forall>os. dom (os_files os) \<subseteq> files \<longrightarrow> (\<exists>names. dirents os dir = Some names \<and> distinct names \<and>
        (\<forall>nm. nm \<notin> {''.'', ''..''} \<and> CHR ''/'' \<notin> set nm \<longrightarrow> (nm \<in> set names \<longleftrightarrow> os_files os (dir @ ''/'' @ nm) \<noteq> None))))"

lemma part_file_under: "part_file (dir @ ''/'' @ base) w = dir @ ''/'' @ part_file base w"
  by (simp add: part_file_def)

lemma part_is_part: "0 \<le> i \<Longrightarrow> is_part base (part_file base i)"
  using nat_digits_digit [of 10 _ "nat i"] by (auto simp: is_part_def part_file_def fmt_signed_def list_all_iff)

lemma part_entry:
  assumes "is_part base nm" and "CHR ''/'' \<notin> set base"
  shows "nm \<notin> {''.'', ''..''} \<and> CHR ''/'' \<notin> set nm"
proof -
  let ?n = "length base + 3"
  have nm: "take ?n nm = base @ ''.0.''" "drop ?n nm \<noteq> []" "list_all (is_digit_of 10) (drop ?n nm)"
    using assms(1) by (simp_all add: is_part_def Let_def)
  have "\<not> is_digit_of 10 (CHR ''/'')" by code_simp
  then have "CHR ''/'' \<notin> set (drop ?n nm)" using nm(3) by (auto simp: list_all_iff)
  then have "CHR ''/'' \<notin> set (take ?n nm @ drop ?n nm)" using nm(1) assms(2) by simp
  moreover have "3 < length nm" using nm(2) by simp
  ultimately show ?thesis by auto
qed

text \<open>The entries of the part with a given name.\<close>

definition chunk_at :: "nat \<Rightarrow> string \<Rightarrow> kvtree_elem list \<Rightarrow> string \<Rightarrow> kvtree_elem list" where
  "chunk_at m base es nm = take m (drop (nat (atoi (drop (length base + 3) nm))) es)"

lemma chunk_part: "k < 2 ^ 31 \<Longrightarrow> chunk_at m base es (part_file base (int k)) = take m (drop k es)"
  using atoi_key [of k] by (simp add: chunk_at_def part_file_def rank_key_def)

lemma listed_parts:
  assumes "gathered crc32 (dir @ ''/'' @ base) ranks m es os0 os" and base: "CHR ''/'' \<notin> set base"
    and fresh: "\<forall>nm. is_part base nm \<and> os_files os0 (dir @ ''/'' @ nm) \<noteq> None \<longrightarrow>
      (\<exists>j. j * m < length es \<and> nm = part_file base (int (j * m)))"
    and names: "\<forall>nm. nm \<notin> {''.'', ''..''} \<and> CHR ''/'' \<notin> set nm \<longrightarrow> (nm \<in> set names \<longleftrightarrow> os_files os (dir @ ''/'' @ nm) \<noteq> None)"
  shows "set (filter (is_part base) names) = (\<lambda>j. part_file base (int (j * m))) ` {j. j * m < length es}"
proof -
  let ?f = "\<lambda>nm. dir @ ''/'' @ nm"
  obtain T mp osm where g: "parts_written crc32 (?f base) ranks m 0 es os0 osm T"
    "os_files os = (os_files osm)(?f base \<mapsto> file_image crc32 mp)" using assms(1) by (auto simp: gathered_def)
  have "nm \<in> set names \<longleftrightarrow> (\<exists>j. j * m < length es \<and> nm = part_file base (int (j * m)))" if nm: "is_part base nm" for nm
  proof -
    have "nm \<noteq> base" using nm by (auto simp: is_part_def Let_def)
    then have "os_files os (?f nm) = os_files osm (?f nm)" by (simp add: g(2))
    moreover have "os_files osm (?f nm) \<noteq> None \<longleftrightarrow> (\<exists>j. j * m < length es \<and> nm = part_file base (int (j * m)))"
    proof (cases "\<exists>j. j * m < length es \<and> nm = part_file base (int (j * m))")
      case True
      then show ?thesis using g(1) unfolding parts_written_def part_file_under by auto
    next
      case False
      then have "os_files osm (?f nm) = os_files os0 (?f nm)" using g(1) unfolding parts_written_def part_file_under by auto
      then show ?thesis using False fresh nm by auto
    qed
    ultimately show ?thesis using names part_entry [OF nm base] by simp
  qed
  moreover have "is_part base (part_file base (int (j * m)))" for j by (rule part_is_part) simp
  ultimately show ?thesis by auto
qed

lemma parts_listed_gathered:
  assumes g: "gathered crc32 (dir @ ''/'' @ base) ranks m es os0 os"
    and listed: "set (filter re names) = (\<lambda>j. part_file base (int (j * m))) ` {j. j * m < length es}"
    and m: "0 < m" and es: "rank_keys (2 ^ 31) es" "distinct (map elem_key es)" "length es < 2 ^ 31"
    and cost: "(\<Sum>p \<in> (\<Union>x \<in> set es. elem_paths x). path_cost p) < 2 ^ 31" and ranks: "is_int64 ranks"
    and len: "length (dir @ ''/'' @ base) < 1000"
  shows "parts_listed crc32 dir ranks re (chunk_at m base es) names os"
  unfolding parts_listed_def
proof (intro ballI impI)
  fix nm assume "nm \<in> set names" and "re nm"
  then have "nm \<in> set (filter re names)" by simp
  then obtain j where j: "j * m < length es" "nm = part_file base (int (j * m))" unfolding listed by blast
  let ?es = "take m (drop (j * m) es)"
  have C: "chunk_at m base es nm = ?es" unfolding j(2) using j(1) es(3) by (intro chunk_part) simp
  have sub: "set ?es \<subseteq> set es" by (meson set_drop_subset set_take_subset subset_trans)
  have keys: "rank_keys (2 ^ 31) ?es" by (rule rank_keys_sub [OF es(1) sub])
  obtain T mp osm where g: "parts_written crc32 (dir @ ''/'' @ base) ranks m 0 es os0 osm T"
    "os_files os = (os_files osm)(dir @ ''/'' @ base \<mapsto> file_image crc32 mp)" using g by (auto simp: gathered_def)
  have T: "part_of ranks ?es (T j)" "os_files osm (part_file (dir @ ''/'' @ base) (int (j * m))) = Some (file_image crc32 (T j))"
    using g(1) j(1) by (simp_all add: parts_written_def)
  have "nm \<noteq> base" by (simp add: j(2) part_file_def)
  then have content: "os_files os (dir @ ''/'' @ nm) = Some (file_image crc32 (T j))"
    using T(2) unfolding part_file_under j(2) [symmetric] g(2) by simp
  have size: "kvtree_pack_size (Some (T j)) < 2 ^ 32"
    using part_size [OF T(1) keys ranks] elems_cost_mono [OF es(1) sub] cost by simp
  have "is_int64 (int (j * m))" using j(1) es(3) by (intro int32_int64 rank_int32) simp
  then have "length (dir @ ''/'' @ nm) < 4096" using len length_signed [of "int (j * m)"] by (simp add: j(2) part_file_def)
  moreover have "?es \<noteq> []" using j(1) m by simp
  moreover have "distinct (map elem_key ?es)" using es(2) by (simp add: take_map [symmetric] drop_map [symmetric])
  ultimately show "length (dir @ ''/'' @ nm) < 4096 \<and> chunk_at m base es nm \<noteq> [] \<and>
      rank_keys (2 ^ 31) (chunk_at m base es nm) \<and> distinct (map elem_key (chunk_at m base es nm)) \<and>
      (\<exists>t. part_of ranks (chunk_at m base es nm) t \<and> kvtree_pack_size (Some t) < 2 ^ 32 \<and>
           os_files os (dir @ ''/'' @ nm) = Some (file_image crc32 t))"
    unfolding C using keys T(1) size content by blast
qed

lemma listed_total:
  assumes "distinct names" and listed: "set (filter re names) = (\<lambda>j. part_file base (int (j * m))) ` {j. j * m < length es}"
    and m: "0 < m" and len: "length es < 2 ^ 31"
  shows "(\<Sum>nm\<leftarrow>filter re names. length (chunk_at m base es nm)) = length es"
    and "(\<Union>nm \<in> set (filter re names). \<Union>x \<in> set (chunk_at m base es nm). elem_paths x) = (\<Union>x \<in> set es. elem_paths x)"
proof -
  let ?J = "{j. j * m < length es}" and ?n = "\<lambda>j. part_file base (int (j * m))"
  have C: "chunk_at m base es (?n j) = take m (drop (j * m) es)" if "j \<in> ?J" for j
    using that len by (intro chunk_part) simp
  have inj: "inj_on ?n ?J"
  proof (rule inj_onI)
    fix i j assume ij: "i \<in> ?J" "j \<in> ?J" "?n i = ?n j"
    then have "is_int32 (int (i * m))" "is_int32 (int (j * m))" using len by (intro rank_int32; simp)+
    with ij(3) have "int (i * m) = int (j * m)" using part_file_inj by blast
    then show "i = j" using m by simp
  qed
  have "(\<Sum>nm\<leftarrow>filter re names. length (chunk_at m base es nm)) = (\<Sum>nm \<in> set (filter re names). length (chunk_at m base es nm))"
    using assms(1) by (intro sum_list_distinct_conv_sum_set) simp
  also have "\<dots> = (\<Sum>j \<in> ?J. length (take m (drop (j * m) es)))"
    unfolding listed by (subst sum.reindex [OF inj], rule sum.cong) (simp_all only: C comp_def)
  finally show "(\<Sum>nm\<leftarrow>filter re names. length (chunk_at m base es nm)) = length es" unfolding chunks_cover(1) [OF m] .
  have "(\<Union>nm \<in> set (filter re names). set (chunk_at m base es nm)) = (\<Union>j \<in> ?J. set (take m (drop (j * m) es)))"
    unfolding listed using C by simp
  then have "(\<Union>nm \<in> set (filter re names). set (chunk_at m base es nm)) = set es" unfolding chunks_cover(2) [OF m] .
  then show "(\<Union>nm \<in> set (filter re names). \<Union>x \<in> set (chunk_at m base es nm). elem_paths x) = (\<Union>x \<in> set es. elem_paths x)"
    by (simp flip: UN_UN_flatten)
qed

lemma gathered_files:
  assumes "gathered crc32 prefix ranks m es os0 os"
  shows "dom (os_files os) \<subseteq> dom (os_files os0) \<union> {prefix} \<union> {part_file prefix (int (j * m)) |j. j * m < length es}"
    and "\<exists>mp. map_for ranks mp \<and> os_files os prefix = Some (file_image crc32 mp)"
proof -
  obtain T mp osm where g: "parts_written crc32 prefix ranks m 0 es os0 osm T" "map_for ranks mp"
    "os_files os = (os_files osm)(prefix \<mapsto> file_image crc32 mp)" using assms by (auto simp: gathered_def)
  then show "\<exists>mp. map_for ranks mp \<and> os_files os prefix = Some (file_image crc32 mp)" by auto
  have "os_files osm f = os_files os0 f" if "f \<notin> {part_file prefix (int (j * m)) |j. j * m < length es}" for f
    using g(1) that unfolding parts_written_def add_0 by blast
  then show "dom (os_files os) \<subseteq> dom (os_files os0) \<union> {prefix} \<union> {part_file prefix (int (j * m)) |j. j * m < length es}"
    unfolding g(3) by (fastforce simp: dom_def)
qed

lemma read_map:
  assumes "map_for ranks mp" and "kvtree_wf u" and "kvtree_paths u = kvtree_paths mp" and "0 \<le> ranks" and "ranks < 2 ^ 63"
  shows "kvtree_util_get_unsigned_long (Some u) (Some ''RANKS'') = (KVTREE_SUCCESS, Some (word_of_int ranks))"
proof -
  have "{q. ''RANKS'' # q \<in> kvtree_paths u} = {[], [fmt_signed ranks]}" using assms(1,3) by (simp add: map_for_def)
  then have "kvtree_get_val (Some u) (Some ''RANKS'') = Some (fmt_signed ranks)"
    by (intro single_value [OF assms(2)]) auto
  then show ?thesis using strtoul_signed [OF assms(4,5)] by (simp add: kvtree_util_get_unsigned_long_def)
qed

lemma read_scatter_gathered:
  assumes crc: "crc32_local crc32" "crc32_range crc32" and calm: "calm (os_script os)"
    and g: "gathered crc32 (dir @ ''/'' @ base) (int (length es)) m es os0 os"
    and dir: "dir \<noteq> []" "last dir \<noteq> CHR ''/''" and base: "base \<noteq> []" "CHR ''/'' \<notin> set base"
    and len: "length (dir @ ''/'' @ base) < 1000"
    and fresh: "\<forall>nm. is_part base nm \<and> os_files os0 (dir @ ''/'' @ nm) \<noteq> None \<longrightarrow>
      (\<exists>j. j * m < length es \<and> nm = part_file base (int (j * m)))"
    and libc: "matches_parts regcomp base"
      "lists_directory dirents dir (dom (os_files os0) \<union> {dir @ ''/'' @ base} \<union>
         {part_file (dir @ ''/'' @ base) (int (j * m)) |j. j * m < length es})"
    and m: "0 < m" and es: "rank_keys (2 ^ 31) es" "distinct (map elem_key es)" "length es < 2 ^ 31"
    and cost: "(\<Sum>p \<in> (\<Union>x \<in> set es. elem_paths x). path_cost p) < 2 ^ 31" and d: "kvtree_wf d"
  shows "\<exists>os' v. kvtree_read_scatter_single e crc32 regcomp dirents os (dir @ ''/'' @ base) (Some d) =
      Some (os', KVTREE_SUCCESS, Some v) \<and> kvtree_wf v \<and>
    kvtree_paths v = kvtree_paths d \<union> (\<Union>x \<in> set es. elem_paths x)"
proof -
  let ?p = "dir @ ''/'' @ base" and ?n = "int (length es)"
  note path = path_split [OF dir base]
  have n: "is_int64 ?n" "0 \<le> ?n" "?n < 2 ^ 63" using es(3) by (simp_all add: int32_int64 rank_int32)
  from gathered_files(2) [OF g] obtain mp where mp: "map_for ?n mp" "os_files os ?p = Some (file_image crc32 mp)" by blast
  then obtain os1 u where u: "kvtree_read_file e crc32 os (Some ?p) (Some kvtree_new) = Some (os1, KVTREE_SUCCESS, Some u)"
    "os_files os1 = os_files os" "calm (os_script os1)" "kvtree_wf u" "kvtree_paths u = kvtree_paths mp"
    using read_tree [OF crc calm, of mp ?p e] by (auto simp: map_for_def)
  note count = read_map [OF mp(1) u(4,5) n(2,3)]
  obtain re where re: "regcomp (part_pattern base) = Some re" "re = is_part base" using libc(1) by (auto simp: matches_parts_def fun_eq_iff)
  obtain names where names: "dirents os1 dir = Some names" "distinct names"
    "\<forall>nm. nm \<notin> {''.'', ''..''} \<and> CHR ''/'' \<notin> set nm \<longrightarrow> (nm \<in> set names \<longleftrightarrow> os_files os1 (dir @ ''/'' @ nm) \<noteq> None)"
  proof -
    have "dom (os_files os1) \<subseteq> dom (os_files os0) \<union> {?p} \<union> {part_file ?p (int (j * m)) |j. j * m < length es}"
      unfolding u(2) by (rule gathered_files(1) [OF g])
    from HOL.mp [OF spec [OF libc(2) [unfolded lists_directory_def]] this] that show thesis by (elim exE conjE)
  qed
  have listed: "set (filter re names) = (\<lambda>j. part_file base (int (j * m))) ` {j. j * m < length es}"
    using listed_parts [OF g base(2) fresh] names(3) unfolding u(2) re(2) by blast
  have "parts_listed crc32 dir ?n re (chunk_at m base es) names os1"
    using parts_listed_gathered [OF g listed m es cost n(1) len] by (simp add: parts_listed_def u(2))
  from scatter_loop_spec [OF crc this u(3), of kvtree_new e 0] obtain os2 f where
    f: "scatter_loop e crc32 re dir os1 names (Some kvtree_new) 0 = Some (os2, Some f, word_of_nat (length es))" "kvtree_wf f"
      "kvtree_paths f = kvtree_paths kvtree_new \<union> (\<Union>x \<in> set es. elem_paths x)"
    unfolding listed_total [OF names(2) listed m es(3)] by auto
  obtain v where v: "kvtree_merge (Some d) (Some f) = (KVTREE_SUCCESS, Some v)" "kvtree_wf v"
    "kvtree_paths v = kvtree_paths d \<union> kvtree_paths f"
    using merge_eq [OF d, of "Some f"] f(2) by auto
  have "kvtree_paths v = kvtree_paths d \<union> (\<Union>x \<in> set es. elem_paths x)"
    using v(3) Nil_in_paths(1) [of d] by (auto simp: f(3))
  moreover have "kvtree_read_scatter_single e crc32 regcomp dirents os ?p (Some d) = Some (os2, KVTREE_SUCCESS, Some v)"
    unfolding kvtree_read_scatter_single_def path
    by (simp add: u(1) [simplified] count re(1) names(1) f(1) v(1))
  ultimately show ?thesis using v(2) by blast
qed

text \<open>C14. The data of all ranks, written with \<open>kvtree_write_to_gather\<close> and read back with
  \<open>kvtree_read_scatter_single\<close>, on hosts of whatever byte order: when no system call fails, both calls return
  \<open>KVTREE_SUCCESS\<close>, and the reader's tree gains exactly the key paths of the data, for every positive number of
  entries per file. This needs that every part file of that name left in the directory by an earlier write is
  one that the writer overwrites (the reader would read the others too), that the base name is taken literally by the regular expression, and that the directory
  lists each file once.\<close>

theorem gather_roundtrip:
  assumes "crc32_local crc32" and "crc32_range crc32" and "calm (os_script os)"
    and "indexed_by_ranks (2 ^ 31) t" and "kvtree_pack_size (Some t) < 2 ^ 27" and "kvtree_wf d"
    and "0 < (case env of None \<Rightarrow> 8192 | Some s \<Rightarrow> atol s)" and m: "m = nat (case env of None \<Rightarrow> 8192 | Some s \<Rightarrow> atol s)"
    and "dir \<noteq> []" and "last dir \<noteq> CHR ''/''" and "base \<noteq> []" and "CHR ''/'' \<notin> set base"
    and prefix: "prefix = dir @ ''/'' @ base" and "length prefix < 1000"
    and "\<forall>nm. is_part base nm \<and> os_files os (dir @ ''/'' @ nm) \<noteq> None \<longrightarrow>
      (\<exists>j. j * m < length (elems t) \<and> nm = part_file base (int (j * m)))"
    and "matches_parts regcomp base"
    and "lists_directory dirents dir (dom (os_files os) \<union> {prefix} \<union>
      {part_file prefix (int (j * m)) |j. j * m < length (elems t)})"
  shows "\<exists>os1 u os2 v.
    kvtree_write_to_gather e crc32 env os prefix (Some t) (kvtree_size (Some t)) = Some (os1, KVTREE_SUCCESS, Some u) \<and>
    kvtree_read_scatter_single e' crc32 regcomp dirents os1 prefix (Some d) = Some (os2, KVTREE_SUCCESS, Some v) \<and>
    kvtree_wf v \<and> kvtree_paths v = kvtree_paths d \<union> kvtree_paths t"
proof -
  have wf: "kvtree_wf t" using assms(4) by (simp add: indexed_by_ranks_def)
  have small: "length (elems t) < 2 ^ 31" using length_pack_size [OF wf] assms(5) by simp
  have size: "kvtree_size (Some t) = int (length (elems t))" by simp
  have "is_int64 (kvtree_size (Some t))" unfolding size using small by (intro int32_int64 rank_int32)
  from write_to_gather_total [OF assms(1,4,5,14) this assms(7), of e os] assms(3) obtain os1 u where
    u: "kvtree_write_to_gather e crc32 env os prefix (Some t) (kvtree_size (Some t)) = Some (os1, KVTREE_SUCCESS, Some u)"
    "mset (elems u) = mset (elems t)" "calm (os_script os1)" "gathered crc32 prefix (kvtree_size (Some t)) m (elems u) os os1"
    unfolding m by blast
  have set: "set (elems u) = set (elems t)" and len: "length (elems u) = length (elems t)"
    using u(2) by (metis set_mset_mset, metis size_mset)
  have keys: "rank_keys (2 ^ 31) (elems u)"
    using assms(4) set by (intro rank_keys_sub [OF rank_keys_tree [OF wf]]) (auto simp: indexed_by_ranks_def)
  have "mset (map elem_key (elems u)) = mset (map elem_key (elems t))" using u(2) by simp
  then have dist: "distinct (map elem_key (elems u))" using wf mset_eq_imp_distinct_iff by (fastforce simp: kvtree_wf_iff)
  have cost: "(\<Sum>p \<in> (\<Union>x \<in> set (elems u). elem_paths x). path_cost p) < 2 ^ 31"
    using elems_cost [OF wf] assms(5) by (simp add: set)
  from read_scatter_gathered [OF assms(1,2) u(3) _ assms(9-12) _ _ assms(16) _ _ keys dist _ cost assms(6),
      of m os dirents e'] u(4) assms(7,14,15,17) small
  obtain os2 v where v: "kvtree_read_scatter_single e' crc32 regcomp dirents os1 prefix (Some d) = Some (os2, KVTREE_SUCCESS, Some v)"
    "kvtree_wf v" "kvtree_paths v = kvtree_paths d \<union> (\<Union>x \<in> set (elems u). elem_paths x)"
    unfolding size prefix len by (auto simp: m)
  have "kvtree_paths v = kvtree_paths d \<union> kvtree_paths t"
    unfolding v(3) paths_elems [of t] set using Nil_in_paths(1) [of d] by auto
  with u(1) v(1,2) show ?thesis by blast
qed

text \<open>A directory that can hold the map file \<open>m\<close> and two parts, and a matcher for its part files.\<close>

definition demo_dirents :: "os \<Rightarrow> string \<Rightarrow> string list option" where
  "demo_dirents os dir =
     Some (filter (\<lambda>nm. os_files os (dir @ ''/'' @ nm) \<noteq> None) [''.'', ''m.0.1'', ''m'', ''m.0.0''])"

definition demo_regcomp :: "string \<Rightarrow> (string \<Rightarrow> bool) option" where
  "demo_regcomp pattern = (if pattern = part_pattern ''m'' then Some (is_part ''m'') else None)"

lemma demo_matches: "matches_parts demo_regcomp ''m''"
  by (simp add: matches_parts_def demo_regcomp_def)

lemma demo_files: "{part_file prefix (int (j * 1)) |j. j * 1 < 2} = {prefix @ ''.0.0'', prefix @ ''.0.1''}"
proof -
  have "{part_file prefix (int (j * 1)) |j. j * 1 < 2} = (\<lambda>j. part_file prefix (int j)) ` {j. j < 2}" by auto
  also have "{j. j < (2 :: nat)} = {0, 1}" by auto
  finally show ?thesis by (simp add: part_file_def)
qed

lemma demo_lists: "lists_directory demo_dirents ''d'' (dom Map.empty \<union> {''d/m''} \<union> {part_file ''d/m'' (int (j * 1)) |j. j * 1 < 2})"
  unfolding lists_directory_def demo_files
proof (intro allI impI)
  fix os :: os assume F: "dom (os_files os) \<subseteq> dom Map.empty \<union> {''d/m''} \<union> {''d/m'' @ ''.0.0'', ''d/m'' @ ''.0.1''}"
  have "nm \<in> {''m.0.1'', ''m'', ''m.0.0''}" if "os_files os (''d'' @ ''/'' @ nm) \<noteq> None" for nm
    using F that by (auto simp: dom_def)
  then have "nm \<in> set [''.'', ''m.0.1'', ''m'', ''m.0.0''] \<and> os_files os (''d'' @ ''/'' @ nm) \<noteq> None \<longleftrightarrow>
      os_files os (''d'' @ ''/'' @ nm) \<noteq> None" for nm by fastforce
  moreover have "distinct [''.'', ''m.0.1'', ''m'', ''m.0.0'']" by simp
  ultimately show "\<exists>names. demo_dirents os ''d'' = Some names \<and> distinct names \<and>
      (\<forall>nm. nm \<notin> {''.'', ''..''} \<and> CHR ''/'' \<notin> set nm \<longrightarrow> (nm \<in> set names) = (os_files os (''d'' @ ''/'' @ nm) \<noteq> None))"
    unfolding demo_dirents_def
    by - (intro exI conjI, rule refl, simp_all only: distinct_filter set_filter mem_Collect_eq simp_thms)
qed

theorem gather_roundtrip_witness:
  "\<exists>os1 u os2 v.
    kvtree_write_to_gather Little_endian crc_ieee (Some ''1'')
      \<lparr>os_files = Map.empty, os_fds = [], os_script = [], os_umask = 0, os_junk = \<lambda>_. 0\<rparr> ''d/m''
      (Some (Kvtree [Kvtree_elem (Some ''1'') None, Kvtree_elem (Some ''0'') None]))
      (kvtree_size (Some (Kvtree [Kvtree_elem (Some ''1'') None, Kvtree_elem (Some ''0'') None]))) =
        Some (os1, KVTREE_SUCCESS, Some u) \<and>
    kvtree_read_scatter_single Big_endian crc_ieee demo_regcomp demo_dirents os1 ''d/m'' (Some kvtree_new) =
      Some (os2, KVTREE_SUCCESS, Some v) \<and>
    kvtree_wf v \<and> kvtree_paths v = kvtree_paths kvtree_new \<union>
      kvtree_paths (Kvtree [Kvtree_elem (Some ''1'') None, Kvtree_elem (Some ''0'') None])"
proof (rule gather_roundtrip [where m = 1 and dir = "''d''" and base = "''m''"])
  have one: "atol ''1'' = 1" by code_simp
  then show "0 < (case Some ''1'' of None \<Rightarrow> 8192 | Some s \<Rightarrow> atol s)"
    "1 = nat (case Some ''1'' of None \<Rightarrow> 8192 | Some s \<Rightarrow> atol s)" by simp_all
  show "matches_parts demo_regcomp ''m''" by (rule demo_matches)
  show "lists_directory demo_dirents ''d''
     (dom (os_files \<lparr>os_files = Map.empty, os_fds = [], os_script = [], os_umask = 0, os_junk = \<lambda>_. 0\<rparr>) \<union> {''d/m''} \<union>
      {part_file ''d/m'' (int (j * 1)) |j. j * 1 < length (elems (Kvtree [Kvtree_elem (Some ''1'') None, Kvtree_elem (Some ''0'') None]))})"
    using demo_lists by (simp add: numeral_2_eq_2)
qed (simp_all add: crc_ieee_ok two_ranks calm_def kvtree_wf.simps)

end
