(* ===== verification/KV_Heap.thy ===== *)
theory KV_Heap
  imports KV_Tree "HOL-Library.Monad_Syntax"
begin

text \<open>
  The tree in memory: the structures of \<open>src/kvtree.h\<close> as cells at addresses, the list macros of
  \<open>src/queue.h\<close> as the assignments they expand to, and the functions of \<open>src/kvtree.c\<close> that allocate, link,
  unlink and release elements. A function returns \<open>None\<close> when it reads or frees an address where no object of
  that kind lives, or when the process aborts because there is no memory; a loop that does not end is
  \<open>None\<close> too. \<open>KV_Tree\<close> has the same functions on trees as values; the lemmas here show that the code on
  pointers computes them, releases what it drops, and never touches memory it does not own.
\<close>

section \<open>Memory\<close>

type_synonym addr = nat

text \<open>The address of a pointer variable, which \<open>le_prev\<close> holds: the head of a list or the next field of an
  element.\<close>

datatype slot = Lh_first addr | Le_next addr

record elem_cell =
  c_key :: "addr option"
  c_hash :: "addr option"
  le_next :: "addr option"
  le_prev :: slot

datatype cell = Hash_cell (lh_first: "addr option") | Elem_cell elem_cell | Str_cell string

type_synonym mem = "addr \<rightharpoonup> cell"

text \<open>The allocator: an address and the contents found there, or \<open>None\<close> when there is no memory.\<close>

type_synonym malloc = "mem \<Rightarrow> (addr \<times> elem_cell) option"

definition malloc_ok :: "malloc \<Rightarrow> bool" where
  "malloc_ok malloc \<longleftrightarrow> (\<forall>m. finite (dom m) \<longrightarrow> (\<exists>a c. malloc m = Some (a, c) \<and> m a = None))"

definition elem_at :: "mem \<Rightarrow> addr \<Rightarrow> elem_cell option" where
  "elem_at m a = (case m a of Some (Elem_cell e) \<Rightarrow> Some e | _ \<Rightarrow> None)"

definition hash_at :: "mem \<Rightarrow> addr \<Rightarrow> addr option option" where
  "hash_at m a = (case m a of Some (Hash_cell p) \<Rightarrow> Some p | _ \<Rightarrow> None)"

definition str_at :: "mem \<Rightarrow> addr \<Rightarrow> string option" where
  "str_at m a = (case m a of Some (Str_cell s) \<Rightarrow> Some s | _ \<Rightarrow> None)"

definition upd_elem :: "(elem_cell \<Rightarrow> elem_cell) \<Rightarrow> addr \<Rightarrow> mem \<Rightarrow> mem option" where
  "upd_elem f a m = do { e \<leftarrow> elem_at m a; Some (m(a \<mapsto> Elem_cell (f e))) }"

definition store_slot :: "slot \<Rightarrow> addr option \<Rightarrow> mem \<Rightarrow> mem option" where
  "store_slot s p m =
     (case s of
        Lh_first h \<Rightarrow> do { _ \<leftarrow> hash_at m h; Some (m(h \<mapsto> Hash_cell p)) }
      | Le_next a \<Rightarrow> upd_elem (\<lambda>e. e\<lparr>le_next := p\<rparr>) a m)"

text \<open>\<open>free\<close> of a pointer that is not NULL.\<close>

definition release :: "addr \<Rightarrow> mem \<Rightarrow> mem option" where
  "release a m = (if m a = None then None else Some (m(a := None)))"

definition kvtree_free :: "addr option \<Rightarrow> mem \<Rightarrow> mem option" where
  "kvtree_free p m = (case p of None \<Rightarrow> Some m | Some a \<Rightarrow> release a m)"

section \<open>The list macros\<close>

definition LIST_INIT :: "addr \<Rightarrow> mem \<Rightarrow> mem option" where
  "LIST_INIT h m = store_slot (Lh_first h) None m"

definition LIST_INSERT_HEAD :: "addr \<Rightarrow> addr \<Rightarrow> mem \<Rightarrow> mem option" where
  "LIST_INSERT_HEAD h elm m =
     do {
       first \<leftarrow> hash_at m h;
       m \<leftarrow> store_slot (Le_next elm) first m;
       m \<leftarrow> (case first of None \<Rightarrow> Some m | Some f \<Rightarrow> upd_elem (\<lambda>e. e\<lparr>le_prev := Le_next elm\<rparr>) f m);
       m \<leftarrow> store_slot (Lh_first h) (Some elm) m;
       upd_elem (\<lambda>e. e\<lparr>le_prev := Lh_first h\<rparr>) elm m
     }"

definition LIST_REMOVE :: "addr \<Rightarrow> mem \<Rightarrow> mem option" where
  "LIST_REMOVE elm m =
     do {
       e \<leftarrow> elem_at m elm;
       m \<leftarrow> (case le_next e of None \<Rightarrow> Some m | Some nx \<Rightarrow> upd_elem (\<lambda>f. f\<lparr>le_prev := le_prev e\<rparr>) nx m);
       e \<leftarrow> elem_at m elm;
       store_slot (le_prev e) (le_next e) m
     }"

section \<open>Allocation and release\<close>

definition kvtree_elem_new_mem :: "malloc \<Rightarrow> mem \<Rightarrow> (mem \<times> addr) option" where
  "kvtree_elem_new_mem malloc m =
     do { (a, c) \<leftarrow> malloc m; Some (m(a \<mapsto> Elem_cell (c\<lparr>c_key := None, c_hash := None\<rparr>)), a) }"

definition kvtree_new_mem :: "malloc \<Rightarrow> mem \<Rightarrow> (mem \<times> addr) option" where
  "kvtree_new_mem malloc m =
     do { (a, c) \<leftarrow> malloc m; m \<leftarrow> LIST_INIT a (m(a \<mapsto> Hash_cell (le_next c))); Some (m, a) }"

text \<open>\<open>strdup\<close> returns NULL when there is no memory, and the code stores what it returns.\<close>

definition strdup :: "malloc \<Rightarrow> string \<Rightarrow> mem \<Rightarrow> mem \<times> addr option" where
  "strdup malloc s m = (case malloc m of None \<Rightarrow> (m, None) | Some (a, _) \<Rightarrow> (m(a \<mapsto> Str_cell s), Some a))"

definition kvtree_elem_init_mem :: "malloc \<Rightarrow> addr \<Rightarrow> cstr \<Rightarrow> addr option \<Rightarrow> mem \<Rightarrow> mem option" where
  "kvtree_elem_init_mem malloc elem key hash m =
     (let (m, k) = (case key of None \<Rightarrow> (m, None) | Some s \<Rightarrow> strdup malloc s m)
      in upd_elem (\<lambda>e. e\<lparr>c_key := k, c_hash := hash\<rparr>) elem m)"

text \<open>\<open>kvtree_delete\<close> and \<open>kvtree_elem_delete\<close> call each other; here the second stands inside the loop of the first.\<close>

partial_function (option) kvtree_delete_mem :: "addr option \<Rightarrow> mem \<Rightarrow> mem option" where
  [code]: "kvtree_delete_mem hash m =
     (case hash of
        None \<Rightarrow> Some m
      | Some h \<Rightarrow>
          do {
            first \<leftarrow> hash_at m h;
            (case first of
               None \<Rightarrow> kvtree_free hash m
             | Some elem \<Rightarrow>
                 do {
                   m \<leftarrow> LIST_REMOVE elem m;
                   e \<leftarrow> elem_at m elem;
                   m \<leftarrow> kvtree_free (c_key e) m;
                   m \<leftarrow> upd_elem (\<lambda>e. e\<lparr>c_key := None\<rparr>) elem m;
                   m \<leftarrow> kvtree_delete_mem (c_hash e) m;
                   m \<leftarrow> upd_elem (\<lambda>e. e\<lparr>c_hash := None\<rparr>) elem m;
                   m \<leftarrow> kvtree_free (Some elem) m;
                   kvtree_delete_mem hash m
                 })
          })"

definition kvtree_elem_delete_mem :: "addr option \<Rightarrow> mem \<Rightarrow> mem option" where
  "kvtree_elem_delete_mem elem m =
     (case elem of
        None \<Rightarrow> Some m
      | Some a \<Rightarrow>
          do {
            e \<leftarrow> elem_at m a;
            m \<leftarrow> kvtree_free (c_key e) m;
            m \<leftarrow> upd_elem (\<lambda>e. e\<lparr>c_key := None\<rparr>) a m;
            m \<leftarrow> kvtree_delete_mem (c_hash e) m;
            m \<leftarrow> upd_elem (\<lambda>e. e\<lparr>c_hash := None\<rparr>) a m;
            kvtree_free (Some a) m
          })"

section \<open>Operations\<close>

partial_function (option) size_loop :: "mem \<Rightarrow> addr option \<Rightarrow> int \<Rightarrow> int option" where
  [code]: "size_loop m elem n =
     (case elem of None \<Rightarrow> Some n | Some a \<Rightarrow> do { e \<leftarrow> elem_at m a; size_loop m (le_next e) (n + 1) })"

definition kvtree_size_mem :: "addr option \<Rightarrow> mem \<Rightarrow> int option" where
  "kvtree_size_mem hash m = (case hash of None \<Rightarrow> Some 0 | Some h \<Rightarrow> do { p \<leftarrow> hash_at m h; size_loop m p 0 })"

partial_function (option) elem_get_loop :: "mem \<Rightarrow> string \<Rightarrow> addr option \<Rightarrow> addr option option" where
  [code]: "elem_get_loop m key elem =
     (case elem of
        None \<Rightarrow> Some None
      | Some a \<Rightarrow>
          do {
            e \<leftarrow> elem_at m a;
            found \<leftarrow> (case c_key e of None \<Rightarrow> Some False | Some s \<Rightarrow> do { t \<leftarrow> str_at m s; Some (t = key) });
            if found then Some (Some a) else elem_get_loop m key (le_next e)
          })"

definition kvtree_elem_get_mem :: "addr option \<Rightarrow> cstr \<Rightarrow> mem \<Rightarrow> addr option option" where
  "kvtree_elem_get_mem hash key m =
     (case (hash, key) of
        (Some h, Some k) \<Rightarrow> do { p \<leftarrow> hash_at m h; elem_get_loop m k p }
      | _ \<Rightarrow> Some None)"

definition kvtree_elem_extract_mem :: "addr option \<Rightarrow> cstr \<Rightarrow> mem \<Rightarrow> (mem \<times> addr option) option" where
  "kvtree_elem_extract_mem hash key m =
     do {
       elem \<leftarrow> kvtree_elem_get_mem hash key m;
       m \<leftarrow> (case elem of None \<Rightarrow> Some m | Some a \<Rightarrow> LIST_REMOVE a m);
       Some (m, elem)
     }"

definition kvtree_get_mem :: "addr option \<Rightarrow> cstr \<Rightarrow> mem \<Rightarrow> addr option option" where
  "kvtree_get_mem hash key m =
     do {
       elem \<leftarrow> kvtree_elem_get_mem hash key m;
       (case elem of None \<Rightarrow> Some None | Some a \<Rightarrow> map_option c_hash (elem_at m a))
     }"

definition kvtree_set_mem :: "malloc \<Rightarrow> addr option \<Rightarrow> cstr \<Rightarrow> addr option \<Rightarrow> mem \<Rightarrow> (mem \<times> addr option) option" where
  "kvtree_set_mem malloc hash key hash_value m =
     (case (hash, key) of
        (Some h, Some k) \<Rightarrow>
          do {
            (m, found) \<leftarrow> kvtree_elem_extract_mem hash key m;
            (m, a) \<leftarrow> (case found of
                None \<Rightarrow>
                  do {
                    (m, a) \<leftarrow> kvtree_elem_new_mem malloc m;
                    m \<leftarrow> kvtree_elem_init_mem malloc a key hash_value m;
                    Some (m, a)
                  }
              | Some a \<Rightarrow>
                  do {
                    e \<leftarrow> elem_at m a;
                    m \<leftarrow> kvtree_delete_mem (c_hash e) m;
                    m \<leftarrow> upd_elem (\<lambda>e. e\<lparr>c_hash := hash_value\<rparr>) a m;
                    Some (m, a)
                  });
            m \<leftarrow> LIST_INSERT_HEAD h a m;
            e \<leftarrow> elem_at m a;
            Some (m, c_hash e)
          }
      | _ \<Rightarrow> Some (m, None))"

definition kvtree_extract_mem :: "addr option \<Rightarrow> cstr \<Rightarrow> mem \<Rightarrow> (mem \<times> addr option) option" where
  "kvtree_extract_mem hash key m =
     (case hash of
        None \<Rightarrow> Some (m, None)
      | Some h \<Rightarrow>
          do {
            (m, elem) \<leftarrow> kvtree_elem_extract_mem hash key m;
            (case elem of
               None \<Rightarrow> Some (m, None)
             | Some a \<Rightarrow>
                 do {
                   e \<leftarrow> elem_at m a;
                   m \<leftarrow> upd_elem (\<lambda>e. e\<lparr>c_hash := None\<rparr>) a m;
                   m \<leftarrow> kvtree_elem_delete_mem elem m;
                   Some (m, c_hash e)
                 })
          })"

definition kvtree_unset_mem :: "addr option \<Rightarrow> cstr \<Rightarrow> mem \<Rightarrow> (mem \<times> int) option" where
  "kvtree_unset_mem hash key m =
     (case hash of
        None \<Rightarrow> Some (m, KVTREE_SUCCESS)
      | Some h \<Rightarrow>
          do {
            (m, elem) \<leftarrow> kvtree_elem_extract_mem hash key m;
            m \<leftarrow> (case elem of None \<Rightarrow> Some m | Some a \<Rightarrow> kvtree_elem_delete_mem elem m);
            Some (m, KVTREE_SUCCESS)
          })"

partial_function (option) unset_all_loop :: "addr option \<Rightarrow> mem \<Rightarrow> mem option" where
  [code]: "unset_all_loop elem m =
     (case elem of
        None \<Rightarrow> Some m
      | Some tmp \<Rightarrow>
          do {
            e \<leftarrow> elem_at m tmp;
            m \<leftarrow> LIST_REMOVE tmp m;
            m \<leftarrow> kvtree_elem_delete_mem (Some tmp) m;
            unset_all_loop (le_next e) m
          })"

definition kvtree_unset_all_mem :: "addr option \<Rightarrow> mem \<Rightarrow> (mem \<times> int) option" where
  "kvtree_unset_all_mem hash m =
     do {
       elem \<leftarrow> (case hash of None \<Rightarrow> Some None | Some h \<Rightarrow> hash_at m h);
       m \<leftarrow> unset_all_loop elem m;
       Some (m, KVTREE_SUCCESS)
     }"

text \<open>The merge of two trees, with the recursive call inside the loop over the elements of the second.\<close>

partial_function (option) merge_loop :: "malloc \<Rightarrow> addr \<Rightarrow> addr option \<Rightarrow> int \<Rightarrow> mem \<Rightarrow> (mem \<times> int) option" where
  [code]: "merge_loop malloc hash1 elem rc m =
     (case elem of
        None \<Rightarrow> Some (m, rc)
      | Some a \<Rightarrow>
          do {
            e \<leftarrow> elem_at m a;
            key \<leftarrow> (case c_key e of None \<Rightarrow> Some None | Some s \<Rightarrow> map_option Some (str_at m s));
            got \<leftarrow> kvtree_get_mem (Some hash1) key m;
            (m, key_hash1) \<leftarrow> (case got of
                Some h \<Rightarrow> Some (m, Some h)
              | None \<Rightarrow> do { (m, n) \<leftarrow> kvtree_new_mem malloc m; kvtree_set_mem malloc (Some hash1) key (Some n) m });
            e \<leftarrow> elem_at m a;
            (m, merge_rc) \<leftarrow> (case key_hash1 of
                None \<Rightarrow> Some (m, KVTREE_FAILURE)
              | Some h1 \<Rightarrow>
                  (case c_hash e of
                     None \<Rightarrow> Some (m, KVTREE_SUCCESS)
                   | Some h2 \<Rightarrow> do { first \<leftarrow> hash_at m h2; merge_loop malloc h1 first KVTREE_SUCCESS m }));
            e \<leftarrow> elem_at m a;
            merge_loop malloc hash1 (le_next e) (if merge_rc \<noteq> KVTREE_SUCCESS then KVTREE_FAILURE else rc) m
          })"

definition kvtree_merge_mem :: "malloc \<Rightarrow> addr option \<Rightarrow> addr option \<Rightarrow> mem \<Rightarrow> (mem \<times> int) option" where
  "kvtree_merge_mem malloc hash1 hash2 m =
     (case hash1 of
        None \<Rightarrow> Some (m, KVTREE_FAILURE)
      | Some h1 \<Rightarrow>
          (case hash2 of
             None \<Rightarrow> Some (m, KVTREE_SUCCESS)
           | Some h2 \<Rightarrow> do { first \<leftarrow> hash_at m h2; merge_loop malloc h1 first KVTREE_SUCCESS m }))"

section \<open>Trees laid out in memory\<close>

text \<open>A tree with the addresses of its structures: of the head, of every element and its key.\<close>

datatype atree = ATree (root: addr) (aelems: "aelem list")
  and aelem = AElem (eaddr: addr) (ekey_addr: addr) (ekey: string) (esub: "atree option")

abbreviation root_opt :: "atree option \<Rightarrow> addr option" where
  "root_opt t \<equiv> map_option root t"

definition first_of :: "aelem list \<Rightarrow> addr option \<Rightarrow> addr option" where
  "first_of es q = (case es of [] \<Rightarrow> q | e # _ \<Rightarrow> Some (eaddr e))"

definition last_slot :: "slot \<Rightarrow> aelem list \<Rightarrow> slot" where
  "last_slot p es = (if es = [] then p else Le_next (eaddr (last es)))"

fun erase :: "atree \<Rightarrow> kvtree" and erase_elem :: "aelem \<Rightarrow> kvtree_elem" where
  "erase (ATree h es) = Kvtree (map erase_elem es)"
| "erase_elem (AElem a s k sub) = Kvtree_elem (Some k) (map_option erase sub)"

text \<open>The addresses of a tree, of a list of elements, and of a tree that may be NULL.\<close>

fun addrs :: "atree \<Rightarrow> addr list" and addrs_list :: "aelem list \<Rightarrow> addr list" and addrs_opt :: "atree option \<Rightarrow> addr list" where
  "addrs (ATree h es) = h # addrs_list es"
| "addrs_list [] = []"
| "addrs_list (AElem a s k sub # es) = a # s # addrs_opt sub @ addrs_list es"
| "addrs_opt None = []"
| "addrs_opt (Some t) = addrs t"

text \<open>\<open>seg m p es q\<close>: from the pointer variable \<open>p\<close> the elements \<open>es\<close> follow each other, and the last one points
  at \<open>q\<close>.\<close>

fun laid :: "mem \<Rightarrow> atree \<Rightarrow> bool" and seg :: "mem \<Rightarrow> slot \<Rightarrow> aelem list \<Rightarrow> addr option \<Rightarrow> bool"
  and laid_opt :: "mem \<Rightarrow> atree option \<Rightarrow> bool" where
  "laid m (ATree h es) \<longleftrightarrow> m h = Some (Hash_cell (first_of es None)) \<and> seg m (Lh_first h) es None"
| "seg m p [] q \<longleftrightarrow> True"
| "seg m p (AElem a s k sub # es) q \<longleftrightarrow>
     m a = Some (Elem_cell \<lparr>c_key = Some s, c_hash = root_opt sub, le_next = first_of es q, le_prev = p\<rparr>) \<and>
     m s = Some (Str_cell k) \<and> laid_opt m sub \<and> seg m (Le_next a) es q"
| "laid_opt m None \<longleftrightarrow> True"
| "laid_opt m (Some t) \<longleftrightarrow> laid m t"

definition heap_tree :: "mem \<Rightarrow> atree \<Rightarrow> bool" where
  "heap_tree m t \<longleftrightarrow> laid m t \<and> distinct (addrs t)"

lemma first_of_simps [simp]: "first_of [] q = q" "first_of (e # es) q = Some (eaddr e)"
  "first_of (xs @ ys) q = first_of xs (first_of ys q)"
  by (simp_all add: first_of_def split: list.splits)

lemma last_slot_simps [simp]: "last_slot p [] = p" "last_slot p (e # es) = last_slot (Le_next (eaddr e)) es"
  by (simp_all add: last_slot_def)

lemma addrs_list_append [simp]: "addrs_list (xs @ ys) = addrs_list xs @ addrs_list ys"
proof (induction xs)
  case (Cons e xs)
  then show ?case by (cases e) simp
qed simp

lemma seg_append [simp]: "seg m p (xs @ ys) q \<longleftrightarrow> seg m p xs (first_of ys q) \<and> seg m (last_slot p xs) ys q"
proof (induction xs arbitrary: p)
  case (Cons e xs)
  then show ?case by (cases e) simp
qed simp

lemma eaddr_in: "e \<in> set es \<Longrightarrow> eaddr e \<in> set (addrs_list es)"
proof (induction es)
  case (Cons f es)
  then show ?case by (cases f) auto
qed simp

lemma frame:
  "(\<And>x. x \<in> set (addrs t) \<Longrightarrow> m' x = m x) \<Longrightarrow> laid m' t = laid m t"
  "(\<And>x. x \<in> set (addrs_list es) \<Longrightarrow> m' x = m x) \<Longrightarrow> seg m' p es q = seg m p es q"
  "(\<And>x. x \<in> set (addrs_opt s) \<Longrightarrow> m' x = m x) \<Longrightarrow> laid_opt m' s = laid_opt m s"
  by (induction m t and m p es q and m s rule: laid_seg_laid_opt.induct) auto

lemma keep:
  "laid m t \<Longrightarrow> \<forall>x \<in> set (addrs t). m' x = m x \<Longrightarrow> laid m' t"
  "seg m p es q \<Longrightarrow> \<forall>x \<in> set (addrs_list es). m' x = m x \<Longrightarrow> seg m' p es q"
  "laid_opt m s \<Longrightarrow> \<forall>x \<in> set (addrs_opt s). m' x = m x \<Longrightarrow> laid_opt m' s"
  using frame(1) [of t m' m] frame(2) [of es m' m] frame(3) [of s m' m] by simp_all

lemma laid_alive:
  "laid m t \<Longrightarrow> set (addrs t) \<subseteq> dom m"
  "seg m p es q \<Longrightarrow> set (addrs_list es) \<subseteq> dom m"
  "laid_opt m s \<Longrightarrow> set (addrs_opt s) \<subseteq> dom m"
  by (induction m t and m p es q and m s rule: laid_seg_laid_opt.induct) auto

section \<open>Linking and unlinking\<close>

lemmas mem_defs = elem_at_def hash_at_def str_at_def upd_elem_def store_slot_def release_def kvtree_free_def

text \<open>Writing the next pointer at the end of a segment, and the back pointer at its start.\<close>

lemma seg_set_next:
  assumes "seg m p (xs @ [AElem a s k sub]) q" and "distinct (addrs_list (xs @ [AElem a s k sub]))" and "m a = Some (Elem_cell e)"
  shows "seg (m(a \<mapsto> Elem_cell (e\<lparr>le_next := q'\<rparr>))) p (xs @ [AElem a s k sub]) q'"
proof -
  let ?m = "m(a \<mapsto> Elem_cell (e\<lparr>le_next := q'\<rparr>))"
  have "seg ?m p xs (Some a) = seg m p xs (Some a)" using assms(2) by (intro frame) auto
  moreover have "laid_opt ?m sub = laid_opt m sub" using assms(2) by (intro frame) auto
  ultimately show ?thesis using assms by auto
qed

lemma seg_set_prev:
  assumes "seg m p (AElem a s k sub # es) q" and "distinct (addrs_list (AElem a s k sub # es))" and "m a = Some (Elem_cell e)"
  shows "seg (m(a \<mapsto> Elem_cell (e\<lparr>le_prev := p'\<rparr>))) p' (AElem a s k sub # es) q"
proof -
  let ?m = "m(a \<mapsto> Elem_cell (e\<lparr>le_prev := p'\<rparr>))"
  have "seg ?m (Le_next a) es q = seg m (Le_next a) es q" using assms(2) by (intro frame) auto
  moreover have "laid_opt ?m sub = laid_opt m sub" using assms(2) by (intro frame) auto
  ultimately show ?thesis using assms by auto
qed

lemma relink_prev:
  assumes "seg m p es None" and "distinct (addrs_list es)"
  shows "\<exists>m'. (case first_of es None of None \<Rightarrow> Some m | Some nx \<Rightarrow> upd_elem (\<lambda>f. f\<lparr>le_prev := p'\<rparr>) nx m) = Some m' \<and>
    seg m' p' es None \<and> (\<forall>x. x \<notin> set (addrs_list es) \<longrightarrow> m' x = m x) \<and> dom m' = dom m"
proof (cases es)
  case (Cons e es')
  obtain a s k sub where e: "e = AElem a s k sub" by (cases e)
  obtain c where c: "m a = Some (Elem_cell c)" using assms(1) by (simp add: Cons e)
  from seg_set_prev [OF assms [unfolded Cons e] c, of p'] show ?thesis using c
    by (auto simp add: Cons e mem_defs)
qed simp

lemma relink_next:
  assumes "m h = Some (Hash_cell (first_of es r))" and "seg m (Lh_first h) es r" and "distinct (h # addrs_list es)"
  shows "\<exists>m'. store_slot (last_slot (Lh_first h) es) q m = Some m' \<and> m' h = Some (Hash_cell (first_of es q)) \<and>
    seg m' (Lh_first h) es q \<and> (\<forall>x. x \<notin> set (h # addrs_list es) \<longrightarrow> m' x = m x) \<and> dom m' = dom m"
proof (cases es rule: rev_cases)
  case Nil
  then show ?thesis using assms by (auto simp: mem_defs)
next
  case (snoc es' e)
  obtain a s k sub where e: "e = AElem a s k sub" by (cases e)
  obtain c where c: "m a = Some (Elem_cell c)" using assms(2) by (simp add: snoc e)
  have "a \<noteq> h" "distinct (addrs_list (es' @ [e]))" using assms(3) by (auto simp: snoc e)
  with seg_set_next [OF assms(2) [unfolded snoc e] _ c, of q] c assms(1) show ?thesis
    by (auto simp: snoc e mem_defs last_slot_def)
qed

lemma remove_laid:
  assumes "laid m (ATree h (xs @ e # ys))" and "distinct (addrs (ATree h (xs @ e # ys)))"
  shows "\<exists>m'. LIST_REMOVE (eaddr e) m = Some m' \<and> laid m' (ATree h (xs @ ys)) \<and>
    (\<forall>x. x \<notin> set (addrs (ATree h (xs @ ys))) \<longrightarrow> m' x = m x) \<and> dom m' = dom m"
proof -
  obtain a s k sub where e: "e = AElem a s k sub" by (cases e)
  let ?p = "last_slot (Lh_first h) xs"
  have c: "m a = Some (Elem_cell \<lparr>c_key = Some s, c_hash = root_opt sub, le_next = first_of ys None, le_prev = ?p\<rparr>)"
    and xs: "m h = Some (Hash_cell (first_of xs (Some a)))" "seg m (Lh_first h) xs (Some a)" and ys: "seg m (Le_next a) ys None"
    using assms(1) by (simp_all add: e)
  have d: "distinct (addrs_list ys)" "distinct (h # addrs_list xs)" "a \<notin> set (addrs_list ys)" "a \<notin> set (h # addrs_list xs)"
    "set (h # addrs_list xs) \<inter> set (addrs_list ys) = {}" using assms(2) by (auto simp: e)
  from relink_prev [OF ys d(1), of ?p] obtain m1 where m1:
    "(case first_of ys None of None \<Rightarrow> Some m | Some nx \<Rightarrow> upd_elem (\<lambda>f. f\<lparr>le_prev := ?p\<rparr>) nx m) = Some m1"
    "seg m1 ?p ys None" "\<And>x. x \<notin> set (addrs_list ys) \<Longrightarrow> m1 x = m x" "dom m1 = dom m" by blast
  have "m1 h = Some (Hash_cell (first_of xs (Some a)))" using xs d(5) m1(3) by auto
  moreover have "seg m1 (Lh_first h) xs (Some a)" by (rule keep(2) [OF xs(2)]) (use d(5) m1(3) in auto)
  ultimately have xs1: "m1 h = Some (Hash_cell (first_of xs (Some a)))" "seg m1 (Lh_first h) xs (Some a)" by simp_all
  from relink_next [OF xs1 d(2), of "first_of ys None"] obtain m2 where m2: "store_slot ?p (first_of ys None) m1 = Some m2"
    "m2 h = Some (Hash_cell (first_of xs (first_of ys None)))" "seg m2 (Lh_first h) xs (first_of ys None)"
    "\<And>x. x \<notin> set (h # addrs_list xs) \<Longrightarrow> m2 x = m1 x" "dom m2 = dom m1" by blast
  have "seg m2 ?p ys None" by (rule keep(2) [OF m1(2)]) (use m2(4) d(5) in blast)
  moreover have "LIST_REMOVE a m = Some m2"
    using c m1 m2(1) d(3) by (simp add: LIST_REMOVE_def elem_at_def cong: option.case_cong)
  ultimately show ?thesis using m1(3,4) m2(2-5) by (auto simp: e)
qed

lemma insert_laid:
  assumes "laid m (ATree h es)" and "distinct (addrs (ATree h (AElem a s k sub # es)))"
    and "m a = Some (Elem_cell c)" and "c_key c = Some s" and "c_hash c = root_opt sub" and "m s = Some (Str_cell k)" and "laid_opt m sub"
  shows "\<exists>m'. LIST_INSERT_HEAD h a m = Some m' \<and> laid m' (ATree h (AElem a s k sub # es)) \<and>
    (\<forall>x. x \<notin> set (addrs (ATree h (AElem a s k sub # es))) \<longrightarrow> m' x = m x) \<and> dom m' = dom m"
proof -
  let ?m = "m(a \<mapsto> Elem_cell (c\<lparr>le_next := first_of es None\<rparr>))"
  have "seg m (Lh_first h) es None" using assms(1) by simp
  then have "seg ?m (Lh_first h) es None" by (rule keep(2)) (use assms(2) in auto)
  with relink_prev [of ?m "Lh_first h" es "Le_next a"] assms(2) obtain m1 where m1:
    "(case first_of es None of None \<Rightarrow> Some ?m | Some nx \<Rightarrow> upd_elem (\<lambda>f. f\<lparr>le_prev := Le_next a\<rparr>) nx ?m) = Some m1"
    "seg m1 (Le_next a) es None" "\<And>x. x \<notin> set (addrs_list es) \<Longrightarrow> m1 x = ?m x" "dom m1 = dom ?m" by fastforce
  define m2 where "m2 = m1(h \<mapsto> Hash_cell (Some a), a \<mapsto> Elem_cell (c\<lparr>le_next := first_of es None, le_prev := Lh_first h\<rparr>))"
  have d: "a \<noteq> h" "s \<noteq> h" "s \<noteq> a" "a \<notin> set (addrs_list es)" "h \<notin> set (addrs_list es)" "s \<notin> set (addrs_list es)"
    using assms(2) by auto
  have at: "m1 h = Some (Hash_cell (first_of es None))" "m1 a = Some (Elem_cell (c\<lparr>le_next := first_of es None\<rparr>))" "m1 s = Some (Str_cell k)"
    using m1(3) d assms(1,6) by simp_all
  have ins: "LIST_INSERT_HEAD h a m = Some m2"
    using assms(1,3) m1(1) at d by (simp add: LIST_INSERT_HEAD_def mem_defs m2_def)
  have "seg m2 (Le_next a) es None" by (rule keep(2) [OF m1(2)]) (use d in \<open>auto simp: m2_def\<close>)
  moreover have "laid_opt m2 sub" by (rule keep(3) [OF assms(7)]) (use assms(2) m1(3) in \<open>auto simp: m2_def disjoint_iff\<close>)
  moreover have "c\<lparr>le_next := first_of es None, le_prev := Lh_first h\<rparr> =
      \<lparr>c_key = Some s, c_hash = root_opt sub, le_next = first_of es None, le_prev = Lh_first h\<rparr>" using assms(4,5) by (cases c) simp
  moreover have "dom m2 = dom m" using m1(4) assms(1,3) by (auto simp: m2_def)
  ultimately show ?thesis using ins m1(3) at d by (auto simp: m2_def)
qed

section \<open>Release\<close>

lemma kvtree_delete_unfold:
  "kvtree_delete_mem (Some h) m =
     do {
       first \<leftarrow> hash_at m h;
       (case first of
          None \<Rightarrow> release h m
        | Some elem \<Rightarrow> do { m \<leftarrow> LIST_REMOVE elem m; m \<leftarrow> kvtree_elem_delete_mem (Some elem) m; kvtree_delete_mem (Some h) m })
     }"
  by (subst kvtree_delete_mem.simps) (simp add: kvtree_elem_delete_mem_def kvtree_free_def cong: option.case_cong)

lemma elem_delete_step:
  assumes "m a = Some (Elem_cell c)" and "c_key c = Some s" and "c_hash c = root_opt sub" and "m s = Some (Str_cell k)" and "laid_opt m sub"
    and "distinct (a # s # addrs_opt sub)"
    and del: "\<And>m'. laid_opt m' sub \<Longrightarrow> kvtree_delete_mem (root_opt sub) m' = Some (m' |` (- set (addrs_opt sub)))"
  shows "kvtree_elem_delete_mem (Some a) m = Some (m |` (- set (a # s # addrs_opt sub)))"
proof -
  let ?m = "m(s := None, a \<mapsto> Elem_cell (c\<lparr>c_key := None\<rparr>))"
  have "laid_opt ?m sub" by (rule keep(3) [OF assms(5)]) (use assms(6) in auto)
  from del [OF this] have "kvtree_elem_delete_mem (Some a) m = Some ((?m |` (- set (addrs_opt sub)))(a := None))"
    using assms(1-4,6) by (simp add: kvtree_elem_delete_mem_def mem_defs)
  moreover have "(?m |` (- set (addrs_opt sub)))(a := None) = m |` (- set (a # s # addrs_opt sub))"
    by (auto simp: fun_eq_iff restrict_map_def)
  ultimately show ?thesis by simp
qed

lemma delete_laid:
  "laid m t \<Longrightarrow> distinct (addrs t) \<Longrightarrow> kvtree_delete_mem (Some (root t)) m = Some (m |` (- set (addrs t)))"
  "laid m (ATree h es) \<Longrightarrow> distinct (h # addrs_list es) \<Longrightarrow>
     kvtree_delete_mem (Some h) m = Some (m |` (- set (h # addrs_list es)))"
  "laid_opt m sub \<Longrightarrow> distinct (addrs_opt sub) \<Longrightarrow> kvtree_delete_mem (root_opt sub) m = Some (m |` (- set (addrs_opt sub)))"
proof (induction t and es and sub arbitrary: m and m h and m rule: addrs_addrs_list_addrs_opt.induct)
  case (2 m h)
  then show ?case
    by (simp add: kvtree_delete_unfold mem_defs fun_eq_iff restrict_map_def)
next
  case (3 a s k sub es m h)
  let ?e = "AElem a s k sub"
  obtain m1 where m1: "LIST_REMOVE a m = Some m1" "laid m1 (ATree h es)" "\<And>x. x \<notin> set (addrs (ATree h es)) \<Longrightarrow> m1 x = m x"
    using remove_laid [of m h "[]" ?e es] 3(3,4) by auto
  have d: "distinct (a # s # addrs_opt sub)" "\<And>x. x \<in> set (a # s # addrs_opt sub) \<Longrightarrow> x \<notin> set (addrs (ATree h es))"
    using 3(4) by auto
  then have at: "\<And>x. x \<in> set (a # s # addrs_opt sub) \<Longrightarrow> m1 x = m x" using m1(3) by blast
  have "laid_opt m sub" using 3(3) by simp
  then have "laid_opt m1 sub" by (rule keep(3)) (use at in simp)
  with elem_delete_step [of m1 a _ s sub k] 3(1) [of _] at d(1) 3(3)
  have del: "kvtree_elem_delete_mem (Some a) m1 = Some (m1 |` (- set (a # s # addrs_opt sub)))" by simp
  let ?m = "m1 |` (- set (a # s # addrs_opt sub))"
  have "laid ?m (ATree h es)" by (rule keep(1) [OF m1(2)]) (use d(2) in \<open>auto simp: restrict_map_def\<close>)
  moreover have "distinct (h # addrs_list es)" using 3(4) by auto
  ultimately have "kvtree_delete_mem (Some h) ?m = Some (?m |` (- set (h # addrs_list es)))" by (rule 3(2))
  moreover have "?m |` (- set (h # addrs_list es)) = m |` (- set (h # addrs_list (?e # es)))"
    using m1(3) by (auto simp: fun_eq_iff restrict_map_def)
  moreover have "hash_at m h = Some (Some a)" using 3(3) by (simp add: hash_at_def)
  ultimately show ?case by (subst kvtree_delete_unfold) (simp add: m1(1) del)
next
  case (4 m)
  then show ?case by (simp add: kvtree_delete_mem.simps)
qed simp_all

lemma elem_delete_laid:
  assumes "m a = Some (Elem_cell c)" and "c_key c = Some s" and "c_hash c = root_opt sub" and "m s = Some (Str_cell k)" and "laid_opt m sub"
    and "distinct (a # s # addrs_opt sub)"
  shows "kvtree_elem_delete_mem (Some a) m = Some (m |` (- set (a # s # addrs_opt sub)))"
  by (rule elem_delete_step [OF assms]) (use assms(6) in \<open>auto intro: delete_laid(3)\<close>)

section \<open>Looking up\<close>

abbreviation keyed :: "string \<Rightarrow> aelem \<Rightarrow> bool" where
  "keyed k \<equiv> (\<lambda>e. ekey e = k)"

lemma erase_find: "find (has_key k) (map erase_elem es) = map_option erase_elem (find (keyed k) es)"
proof (induction es)
  case (Cons e es)
  then show ?case by (cases e) simp
qed simp

lemma erase_drop: "drop_first (has_key k) (map erase_elem es) = map erase_elem (drop_first (keyed k) es)"
proof (induction es)
  case (Cons e es)
  then show ?case by (cases e) simp
qed simp

lemma find_split: "find P es = Some e \<Longrightarrow> \<exists>xs ys. es = xs @ e # ys \<and> drop_first P es = xs @ ys \<and> P e \<and> find P xs = None"
proof (induction es)
  case (Cons f es)
  show ?case
  proof (cases "P f")
    case False
    with Cons obtain xs ys where "es = xs @ e # ys" "drop_first P es = xs @ ys" "P e" "find P xs = None" by auto
    with False show ?thesis by (intro exI [of _ "f # xs"] exI [of _ ys]) simp
  next
    case True
    with Cons.prems show ?thesis by (intro exI [of _ "[]"] exI [of _ es]) simp
  qed
qed simp

lemma elem_get_loop_eq: "seg m p es None \<Longrightarrow> elem_get_loop m k (first_of es None) = Some (map_option eaddr (find (keyed k) es))"
proof (induction es arbitrary: p)
  case (Cons e es)
  then show ?case by (cases e) (subst elem_get_loop.simps, auto simp: elem_at_def str_at_def)
qed (simp add: elem_get_loop.simps)

lemma size_loop_eq: "seg m p es None \<Longrightarrow> size_loop m (first_of es None) n = Some (n + int (length es))"
proof (induction es arbitrary: p n)
  case (Cons e es)
  then show ?case by (cases e) (subst size_loop.simps, auto simp: elem_at_def)
qed (simp add: size_loop.simps)

lemma elem_get_laid: "laid m (ATree h es) \<Longrightarrow> kvtree_elem_get_mem (Some h) (Some k) m = Some (map_option eaddr (find (keyed k) es))"
  by (simp add: kvtree_elem_get_mem_def hash_at_def elem_get_loop_eq [of m "Lh_first h"])

lemma seg_mem: "seg m p es q \<Longrightarrow> AElem a s k sub \<in> set es \<Longrightarrow>
  \<exists>c. m a = Some (Elem_cell c) \<and> c_key c = Some s \<and> c_hash c = root_opt sub \<and> m s = Some (Str_cell k) \<and> laid_opt m sub"
proof (induction es arbitrary: p)
  case (Cons e es)
  then show ?case by (cases e) auto
qed simp

lemma get_laid:
  assumes "laid m (ATree h es)"
  shows "kvtree_get_mem (Some h) (Some k) m = Some (Option.bind (find (keyed k) es) (\<lambda>e. root_opt (esub e)))"
proof (cases "find (keyed k) es")
  case None
  then show ?thesis by (simp add: kvtree_get_mem_def elem_get_laid [OF assms])
next
  case (Some e)
  obtain a s k' sub where e: "e = AElem a s k' sub" by (cases e)
  have "AElem a s k' sub \<in> set es" using find_mem [OF Some] unfolding e by blast
  with seg_mem [of m "Lh_first h" es None a s k' sub] assms show ?thesis
    by (auto simp: kvtree_get_mem_def elem_get_laid [OF assms] Some e elem_at_def)
qed

section \<open>What a function may change\<close>

text \<open>The cells \<open>A\<close> become the cells \<open>B\<close>; everything else in memory is untouched and no other cell is allocated.\<close>

definition changes :: "mem \<Rightarrow> addr set \<Rightarrow> mem \<Rightarrow> addr set \<Rightarrow> bool" where
  "changes m A m' B \<longleftrightarrow> (\<forall>x. x \<in> dom m \<longrightarrow> x \<notin> A \<longrightarrow> m' x = m x) \<and> dom m' = (dom m - A) \<union> B \<and> B \<inter> (dom m - A) = {}"

lemma changes_trans: "changes m A m' B \<Longrightarrow> changes m' B m'' C \<Longrightarrow> changes m A m'' C"
proof -
  assume c: "changes m A m' B" "changes m' B m'' C"
  then have d: "dom m' - B = dom m - A" unfolding changes_def by blast
  have "m'' x = m x" if x: "x \<in> dom m" "x \<notin> A" for x
  proof -
    have "x \<in> dom m'" "x \<notin> B" "m' x = m x" using c(1) x unfolding changes_def by blast+
    then show ?thesis using c(2) unfolding changes_def by metis
  qed
  moreover have "dom m'' = (dom m - A) \<union> C" "C \<inter> (dom m - A) = {}" using c(2) d unfolding changes_def by simp_all
  ultimately show ?thesis unfolding changes_def by blast
qed

lemma changes_frame: "changes m A m' B \<Longrightarrow> F \<subseteq> dom m \<Longrightarrow> F \<inter> A = {} \<Longrightarrow> changes m (A \<union> F) m' (B \<union> F)"
proof -
  assume c: "changes m A m' B" and F: "F \<subseteq> dom m" "F \<inter> A = {}"
  have "dom m' = (dom m - A) \<union> B" using c unfolding changes_def by blast
  then have "dom m' = (dom m - (A \<union> F)) \<union> (B \<union> F)" using F by blast
  moreover have "(B \<union> F) \<inter> (dom m - (A \<union> F)) = {}" using c unfolding changes_def by blast
  ultimately show ?thesis using c unfolding changes_def by simp
qed

lemma changes_fresh: "changes m A m' B \<Longrightarrow> F \<subseteq> dom m \<Longrightarrow> F \<inter> A = {} \<Longrightarrow> F \<inter> B = {}"
proof -
  assume c: "changes m A m' B" and F: "F \<subseteq> dom m" "F \<inter> A = {}"
  have "B \<inter> (dom m - A) = {}" using c by (simp add: changes_def)
  then show ?thesis using F by blast
qed

lemma changes_kept: "changes m A m' B \<Longrightarrow> x \<in> dom m \<Longrightarrow> x \<notin> A \<Longrightarrow> m' x = m x"
  by (simp add: changes_def)

section \<open>Taking an element out\<close>

definition elem_laid :: "mem \<Rightarrow> aelem \<Rightarrow> bool" where
  "elem_laid m e \<longleftrightarrow> (\<exists>c. m (eaddr e) = Some (Elem_cell c) \<and> c_key c = Some (ekey_addr e) \<and> c_hash c = root_opt (esub e)) \<and>
     m (ekey_addr e) = Some (Str_cell (ekey e)) \<and> laid_opt m (esub e)"

abbreviation elem_addrs :: "aelem \<Rightarrow> addr list" where
  "elem_addrs e \<equiv> eaddr e # ekey_addr e # addrs_opt (esub e)"

lemma addrs_list_Cons: "addrs_list (e # es) = elem_addrs e @ addrs_list es"
  by (cases e) simp

lemma seg_elem_laid: "seg m p es q \<Longrightarrow> e \<in> set es \<Longrightarrow> elem_laid m e"
  using seg_mem [of m p es q "eaddr e" "ekey_addr e" "ekey e" "esub e"] by (auto simp: elem_laid_def)

lemma elem_laid_keep: "elem_laid m e \<Longrightarrow> \<forall>x \<in> set (elem_addrs e). m' x = m x \<Longrightarrow> elem_laid m' e"
  using keep(3) [of m "esub e" m'] by (auto simp: elem_laid_def)

lemma elem_extract_none:
  "laid m (ATree h es) \<Longrightarrow> find (keyed k) es = None \<Longrightarrow> kvtree_elem_extract_mem (Some h) (Some k) m = Some (m, None)"
  using elem_get_laid [of m h es k] by (simp add: kvtree_elem_extract_mem_def)

lemma elem_extract_laid:
  assumes "heap_tree m (ATree h es)" and "find (keyed k) es = Some e"
  shows "\<exists>m'. kvtree_elem_extract_mem (Some h) (Some k) m = Some (m', Some (eaddr e)) \<and> elem_laid m' e \<and>
    laid m' (ATree h (drop_first (keyed k) es)) \<and> distinct (elem_addrs e @ addrs (ATree h (drop_first (keyed k) es))) \<and>
    set (addrs (ATree h es)) = set (elem_addrs e) \<union> set (addrs (ATree h (drop_first (keyed k) es))) \<and>
    (\<forall>x. x \<notin> set (addrs (ATree h (drop_first (keyed k) es))) \<longrightarrow> m' x = m x) \<and> dom m' = dom m"
proof -
  from find_split [OF assms(2)] obtain xs ys where es: "es = xs @ e # ys" "drop_first (keyed k) es = xs @ ys" by blast
  have l: "laid m (ATree h (xs @ e # ys))" "distinct (addrs (ATree h (xs @ e # ys)))" using assms(1) by (simp_all add: heap_tree_def es(1))
  from remove_laid [OF l] obtain m' where m': "LIST_REMOVE (eaddr e) m = Some m'" "laid m' (ATree h (xs @ ys))"
    "\<forall>x. x \<notin> set (addrs (ATree h (xs @ ys))) \<longrightarrow> m' x = m x" "dom m' = dom m" by blast
  have d: "distinct (elem_addrs e @ addrs (ATree h (xs @ ys)))" using l(2) by (auto simp: addrs_list_Cons)
  have "seg m (Lh_first h) (xs @ e # ys) None" using l(1) by simp
  then have "elem_laid m e" by (rule seg_elem_laid) simp
  then have "elem_laid m' e" by (rule elem_laid_keep) (use d m'(3) in \<open>auto simp: disjoint_iff\<close>)
  moreover have "kvtree_elem_extract_mem (Some h) (Some k) m = Some (m', Some (eaddr e))"
    using assms m'(1) by (simp add: kvtree_elem_extract_mem_def heap_tree_def elem_get_laid [where es = es])
  moreover have "set (addrs (ATree h es)) = set (elem_addrs e) \<union> set (addrs (ATree h (xs @ ys)))"
    by (auto simp: es(1) addrs_list_Cons)
  ultimately show ?thesis using m' d unfolding es(2) by blast
qed

lemma changes_drop:
  assumes "\<forall>x. x \<notin> B \<longrightarrow> m' x = m x" and "dom m' = dom m" and "D \<union> B \<subseteq> dom m" and "D \<inter> B = {}"
  shows "changes m (D \<union> B) (m' |` (- D)) B"
proof -
  have "dom (m' |` (- D)) = dom m - D" using assms(2) by auto
  also have "\<dots> = (dom m - (D \<union> B)) \<union> B" using assms(3,4) by blast
  finally have "dom (m' |` (- D)) = (dom m - (D \<union> B)) \<union> B" .
  then show ?thesis using assms(1) by (auto simp: changes_def)
qed

lemma elem_delete_changes:
  assumes "elem_laid m e" and "distinct (elem_addrs e)"
  shows "kvtree_elem_delete_mem (Some (eaddr e)) m = Some (m |` (- set (elem_addrs e)))"
  using assms elem_delete_laid [of m "eaddr e" _ "ekey_addr e" "esub e" "ekey e"] by (auto simp: elem_laid_def)

section \<open>Operations on one tree\<close>

text \<open>\<open>unset\<close> removes the element and releases it with everything below.\<close>

lemma unset_laid:
  assumes "heap_tree m t"
  shows "\<exists>m' t'. kvtree_unset_mem (Some (root t)) (Some k) m = Some (m', KVTREE_SUCCESS) \<and> heap_tree m' t' \<and> root t' = root t \<and>
    snd (kvtree_unset (Some (erase t)) (Some k)) = Some (erase t') \<and> changes m (set (addrs t)) m' (set (addrs t'))"
proof -
  obtain h es where t: "t = ATree h es" by (cases t)
  show ?thesis
  proof (cases "find (keyed k) es")
    case None
    then have "kvtree_unset_mem (Some h) (Some k) m = Some (m, KVTREE_SUCCESS)"
      using assms by (simp add: kvtree_unset_mem_def elem_extract_none [where es = es] t heap_tree_def)
    moreover have "changes m (set (addrs t)) m (set (addrs t))"
      using assms laid_alive(1) [of m t] by (auto simp: changes_def heap_tree_def)
    ultimately show ?thesis using assms None by (intro exI [of _ m] exI [of _ t]) (auto simp: t drop_first_none erase_drop)
  next
    case (Some e)
    let ?r = "ATree h (drop_first (keyed k) es)"
    from elem_extract_laid [OF assms [unfolded t] Some] obtain m1 where m1:
      "kvtree_elem_extract_mem (Some h) (Some k) m = Some (m1, Some (eaddr e))" "elem_laid m1 e" "laid m1 ?r"
      "distinct (elem_addrs e @ addrs ?r)" "set (addrs t) = set (elem_addrs e) \<union> set (addrs ?r)"
      "\<forall>x. x \<notin> set (addrs ?r) \<longrightarrow> m1 x = m x" "dom m1 = dom m" unfolding t by blast
    let ?m = "m1 |` (- set (elem_addrs e))"
    have "kvtree_unset_mem (Some h) (Some k) m = Some (?m, KVTREE_SUCCESS)"
      using m1(1,4) by (simp add: kvtree_unset_mem_def elem_delete_changes [OF m1(2)])
    moreover have "laid ?m ?r" by (rule keep(1) [OF m1(3)]) (use m1(4) in \<open>auto simp: restrict_map_def\<close>)
    moreover have "changes m (set (addrs t)) ?m (set (addrs ?r))" unfolding m1(5)
      by (rule changes_drop) (use m1(4-7) laid_alive(1) [of m t] assms in \<open>auto simp: heap_tree_def\<close>)
    ultimately show ?thesis using m1(4)
      by (intro exI [of _ ?m] exI [of _ ?r]) (simp add: t heap_tree_def erase_drop)
  qed
qed

text \<open>\<open>extract\<close> releases the element and hands its tree to the caller.\<close>

lemma extract_laid:
  assumes "heap_tree m t"
  shows "\<exists>m' t' v. kvtree_extract_mem (Some (root t)) (Some k) m = Some (m', root_opt v) \<and> heap_tree m' t' \<and> root t' = root t \<and>
    laid_opt m' v \<and> distinct (addrs t' @ addrs_opt v) \<and>
    kvtree_extract (Some (erase t)) (Some k) = (map_option erase v, Some (erase t')) \<and>
    changes m (set (addrs t)) m' (set (addrs t') \<union> set (addrs_opt v))"
proof -
  obtain h es where t: "t = ATree h es" by (cases t)
  show ?thesis
  proof (cases "find (keyed k) es")
    case None
    then have "kvtree_extract_mem (Some h) (Some k) m = Some (m, None)"
      using assms elem_extract_none [of m h es k] by (simp add: kvtree_extract_mem_def t heap_tree_def)
    moreover have "changes m (set (addrs t)) m (set (addrs t))"
      using assms laid_alive(1) [of m t] by (auto simp: changes_def heap_tree_def)
    ultimately show ?thesis using assms None
      by (intro exI [of _ m] exI [of _ t] exI [of _ None])
        (auto simp: t heap_tree_def drop_first_none erase_drop erase_find kvtree_extract_eq kvtree_get_eq)
  next
    case (Some e)
    let ?r = "ATree h (drop_first (keyed k) es)"
    from elem_extract_laid [OF assms [unfolded t] Some] obtain m1 where m1:
      "kvtree_elem_extract_mem (Some h) (Some k) m = Some (m1, Some (eaddr e))" "elem_laid m1 e" "laid m1 ?r"
      "distinct (elem_addrs e @ addrs ?r)" "set (addrs t) = set (elem_addrs e) \<union> set (addrs ?r)"
      "\<forall>x. x \<notin> set (addrs ?r) \<longrightarrow> m1 x = m x" "dom m1 = dom m" unfolding t by blast
    from m1(2) obtain c where c: "m1 (eaddr e) = Some (Elem_cell c)" "c_key c = Some (ekey_addr e)" "c_hash c = root_opt (esub e)"
      "m1 (ekey_addr e) = Some (Str_cell (ekey e))" "laid_opt m1 (esub e)" unfolding elem_laid_def by blast
    let ?m2 = "m1(eaddr e \<mapsto> Elem_cell (c\<lparr>c_hash := None\<rparr>))" and ?m = "m1 |` (- {eaddr e, ekey_addr e})"
    have "kvtree_elem_delete_mem (Some (eaddr e)) ?m2 = Some (?m2 |` (- set (eaddr e # ekey_addr e # addrs_opt None)))"
      by (rule elem_delete_laid [where k = "ekey e" and s = "ekey_addr e" and c = "c\<lparr>c_hash := None\<rparr>"]) (use c m1(4) in auto)
    moreover have "?m2 |` (- set (eaddr e # ekey_addr e # addrs_opt None)) = ?m" by (auto simp: restrict_map_def fun_eq_iff)
    ultimately have "kvtree_extract_mem (Some h) (Some k) m = Some (?m, root_opt (esub e))"
      using m1(1) c by (simp add: kvtree_extract_mem_def elem_at_def upd_elem_def)
    moreover have "laid ?m ?r" by (rule keep(1) [OF m1(3)]) (use m1(4) in \<open>auto simp: restrict_map_def\<close>)
    moreover have "laid_opt ?m (esub e)" by (rule keep(3) [OF c(5)]) (use m1(4) in \<open>auto simp: restrict_map_def\<close>)
    moreover have "changes m ({eaddr e, ekey_addr e} \<union> (set (addrs ?r) \<union> set (addrs_opt (esub e)))) ?m (set (addrs ?r) \<union> set (addrs_opt (esub e)))"
      by (rule changes_drop) (use m1(4-7) laid_alive(1) [of m t] assms in \<open>auto simp: heap_tree_def\<close>)
    moreover have "{eaddr e, ekey_addr e} \<union> (set (addrs ?r) \<union> set (addrs_opt (esub e))) = set (addrs t)" using m1(5) by auto
    moreover have "elem_hash (erase_elem e) = map_option erase (esub e)" by (cases e) simp
    moreover have "distinct (addrs ?r @ addrs_opt (esub e))" using m1(4) by auto
    ultimately show ?thesis
      by (intro exI [of _ ?m] exI [of _ ?r] exI [of _ "esub e"])
        (simp add: t heap_tree_def erase_drop erase_find kvtree_extract_eq kvtree_get_eq Some)
  qed
qed

text \<open>\<open>set\<close> takes the given tree in and releases the one the key had.\<close>

lemma set_fresh:
  assumes "heap_tree m (ATree h es)" and "laid_opt m v" and "distinct (addrs (ATree h es) @ addrs_opt v)" and "malloc_ok malloc" and "finite (dom m)"
    and "find (keyed k) es = None"
  shows "\<exists>m' a s. kvtree_set_mem malloc (Some h) (Some k) (root_opt v) m = Some (m', root_opt v) \<and> heap_tree m' (ATree h (AElem a s k v # es)) \<and>
    changes m (set (addrs (ATree h es)) \<union> set (addrs_opt v)) m' (set (addrs (ATree h (AElem a s k v # es))))"
proof -
  from assms(4,5) obtain a c where a: "malloc m = Some (a, c)" "m a = None" unfolding malloc_ok_def by blast
  let ?m1 = "m(a \<mapsto> Elem_cell (c\<lparr>c_key := None, c_hash := None\<rparr>))"
  have "finite (dom ?m1)" using assms(5) by simp
  with assms(4) obtain s c' where s: "malloc ?m1 = Some (s, c')" "?m1 s = None" unfolding malloc_ok_def by blast
  have sa: "s \<noteq> a" "m s = None" using s(2) by (auto split: if_splits)
  let ?m2 = "m(a \<mapsto> Elem_cell (c\<lparr>c_key := Some s, c_hash := root_opt v\<rparr>), s \<mapsto> Str_cell k)"
  have al: "set (addrs (ATree h es)) \<subseteq> dom m" "set (addrs_opt v) \<subseteq> dom m"
    using assms(1,2) laid_alive(1) [of m "ATree h es"] laid_alive(3) [of m v] by (simp_all add: heap_tree_def)
  then have new: "a \<notin> set (addrs (ATree h es)) \<union> set (addrs_opt v)" "s \<notin> set (addrs (ATree h es)) \<union> set (addrs_opt v)"
    using a(2) sa(2) by auto
  have d: "distinct (addrs (ATree h (AElem a s k v # es)))" using assms(3) new sa(1) by auto
  have "laid m (ATree h es)" using assms(1) by (simp add: heap_tree_def)
  then have l: "laid ?m2 (ATree h es)" by (rule keep(1)) (use new in auto)
  have v: "laid_opt ?m2 v" by (rule keep(3) [OF assms(2)]) (use new in auto)
  have at: "?m2 a = Some (Elem_cell (c\<lparr>c_key := Some s, c_hash := root_opt v\<rparr>))" "?m2 s = Some (Str_cell k)" using sa(1) by auto
  from insert_laid [OF l d at(1) _ _ at(2) v] obtain m' where m': "LIST_INSERT_HEAD h a ?m2 = Some m'" "laid m' (ATree h (AElem a s k v # es))"
    "\<forall>x. x \<notin> set (addrs (ATree h (AElem a s k v # es))) \<longrightarrow> m' x = ?m2 x" "dom m' = dom ?m2" by auto
  have "kvtree_elem_extract_mem (Some h) (Some k) m = Some (m, None)"
    using assms(1,6) by (intro elem_extract_none) (simp_all add: heap_tree_def)
  then have "kvtree_set_mem malloc (Some h) (Some k) (root_opt v) m = Some (m', root_opt v)"
    using m'(1,2) a s sa by (simp add: kvtree_set_mem_def kvtree_elem_new_mem_def kvtree_elem_init_mem_def strdup_def upd_elem_def elem_at_def fun_upd_twist)
  moreover have "changes m (set (addrs (ATree h es)) \<union> set (addrs_opt v)) m' (set (addrs (ATree h (AElem a s k v # es))))"
    using m'(3,4) al new a(2) sa by (auto simp: changes_def)
  ultimately show ?thesis using m'(2) d by (auto simp: heap_tree_def)
qed

lemma set_again:
  assumes "heap_tree m (ATree h es)" and "laid_opt m v" and "distinct (addrs (ATree h es) @ addrs_opt v)"
    and "find (keyed k) es = Some e"
  shows "\<exists>m'. kvtree_set_mem malloc (Some h) (Some k) (root_opt v) m = Some (m', root_opt v) \<and>
    heap_tree m' (ATree h (AElem (eaddr e) (ekey_addr e) k v # drop_first (keyed k) es)) \<and>
    changes m (set (addrs (ATree h es)) \<union> set (addrs_opt v)) m' (set (addrs (ATree h (AElem (eaddr e) (ekey_addr e) k v # drop_first (keyed k) es))))"
proof -
  let ?r = "ATree h (drop_first (keyed k) es)" and ?t = "ATree h (AElem (eaddr e) (ekey_addr e) k v # drop_first (keyed k) es)"
    and ?a = "eaddr e" and ?s = "ekey_addr e" and ?D = "set (addrs_opt (esub e))"
  have k: "ekey e = k" using find_mem [OF assms(4)] by simp
  from elem_extract_laid [OF assms(1,4)] obtain m1 where m1:
    "kvtree_elem_extract_mem (Some h) (Some k) m = Some (m1, Some ?a)" "elem_laid m1 e" "laid m1 ?r"
    "distinct (elem_addrs e @ addrs ?r)" "set (addrs (ATree h es)) = set (elem_addrs e) \<union> set (addrs ?r)"
    "\<forall>x. x \<notin> set (addrs ?r) \<longrightarrow> m1 x = m x" "dom m1 = dom m" by blast
  from m1(2) obtain c where c: "m1 ?a = Some (Elem_cell c)" "c_key c = Some ?s" "c_hash c = root_opt (esub e)"
    "m1 ?s = Some (Str_cell k)" "laid_opt m1 (esub e)" unfolding elem_laid_def k by blast
  have v: "set (addrs_opt v) \<inter> set (addrs (ATree h es)) = {}" "distinct (addrs_opt v)" using assms(3) by auto
  have al: "set (addrs (ATree h es)) \<subseteq> dom m" "set (addrs_opt v) \<subseteq> dom m"
    using assms(1,2) laid_alive(1) [of m "ATree h es"] laid_alive(3) [of m v] by (simp_all add: heap_tree_def)
  define m2 where "m2 = m1 |` (- ?D)"
  have del: "kvtree_delete_mem (root_opt (esub e)) m1 = Some m2"
    unfolding m2_def using m1(4) by (intro delete_laid(3) [OF c(5)]) auto
  let ?m3 = "m2(?a \<mapsto> Elem_cell (c\<lparr>c_hash := root_opt v\<rparr>))"
  have at2: "m2 ?a = Some (Elem_cell c)" "m2 ?s = Some (Str_cell k)" using c m1(4) by (auto simp: m2_def)
  have d: "distinct (addrs ?t)" using m1(4,5) v by auto
  have l3: "laid ?m3 ?r" by (rule keep(1) [OF m1(3)]) (use m1(4) in \<open>auto simp: m2_def restrict_map_def\<close>)
  have v3: "laid_opt ?m3 v"
  proof (rule keep(3) [OF assms(2)], intro ballI)
    fix x assume "x \<in> set (addrs_opt v)"
    with v(1) have "x \<notin> set (elem_addrs e)" "x \<notin> set (addrs ?r)" unfolding m1(5) by blast+
    with m1(6) show "?m3 x = m x" by (simp add: m2_def restrict_map_def)
  qed
  have at3: "?m3 ?a = Some (Elem_cell (c\<lparr>c_hash := root_opt v\<rparr>))" "?m3 ?s = Some (Str_cell k)" using at2 m1(4) by simp_all
  from insert_laid [OF l3 d at3(1) _ _ at3(2) v3] c(2) obtain m' where m': "LIST_INSERT_HEAD h ?a ?m3 = Some m'" "laid m' ?t"
    "\<forall>x. x \<notin> set (addrs ?t) \<longrightarrow> m' x = ?m3 x" "dom m' = dom ?m3" by auto
  have "kvtree_set_mem malloc (Some h) (Some k) (root_opt v) m = Some (m', root_opt v)"
    using m1(1) c(1,3) del at2 m'(1,2) by (simp add: kvtree_set_mem_def elem_at_def upd_elem_def)
  moreover have "changes m (set (addrs (ATree h es)) \<union> set (addrs_opt v)) m' (set (addrs ?t))"
  proof -
    have t: "set (addrs ?t) = {?a, ?s} \<union> (set (addrs ?r) \<union> set (addrs_opt v))" by auto
    have "m' x = m x" if "x \<notin> set (addrs (ATree h es)) \<union> set (addrs_opt v)" for x
    proof -
      from that m1(5) have "x \<notin> set (addrs ?t)" "x \<notin> ?D" "x \<notin> set (addrs ?r)" "x \<noteq> ?a" unfolding t by auto
      with m'(3) m1(6) show ?thesis by (simp add: m2_def restrict_map_def)
    qed
    moreover have "dom m' = dom m - ?D" using m'(4) m1(7) domI [of m2 ?a, OF at2(1)] by (auto simp: m2_def)
    moreover have "dom m - ?D = (dom m - (set (addrs (ATree h es)) \<union> set (addrs_opt v))) \<union> set (addrs ?t)"
      unfolding t using m1(4,5) v(1) al by (auto simp del: addrs.simps)
    moreover have "set (addrs ?t) \<subseteq> set (addrs (ATree h es)) \<union> set (addrs_opt v)" unfolding t m1(5) by auto
    ultimately show ?thesis unfolding changes_def by blast
  qed
  ultimately show ?thesis using m'(2) d by (auto simp: heap_tree_def)
qed

lemma set_laid:
  assumes "heap_tree m t" and "laid_opt m v" and "distinct (addrs t @ addrs_opt v)" and "malloc_ok malloc" and "finite (dom m)"
  shows "\<exists>m' t'. kvtree_set_mem malloc (Some (root t)) (Some k) (root_opt v) m = Some (m', root_opt v) \<and> heap_tree m' t' \<and> root t' = root t \<and>
    (\<exists>a s. aelems t' = AElem a s k v # drop_first (keyed k) (aelems t)) \<and>
    changes m (set (addrs t) \<union> set (addrs_opt v)) m' (set (addrs t'))"
proof -
  obtain h es where t: "t = ATree h es" by (cases t)
  show ?thesis
  proof (cases "find (keyed k) es")
    case None
    from set_fresh [OF assms(1-5) [unfolded t] None] obtain m' a s where
      "kvtree_set_mem malloc (Some h) (Some k) (root_opt v) m = Some (m', root_opt v)" "heap_tree m' (ATree h (AElem a s k v # es))"
      "changes m (set (addrs t) \<union> set (addrs_opt v)) m' (set (addrs (ATree h (AElem a s k v # es))))" unfolding t by blast
    then show ?thesis using drop_first_none [OF None]
      by (intro exI [of _ m'] exI [of _ "ATree h (AElem a s k v # es)"]) (simp add: t)
  next
    case (Some e)
    from set_again [OF assms(1-3) [unfolded t] Some] obtain m' where
      "kvtree_set_mem malloc (Some h) (Some k) (root_opt v) m = Some (m', root_opt v)"
      "heap_tree m' (ATree h (AElem (eaddr e) (ekey_addr e) k v # drop_first (keyed k) es))"
      "changes m (set (addrs t) \<union> set (addrs_opt v)) m' (set (addrs (ATree h (AElem (eaddr e) (ekey_addr e) k v # drop_first (keyed k) es))))"
      unfolding t by blast
    then show ?thesis
      by (intro exI [of _ m'] exI [of _ "ATree h (AElem (eaddr e) (ekey_addr e) k v # drop_first (keyed k) es)"]) (simp add: t)
  qed
qed

section \<open>A tree inside another\<close>

text \<open>What happens to a sub-tree happens to the tree that contains it, and to nothing else.\<close>

abbreviation with_sub :: "atree \<Rightarrow> aelem \<Rightarrow> aelem" where
  "with_sub t \<equiv> (\<lambda>e. AElem (eaddr e) (ekey_addr e) (ekey e) (Some t))"

lemma update_first_split: "find P xs = None \<Longrightarrow> P e \<Longrightarrow> update_first P f (xs @ e # ys) = xs @ f e # ys"
  by (induction xs) (auto split: if_splits)

lemma sub_update:
  assumes "heap_tree m (ATree h es)" and "find (keyed k) es = Some e" and "esub e = Some u" and "heap_tree m' u'" and "root u' = root u"
    and "changes m (set (addrs u)) m' (set (addrs u'))"
  shows "heap_tree m' (ATree h (update_first (keyed k) (with_sub u') es)) \<and>
    changes m (set (addrs (ATree h es))) m' (set (addrs (ATree h (update_first (keyed k) (with_sub u') es))))"
proof -
  from find_split [OF assms(2)] obtain xs ys where es: "es = xs @ e # ys" "find (keyed k) xs = None" "ekey e = k" by blast
  have upd: "update_first (keyed k) (with_sub u') es = xs @ with_sub u' e # ys"
    using es(2,3) unfolding es(1) by (rule update_first_split)
  let ?F = "set (h # addrs_list xs @ eaddr e # ekey_addr e # addrs_list ys)"
  have A: "set (addrs (ATree h es)) = set (addrs u) \<union> ?F" "set (addrs (ATree h (xs @ with_sub u' e # ys))) = set (addrs u') \<union> ?F"
    using assms(3) by (auto simp: es(1) addrs_list_Cons)
  have l: "laid m (ATree h es)" and d: "distinct (addrs (ATree h es))" using assms(1) by (simp_all add: heap_tree_def)
  have F: "?F \<subseteq> dom m" using laid_alive(1) [OF l] unfolding A(1) by blast
  have Fu: "?F \<inter> set (addrs u) = {}" using d assms(3) by (auto simp: es(1) addrs_list_Cons)
  have kept: "\<forall>x \<in> ?F. m' x = m x" using F Fu changes_kept [OF assms(6)] by blast
  have "?F \<inter> set (addrs u') = {}" by (rule changes_fresh [OF assms(6) F Fu])
  then have "distinct (addrs (ATree h (xs @ with_sub u' e # ys)))"
    using d assms(3,4) by (auto simp: es(1) addrs_list_Cons heap_tree_def)
  moreover have "laid m' (ATree h (xs @ with_sub u' e # ys))"
  proof -
    obtain a s k' where e: "e = AElem a s k' (Some u)" using assms(3) by (cases e) simp
    have c: "m h = Some (Hash_cell (first_of xs (Some a)))" "seg m (Lh_first h) xs (Some a)"
      "m a = Some (Elem_cell \<lparr>c_key = Some s, c_hash = Some (root u), le_next = first_of ys None, le_prev = last_slot (Lh_first h) xs\<rparr>)"
      "m s = Some (Str_cell k')" "seg m (Le_next a) ys None" using l by (simp_all add: es(1) e)
    have "seg m' (Lh_first h) xs (Some a)" by (rule keep(2) [OF c(2)]) (use kept in simp)
    moreover have "seg m' (Le_next a) ys None" by (rule keep(2) [OF c(5)]) (use kept in simp)
    moreover have "m' h = m h" "m' a = m a" "m' s = m s" using kept by (simp_all add: e)
    ultimately show ?thesis using c(1,3,4) assms(4,5) by (simp add: e heap_tree_def)
  qed
  ultimately show ?thesis using changes_frame [OF assms(6) F Fu] unfolding upd A by (simp only: heap_tree_def)
qed

lemma erase_sub:
  "erase (ATree h (update_first (keyed k) (with_sub u') es)) =
     Kvtree (update_first (has_key k) (\<lambda>e. Kvtree_elem (elem_key e) (Some (erase u'))) (map erase_elem es))"
proof (induction es)
  case (Cons e es)
  then show ?case by (cases e) simp
qed simp

lemma erase_set: "aelems t' = AElem a s k v # drop_first (keyed k) (aelems t) \<Longrightarrow>
  fst (kvtree_set (Some (erase t)) (Some k) (map_option erase v)) = Some (erase t')"
  by (cases t; cases t') (simp add: kvtree_set_eq erase_drop)

lemma new_laid:
  assumes "malloc_ok malloc" and "finite (dom m)"
  shows "\<exists>m' a. kvtree_new_mem malloc m = Some (m', a) \<and> heap_tree m' (ATree a []) \<and> changes m {} m' {a} \<and> finite (dom m')"
proof -
  from assms obtain a c where a: "malloc m = Some (a, c)" "m a = None" unfolding malloc_ok_def by blast
  then show ?thesis using assms(2)
    by (auto simp: kvtree_new_mem_def LIST_INIT_def mem_defs heap_tree_def changes_def)
qed

lemma changes_finite: "changes m A m' (set xs) \<Longrightarrow> finite (dom m) \<Longrightarrow> finite (dom m')"
  by (simp add: changes_def)

end
