(* ===== verification/KV_HeapRun.thy ===== *)
theory KV_HeapRun
  imports KV_Heap
begin

text \<open>
  Merging and clearing trees in memory, and whole runs of a client: whatever sequence of updates a program makes
  at whatever place of a tree, the memory holds the tree that the functions of \<open>KV_Tree\<close> compute, and deleting
  the tree gives back exactly the memory the program started with.
\<close>

section \<open>Merging in memory\<close>

text \<open>The lookup of a key of the first tree, which is created when the tree has none.\<close>

lemma adopt:
  assumes "heap_tree m t" and "changes m {} m1 (set (addrs n))" and "heap_tree m1 n" and "malloc_ok malloc" and "finite (dom m)"
  shows "\<exists>m2 t'. kvtree_set_mem malloc (Some (root t)) (Some k) (Some (root n)) m1 = Some (m2, Some (root n)) \<and>
    heap_tree m2 t' \<and> root t' = root t \<and> (\<exists>a s. aelems t' = AElem a s k (Some n) # drop_first (keyed k) (aelems t)) \<and>
    changes m (set (addrs t)) m2 (set (addrs t'))"
proof -
  have t: "laid m t" "distinct (addrs t)" "set (addrs t) \<subseteq> dom m" using assms(1) laid_alive(1) [of m t] by (simp_all add: heap_tree_def)
  then have n: "set (addrs t) \<inter> set (addrs n) = {}" using changes_fresh [OF assms(2) t(3)] by simp
  have "laid m1 t" by (rule keep(1) [OF t(1)]) (use changes_kept [OF assms(2)] t(3) in blast)
  with t(2) have h: "heap_tree m1 t" by (simp add: heap_tree_def)
  have "distinct (addrs t @ addrs_opt (Some n))" "laid_opt m1 (Some n)" using t(2) n assms(3) by (simp_all add: heap_tree_def)
  from set_laid [OF h this(2,1) assms(4) changes_finite [OF assms(2,5)], of k] obtain m2 t' where m2:
    "kvtree_set_mem malloc (Some (root t)) (Some k) (Some (root n)) m1 = Some (m2, Some (root n))" "heap_tree m2 t'" "root t' = root t"
    "\<exists>a s. aelems t' = AElem a s k (Some n) # drop_first (keyed k) (aelems t)" "changes m1 (set (addrs t) \<union> set (addrs n)) m2 (set (addrs t'))" by auto
  have "changes m (set (addrs t)) m1 (set (addrs t) \<union> set (addrs n))" using changes_frame [OF assms(2) t(3)] by (simp add: Un_commute)
  then have "changes m (set (addrs t)) m2 (set (addrs t'))" using m2(5) by (rule changes_trans)
  then show ?thesis using m2(1-4) by blast
qed

lemma get_or_new_laid:
  assumes "heap_tree m t" and "malloc_ok malloc" and "finite (dom m)"
  shows "\<exists>m' t' e u. do { got \<leftarrow> kvtree_get_mem (Some (root t)) (Some k) m;
        (case got of Some h \<Rightarrow> Some (m, Some h)
         | None \<Rightarrow> do { (m, n) \<leftarrow> kvtree_new_mem malloc m; kvtree_set_mem malloc (Some (root t)) (Some k) (Some n) m }) } = Some (m', Some (root u)) \<and>
    heap_tree m' t' \<and> root t' = root t \<and> find (keyed k) (aelems t') = Some e \<and> esub e = Some u \<and>
    kvtree_get_or_new (Some (erase t)) (Some k) = (Some (erase t'), Some [k]) \<and> changes m (set (addrs t)) m' (set (addrs t'))"
proof -
  obtain h es where t: "t = ATree h es" by (cases t)
  have l: "laid m (ATree h es)" using assms(1) by (simp add: heap_tree_def t)
  have sub: "elem_hash (erase_elem e) = map_option erase (esub e)" for e by (cases e) simp
  have abs: "kvtree_get (Some (erase t)) (Some k) = Option.bind (find (keyed k) es) (\<lambda>e. map_option erase (esub e))"
    by (cases "find (keyed k) es") (simp_all add: t kvtree_get_eq erase_find sub)
  show ?thesis
  proof (cases "Option.bind (find (keyed k) es) esub")
    case (Some u)
    then obtain e where e: "find (keyed k) es = Some e" "esub e = Some u" by (cases "find (keyed k) es") auto
    have "changes m (set (addrs t)) m (set (addrs t))" using laid_alive(1) [OF l] by (auto simp: t changes_def)
    then show ?thesis using get_laid [OF l, of k] e assms(1) abs
      by (intro exI [of _ m] exI [of _ t] exI [of _ e] exI [of _ u]) (simp add: t kvtree_get_or_new_def)
  next
    case None
    then have none: "Option.bind (find (keyed k) es) (\<lambda>e. root_opt (esub e)) = None"
      "kvtree_get (Some (erase t)) (Some k) = None" using abs by (cases "find (keyed k) es"; simp)+
    from new_laid [OF assms(2,3)] obtain m1 n where m1: "kvtree_new_mem malloc m = Some (m1, n)" "heap_tree m1 (ATree n [])"
      "changes m {} m1 {n}" by blast
    from adopt [OF assms(1) _ m1(2) assms(2,3), of k] m1(3) obtain m2 t' a s where m2:
      "kvtree_set_mem malloc (Some (root t)) (Some k) (Some n) m1 = Some (m2, Some n)" "heap_tree m2 t'" "root t' = root t"
      "aelems t' = AElem a s k (Some (ATree n [])) # drop_first (keyed k) (aelems t)" "changes m (set (addrs t)) m2 (set (addrs t'))" by auto
    have "kvtree_get_or_new (Some (erase t)) (Some k) = (Some (erase t'), Some [k])"
      using erase_set [OF m2(4)] none(2) by (simp add: kvtree_get_or_new_def kvtree_set_eq kvtree_new_def)
    then show ?thesis using get_laid [OF l, of k] none m1(1) m2
      by (intro exI [of _ m2] exI [of _ t'] exI [of _ "AElem a s k (Some (ATree n []))"] exI [of _ "ATree n []"]) (simp add: t)
  qed
qed

lemma sub_holds:
  assumes "heap_tree m t" and "find (keyed k) (aelems t) = Some e" and "esub e = Some u"
  shows "heap_tree m u" and "set (addrs u) \<subseteq> set (addrs t)"
proof -
  obtain h es where t: "t = ATree h es" by (cases t)
  from find_split [of "keyed k" es e] assms(2) obtain xs ys where es: "es = xs @ e # ys" by (auto simp: t)
  have "seg m (Lh_first h) es None" "distinct (addrs t)" using assms(1) by (simp_all add: heap_tree_def t)
  moreover from seg_elem_laid [OF this(1), of e] have "elem_laid m e" by (simp add: es)
  ultimately show "heap_tree m u" "set (addrs u) \<subseteq> set (addrs t)"
    using assms(3) by (auto simp: t es addrs_list_Cons heap_tree_def elem_laid_def)
qed

lemma assign_same: "kvtree_lookup (Some t) [k] = Some u \<Longrightarrow> kvtree_assign (Some t) [k] (Some u) = Some t"
proof -
  assume "kvtree_lookup (Some t) [k] = Some u"
  then obtain e where e: "find (has_key k) (elems t) = Some e" "elem_hash e = Some u" by (auto simp: kvtree_get_eq bind_eq_Some_conv)
  have "update_first (has_key k) (\<lambda>e. Kvtree_elem (elem_key e) (Some u)) (elems t) = elems t"
    by (rule update_first_id) (use e in \<open>auto simp: kvtree_elem.expand\<close>)
  then show ?thesis by simp
qed

lemma erase_assign:
  assumes "t = ATree h es"
  shows "kvtree_assign (Some (erase t)) [k] (Some (erase u)) = Some (erase (ATree h (update_first (keyed k) (with_sub u) es)))"
  unfolding erase_sub by (simp add: assms)

text \<open>One element of the second tree.\<close>

lemma merge_step:
  assumes "seg m p (AElem a s k sub # es) None" and "heap_tree m t" and "set (addrs t) \<inter> set (addrs_list (AElem a s k sub # es)) = {}"
    and "malloc_ok malloc" and "finite (dom m)"
    and sub: "\<And>m u h2 es2. sub = Some (ATree h2 es2) \<Longrightarrow> seg m (Lh_first h2) es2 None \<Longrightarrow> heap_tree m u \<Longrightarrow> set (addrs u) \<inter> set (addrs_list es2) = {} \<Longrightarrow>
      finite (dom m) \<Longrightarrow> \<exists>m' u'. merge_loop malloc (root u) (first_of es2 None) KVTREE_SUCCESS m = Some (m', KVTREE_SUCCESS) \<and> heap_tree m' u' \<and> root u' = root u \<and>
        kvtree_merge_elems KVTREE_SUCCESS (Some (erase u)) (map erase_elem es2) = (KVTREE_SUCCESS, Some (erase u')) \<and> changes m (set (addrs u)) m' (set (addrs u'))"
  shows "\<exists>m' t'. merge_loop malloc (root t) (Some a) rc m = merge_loop malloc (root t) (first_of es None) rc m' \<and> heap_tree m' t' \<and> root t' = root t \<and>
    kvtree_merge_elems rc (Some (erase t)) (erase_elem (AElem a s k sub) # map erase_elem es) = kvtree_merge_elems rc (Some (erase t')) (map erase_elem es) \<and>
    changes m (set (addrs t)) m' (set (addrs t'))"
proof -
  let ?F = "set (addrs_list (AElem a s k sub # es))"
  have alive: "?F \<subseteq> dom m" by (rule laid_alive(2) [OF assms(1)])
  have F: "?F \<inter> set (addrs t) = {}" using assms(3) by blast
  from get_or_new_laid [OF assms(2,4,5), of k] obtain got m1 t1 e u where
    got: "kvtree_get_mem (Some (root t)) (Some k) m = Some got"
      "(case got of Some h \<Rightarrow> Some (m, Some h)
         | None \<Rightarrow> do { (m, n) \<leftarrow> kvtree_new_mem malloc m; kvtree_set_mem malloc (Some (root t)) (Some k) (Some n) m }) = Some (m1, Some (root u))"
    and t1: "heap_tree m1 t1" "root t1 = root t" "find (keyed k) (aelems t1) = Some e" "esub e = Some u"
      "kvtree_get_or_new (Some (erase t)) (Some k) = (Some (erase t1), Some [k])" "changes m (set (addrs t)) m1 (set (addrs t1))"
    by (auto simp: bind_eq_Some_conv)
  have kept1: "\<forall>x \<in> ?F. m1 x = m x" using changes_kept [OF t1(6)] alive F by blast
  have c: "m a = Some (Elem_cell \<lparr>c_key = Some s, c_hash = root_opt sub, le_next = first_of es None, le_prev = p\<rparr>)" "m s = Some (Str_cell k)" "laid_opt m sub"
    using assms(1) by simp_all
  obtain h1 es1 where t1_eq: "t1 = ATree h1 es1" by (cases t1)
  have t1_sub: "kvtree_lookup (Some (erase t1)) [k] = Some (erase u)"
    using t1(3,4) by (cases e) (simp add: t1_eq kvtree_get_eq erase_find)
  show ?thesis
  proof (cases sub)
    case None
    have "merge_loop malloc (root t) (Some a) rc m = merge_loop malloc (root t) (first_of es None) rc m1"
      using c got kept1 by (subst merge_loop.simps) (simp add: elem_at_def str_at_def None)
    moreover have "kvtree_assign (Some (erase t1)) [k] (Some (erase u)) = Some (erase t1)"
      by (rule assign_same [OF t1_sub])
    ultimately show ?thesis using t1 t1_sub by (intro exI [of _ m1] exI [of _ t1]) (simp add: None kvtree_write_ptr_def del: kvtree_assign.simps)
  next
    case (Some t2)
    obtain h2 es2 where t2: "t2 = ATree h2 es2" by (cases t2)
    have s2: "seg m (Lh_first h2) es2 None" "m h2 = Some (Hash_cell (first_of es2 None))" using c(3) by (simp_all add: Some t2)
    have s2': "seg m1 (Lh_first h2) es2 None" by (rule keep(2) [OF s2(1)]) (use kept1 in \<open>simp add: Some t2\<close>)
    have "set (addrs_list es2) \<subseteq> ?F" by (auto simp: Some t2)
    then have dis: "set (addrs u) \<inter> set (addrs_list es2) = {}"
      using sub_holds(2) [OF t1(1,3,4)] changes_fresh [OF t1(6) alive F] by blast
    from sub [OF Some [unfolded t2] s2' sub_holds(1) [OF t1(1,3,4)] dis changes_finite [OF t1(6) assms(5)]]
    obtain m2 u' where m2: "merge_loop malloc (root u) (first_of es2 None) KVTREE_SUCCESS m1 = Some (m2, KVTREE_SUCCESS)" "heap_tree m2 u'" "root u' = root u"
      "kvtree_merge_elems KVTREE_SUCCESS (Some (erase u)) (map erase_elem es2) = (KVTREE_SUCCESS, Some (erase u'))"
      "changes m1 (set (addrs u)) m2 (set (addrs u'))" by blast
    let ?t = "ATree h1 (update_first (keyed k) (with_sub u') es1)"
    from sub_update [OF t1(1) [unfolded t1_eq] _ t1(4) m2(2,3,5), of k] t1(3)
    have t': "heap_tree m2 ?t" "changes m1 (set (addrs t1)) m2 (set (addrs ?t))" by (simp_all add: t1_eq)
    have ch: "changes m (set (addrs t)) m2 (set (addrs ?t))" using t1(6) t'(2) by (rule changes_trans)
    then have "\<forall>x \<in> ?F. m2 x = m x" using changes_kept alive F by blast
    then have "merge_loop malloc (root t) (Some a) rc m = merge_loop malloc (root t) (first_of es None) rc m2"
      using c got kept1 s2(2) m2(1) by (subst merge_loop.simps) (simp add: elem_at_def str_at_def hash_at_def Some t2)
    moreover have "kvtree_merge_elems rc (Some (erase t)) (erase_elem (AElem a s k sub) # map erase_elem es) =
        kvtree_merge_elems rc (Some (erase ?t)) (map erase_elem es)"
      using t1(5) t1_sub m2(4) erase_assign [OF t1_eq, of k u'] by (simp add: Some t2 del: erase.simps(1) [of h1] kvtree_assign.simps)
    moreover have "root ?t = root t" using t1(2) by (simp add: t1_eq)
    ultimately show ?thesis using t'(1) ch by blast
  qed
qed

lemma merge_loop_laid:
  assumes "malloc_ok malloc"
    and "seg m p es None" and "heap_tree m t" and "set (addrs t) \<inter> set (addrs_list es) = {}" and "finite (dom m)"
  shows "\<exists>m' t'. merge_loop malloc (root t) (first_of es None) rc m = Some (m', rc) \<and> heap_tree m' t' \<and> root t' = root t \<and>
      kvtree_merge_elems rc (Some (erase t)) (map erase_elem es) = (rc, Some (erase t')) \<and> changes m (set (addrs t)) m' (set (addrs t'))"
  using assms(2-5)
proof (induction "size_list size es" arbitrary: es m t p rc rule: less_induct)
  case less
  show ?case
  proof (cases es)
    case Nil
    have "changes m (set (addrs t)) m (set (addrs t))" using less.prems(2) laid_alive(1) [of m t] by (auto simp: heap_tree_def changes_def)
    then show ?thesis using less.prems(2) by (subst merge_loop.simps) (auto simp: Nil)
  next
    case (Cons e es')
    obtain a s k sub where e: "e = AElem a s k sub" by (cases e)
    from merge_step [OF less.prems(1-3) [unfolded Cons e] assms(1) less.prems(4), of rc] less.hyps
    obtain m1 t1 where m1: "merge_loop malloc (root t) (Some a) rc m = merge_loop malloc (root t) (first_of es' None) rc m1" "heap_tree m1 t1" "root t1 = root t"
      "kvtree_merge_elems rc (Some (erase t)) (erase_elem (AElem a s k sub) # map erase_elem es') = kvtree_merge_elems rc (Some (erase t1)) (map erase_elem es')"
      "changes m (set (addrs t)) m1 (set (addrs t1))" by (auto simp: Cons e)
    have F: "set (addrs_list es') \<subseteq> dom m" using less.prems(1) laid_alive(2) [of m p es None] by (auto simp: Cons e)
    have D: "set (addrs_list es') \<inter> set (addrs t) = {}" using less.prems(3) by (auto simp: Cons e)
    have "seg m (Le_next a) es' None" using less.prems(1) by (simp add: Cons e)
    then have s: "seg m1 (Le_next a) es' None" by (rule keep(2)) (use changes_kept [OF m1(5)] F D in blast)
    have dis: "set (addrs t1) \<inter> set (addrs_list es') = {}" using changes_fresh [OF m1(5) F D] by blast
    have "size_list size es' < size_list size es" by (simp add: Cons)
    from less.hyps [OF this s m1(2) dis changes_finite [OF m1(5) less.prems(4)], of rc] m1(3)
    obtain m2 t2 where m2: "merge_loop malloc (root t) (first_of es' None) rc m1 = Some (m2, rc)" "heap_tree m2 t2" "root t2 = root t"
      "kvtree_merge_elems rc (Some (erase t1)) (map erase_elem es') = (rc, Some (erase t2))" "changes m1 (set (addrs t1)) m2 (set (addrs t2))" by auto
    have "changes m (set (addrs t)) m2 (set (addrs t2))" using m1(5) m2(5) by (rule changes_trans)
    then show ?thesis using m1(1,4) m2(1-4) by (intro exI [of _ m2] exI [of _ t2]) (simp add: Cons e del: kvtree_merge_elems.simps erase_elem.simps)
  qed
qed

lemma merge_laid:
  assumes "heap_tree m t" and "heap_tree m u" and "set (addrs t) \<inter> set (addrs u) = {}" and "malloc_ok malloc" and "finite (dom m)"
  shows "\<exists>m' t'. kvtree_merge_mem malloc (Some (root t)) (Some (root u)) m = Some (m', KVTREE_SUCCESS) \<and> heap_tree m' t' \<and> root t' = root t \<and>
    kvtree_merge (Some (erase t)) (Some (erase u)) = (KVTREE_SUCCESS, Some (erase t')) \<and> changes m (set (addrs t)) m' (set (addrs t'))"
proof -
  obtain h es where u: "u = ATree h es" by (cases u)
  have "seg m (Lh_first h) es None" "set (addrs t) \<inter> set (addrs_list es) = {}" using assms(2,3) by (auto simp: u heap_tree_def)
  from merge_loop_laid [OF assms(4) this(1) assms(1) this(2) assms(5), of KVTREE_SUCCESS] show ?thesis
    using assms(2) by (simp add: u heap_tree_def kvtree_merge_mem_def hash_at_def)
qed

section \<open>Clearing a tree\<close>

lemma unset_all_loop_laid:
  "laid m (ATree h es) \<Longrightarrow> distinct (addrs (ATree h es)) \<Longrightarrow>
     \<exists>m'. unset_all_loop (first_of es None) m = Some m' \<and> laid m' (ATree h []) \<and> changes m (set (addrs (ATree h es))) m' {h}"
proof (induction es arbitrary: m)
  case Nil
  then show ?case by (subst unset_all_loop.simps) (auto simp: changes_def)
next
  case (Cons e es)
  let ?r = "ATree h es"
  from remove_laid [of m h "[]" e es] Cons.prems obtain m1 where m1: "LIST_REMOVE (eaddr e) m = Some m1" "laid m1 ?r"
    "\<forall>x. x \<notin> set (addrs ?r) \<longrightarrow> m1 x = m x" "dom m1 = dom m" by auto
  have seg: "seg m (Lh_first h) (e # es) None" and d: "distinct (elem_addrs e @ addrs ?r)"
    using Cons.prems by (auto simp: addrs_list_Cons)
  have "elem_laid m e" by (rule seg_elem_laid [OF seg]) simp
  then have e1: "elem_laid m1 e" by (rule elem_laid_keep) (use d m1(3) in \<open>auto simp: disjoint_iff\<close>)
  let ?m = "m1 |` (- set (elem_addrs e))"
  have del: "kvtree_elem_delete_mem (Some (eaddr e)) m1 = Some ?m" by (rule elem_delete_changes [OF e1]) (use d in auto)
  have A: "set (addrs (ATree h (e # es))) = set (elem_addrs e) \<union> set (addrs ?r)" by (auto simp: addrs_list_Cons)
  have "changes m (set (elem_addrs e) \<union> set (addrs ?r)) ?m (set (addrs ?r))"
    by (rule changes_drop [OF m1(3,4)]) (use d laid_alive(1) [OF Cons.prems(1)] in \<open>auto simp: A simp del: addrs.simps\<close>)
  moreover have "laid ?m ?r" by (rule keep(1) [OF m1(2)]) (use d in \<open>auto simp: restrict_map_def\<close>)
  with Cons.IH [of ?m] d obtain m' where m': "unset_all_loop (first_of es None) ?m = Some m'" "laid m' (ATree h [])"
    "changes ?m (set (addrs ?r)) m' {h}" by auto
  ultimately have "changes m (set (addrs (ATree h (e # es)))) m' {h}" unfolding A using changes_trans by blast
  moreover obtain c where "m (eaddr e) = Some (Elem_cell c)" "le_next c = first_of es None" using seg by (cases e) simp
  then have "unset_all_loop (first_of (e # es) None) m = Some m'"
    using m1(1) del m'(1) by (subst unset_all_loop.simps) (simp add: elem_at_def)
  ultimately show ?case using m'(2) by blast
qed

lemma unset_all_laid:
  assumes "heap_tree m t"
  shows "\<exists>m' t'. kvtree_unset_all_mem (Some (root t)) m = Some (m', KVTREE_SUCCESS) \<and> heap_tree m' t' \<and> root t' = root t \<and>
    snd (kvtree_unset_all (Some (erase t))) = Some (erase t') \<and> changes m (set (addrs t)) m' (set (addrs t'))"
proof -
  obtain h es where t: "t = ATree h es" by (cases t)
  from unset_all_loop_laid [of m h es] assms obtain m' where m': "unset_all_loop (first_of es None) m = Some m'"
    "laid m' (ATree h [])" "changes m (set (addrs t)) m' {h}" by (auto simp: t heap_tree_def)
  then show ?thesis using assms
    by (intro exI [of _ m'] exI [of _ "ATree h []"]) (simp add: t heap_tree_def kvtree_unset_all_mem_def hash_at_def kvtree_unset_all_eq kvtree_new_def)
qed

section \<open>Runs of a client\<close>

text \<open>What a program does to a tree it owns, at the place it reaches by looking up the keys of a path: set a key to a new
  tree, to a copy of another part, remove a key, take a tree out and delete it, remove everything.\<close>

datatype tree_op =
    Op_set kvpath string
  | Op_copy kvpath kvpath string
  | Op_unset kvpath string
  | Op_extract kvpath string
  | Op_clear kvpath

fun walk :: "addr option \<Rightarrow> kvpath \<Rightarrow> mem \<Rightarrow> addr option option" where
  "walk p [] m = Some p"
| "walk p (k # ks) m = do { q \<leftarrow> kvtree_get_mem p (Some k) m; walk q ks m }"

fun run_op :: "malloc \<Rightarrow> addr \<Rightarrow> tree_op \<Rightarrow> mem \<Rightarrow> mem option" where
  "run_op malloc h (Op_set p k) m =
     do {
       d \<leftarrow> walk (Some h) p m;
       (case d of None \<Rightarrow> Some m
        | Some _ \<Rightarrow> do { (m, n) \<leftarrow> kvtree_new_mem malloc m; map_option fst (kvtree_set_mem malloc d (Some k) (Some n) m) })
     }"
| "run_op malloc h (Op_copy q p k) m =
     do {
       c \<leftarrow> walk (Some h) q m;
       d \<leftarrow> walk (Some h) p m;
       (case d of None \<Rightarrow> Some m
        | Some _ \<Rightarrow>
            do {
              (m, n) \<leftarrow> kvtree_new_mem malloc m;
              (m, _) \<leftarrow> kvtree_merge_mem malloc (Some n) c m;
              map_option fst (kvtree_set_mem malloc d (Some k) (Some n) m)
            })
     }"
| "run_op malloc h (Op_unset p k) m = do { d \<leftarrow> walk (Some h) p m; map_option fst (kvtree_unset_mem d (Some k) m) }"
| "run_op malloc h (Op_extract p k) m =
     do { d \<leftarrow> walk (Some h) p m; (m, v) \<leftarrow> kvtree_extract_mem d (Some k) m; kvtree_delete_mem v m }"
| "run_op malloc h (Op_clear p) m = do { d \<leftarrow> walk (Some h) p m; map_option fst (kvtree_unset_all_mem d m) }"

fun run_ops :: "malloc \<Rightarrow> addr \<Rightarrow> tree_op list \<Rightarrow> mem \<Rightarrow> mem option" where
  "run_ops malloc h [] m = Some m"
| "run_ops malloc h (op # ops) m = do { m \<leftarrow> run_op malloc h op m; run_ops malloc h ops m }"

text \<open>The same on a tree as a value.\<close>

definition at_place :: "kvtree option \<Rightarrow> kvpath \<Rightarrow> (kvtree \<Rightarrow> kvtree option) \<Rightarrow> kvtree option" where
  "at_place hash p f = (case kvtree_lookup hash p of None \<Rightarrow> hash | Some u \<Rightarrow> kvtree_assign hash p (f u))"

fun spec_op :: "tree_op \<Rightarrow> kvtree option \<Rightarrow> kvtree option" where
  "spec_op (Op_set p k) hash = at_place hash p (\<lambda>u. fst (kvtree_set (Some u) (Some k) (Some kvtree_new)))"
| "spec_op (Op_copy q p k) hash =
     at_place hash p (\<lambda>u. fst (kvtree_set (Some u) (Some k) (snd (kvtree_merge (Some kvtree_new) (kvtree_lookup hash q)))))"
| "spec_op (Op_unset p k) hash = at_place hash p (\<lambda>u. snd (kvtree_unset (Some u) (Some k)))"
| "spec_op (Op_extract p k) hash = at_place hash p (\<lambda>u. snd (kvtree_extract (Some u) (Some k)))"
| "spec_op (Op_clear p) hash = at_place hash p (\<lambda>u. snd (kvtree_unset_all (Some u)))"

text \<open>The place a path leads to, and that what is done there is done to the whole tree.\<close>

definition grafts :: "mem \<Rightarrow> atree \<Rightarrow> kvpath \<Rightarrow> atree \<Rightarrow> bool" where
  "grafts m t p u \<longleftrightarrow> heap_tree m u \<and> set (addrs u) \<subseteq> set (addrs t) \<and>
     (\<forall>m' u'. heap_tree m' u' \<longrightarrow> root u' = root u \<longrightarrow> changes m (set (addrs u)) m' (set (addrs u')) \<longrightarrow>
        (\<exists>t'. heap_tree m' t' \<and> root t' = root t \<and> changes m (set (addrs t)) m' (set (addrs t')) \<and>
           kvtree_assign (Some (erase t)) p (Some (erase u')) = Some (erase t')))"

lemma get_sub:
  assumes "heap_tree m t"
  shows "\<exists>v. kvtree_get_mem (Some (root t)) (Some k) m = Some (root_opt v) \<and> kvtree_get (Some (erase t)) (Some k) = map_option erase v \<and>
    (\<forall>u. v = Some u \<longrightarrow> (\<exists>e. find (keyed k) (aelems t) = Some e \<and> esub e = Some u))"
proof -
  obtain h es where t: "t = ATree h es" by (cases t)
  have l: "laid m (ATree h es)" using assms by (simp add: t heap_tree_def)
  have sub: "elem_hash (erase_elem e) = map_option erase (esub e)" for e by (cases e) simp
  show ?thesis
    by (rule exI [of _ "Option.bind (find (keyed k) es) esub"], cases "find (keyed k) es")
      (simp_all add: t get_laid [OF l] kvtree_get_eq erase_find sub)
qed

lemma graft_sub:
  assumes "heap_tree m t" and "find (keyed k) (aelems t) = Some e" and "esub e = Some u" and "grafts m u p v"
  shows "grafts m t (k # p) v"
  unfolding grafts_def
proof (intro conjI allI impI)
  obtain h es where t: "t = ATree h es" by (cases t)
  show "heap_tree m v" using assms(4) by (simp add: grafts_def)
  show "set (addrs v) \<subseteq> set (addrs t)" using assms(4) sub_holds(2) [OF assms(1-3)] by (auto simp: grafts_def)
  fix m' v' assume v': "heap_tree m' v'" "root v' = root v" "changes m (set (addrs v)) m' (set (addrs v'))"
  then obtain u' where u': "heap_tree m' u'" "root u' = root u" "changes m (set (addrs u)) m' (set (addrs u'))"
    "kvtree_assign (Some (erase u)) p (Some (erase v')) = Some (erase u')" using assms(4) unfolding grafts_def by blast
  let ?t = "ATree h (update_first (keyed k) (with_sub u') es)"
  from sub_update [OF assms(1) [unfolded t] _ assms(3) u'(1,2,3), of k] assms(2)
  have t': "heap_tree m' ?t" "changes m (set (addrs t)) m' (set (addrs ?t))" by (simp_all add: t)
  have "kvtree_assign (Some (erase t)) (k # p) (Some (erase v')) = kvtree_assign (Some (erase t)) [k] (Some (erase u'))"
  proof -
    have "find (has_key k) (elems (erase t)) = Some (erase_elem e)" "elem_hash (erase_elem e) = Some (erase u)"
      using assms(2,3) by (cases e, simp add: t erase_find)+
    then show ?thesis using u'(4) by (auto intro!: update_first_cong)
  qed
  also have "\<dots> = Some (erase ?t)" by (rule erase_assign [OF t])
  finally show "\<exists>t'. heap_tree m' t' \<and> root t' = root t \<and> changes m (set (addrs t)) m' (set (addrs t')) \<and>
      kvtree_assign (Some (erase t)) (k # p) (Some (erase v')) = Some (erase t')" using t' by (intro exI [of _ ?t]) (simp add: t)
qed

lemma walk_null: "walk None p m = Some None"
  by (induction p) (simp_all add: kvtree_get_mem_def kvtree_elem_get_mem_def)

lemma lookup_null: "kvtree_lookup None p = None"
  by (induction p) simp_all

lemma walk_laid:
  "heap_tree m t \<Longrightarrow> \<exists>v. walk (Some (root t)) p m = Some (root_opt v) \<and> kvtree_lookup (Some (erase t)) p = map_option erase v \<and>
    (\<forall>u. v = Some u \<longrightarrow> grafts m t p u)"
proof (induction p arbitrary: t)
  case Nil
  then show ?case by (intro exI [of _ "Some t"]) (auto simp: grafts_def)
next
  case (Cons k p)
  from get_sub [OF Cons.prems, of k] obtain w where w: "kvtree_get_mem (Some (root t)) (Some k) m = Some (root_opt w)"
    "kvtree_get (Some (erase t)) (Some k) = map_option erase w"
    "\<And>u. w = Some u \<Longrightarrow> \<exists>e. find (keyed k) (aelems t) = Some e \<and> esub e = Some u" by blast
  show ?case
  proof (cases w)
    case None
    then show ?thesis using w by (intro exI [of _ None]) (simp add: walk_null lookup_null)
  next
    case (Some u)
    from w(3) [OF Some] obtain e where e: "find (keyed k) (aelems t) = Some e" "esub e = Some u" by blast
    from Cons.IH [OF sub_holds(1) [OF Cons.prems e]] obtain v where v: "walk (Some (root u)) p m = Some (root_opt v)"
      "kvtree_lookup (Some (erase u)) p = map_option erase v" "\<forall>x. v = Some x \<longrightarrow> grafts m u p x" by blast
    have "\<forall>x. v = Some x \<longrightarrow> grafts m t (k # p) x" using v(3) graft_sub [OF Cons.prems e] by blast
    then show ?thesis using w(1,2) v(1,2) by (intro exI [of _ v]) (simp add: Some)
  qed
qed

text \<open>An update at a place, given what it does to the tree there.\<close>

lemma at_place_laid:
  assumes "heap_tree m t"
    and "\<And>u. heap_tree m u \<Longrightarrow> \<exists>m' u'. g (Some (root u)) = Some m' \<and> heap_tree m' u' \<and> root u' = root u \<and> f (erase u) = Some (erase u') \<and>
      changes m (set (addrs u)) m' (set (addrs u'))"
    and "g None = Some m"
  shows "\<exists>m' t'. do { d \<leftarrow> walk (Some (root t)) p m; g d } = Some m' \<and> heap_tree m' t' \<and> root t' = root t \<and>
    at_place (Some (erase t)) p f = Some (erase t') \<and> changes m (set (addrs t)) m' (set (addrs t'))"
proof -
  from walk_laid [OF assms(1), of p] obtain v where v: "walk (Some (root t)) p m = Some (root_opt v)"
    "kvtree_lookup (Some (erase t)) p = map_option erase v" "\<And>u. v = Some u \<Longrightarrow> grafts m t p u" by blast
  show ?thesis
  proof (cases v)
    case None
    have "changes m (set (addrs t)) m (set (addrs t))" using assms(1) laid_alive(1) [of m t] by (auto simp: heap_tree_def changes_def)
    then show ?thesis using v assms(1,3) None by (intro exI [of _ m] exI [of _ t]) (simp add: at_place_def)
  next
    case (Some u)
    note gr = v(3) [OF Some]
    then have "heap_tree m u" by (simp add: grafts_def)
    from assms(2) [OF this] obtain m' u' where u': "g (Some (root u)) = Some m'" "heap_tree m' u'" "root u' = root u" "f (erase u) = Some (erase u')"
      "changes m (set (addrs u)) m' (set (addrs u'))" by blast
    from gr u'(2,3,5) obtain t' where "heap_tree m' t'" "root t' = root t" "changes m (set (addrs t)) m' (set (addrs t'))"
      "kvtree_assign (Some (erase t)) p (Some (erase u')) = Some (erase t')" unfolding grafts_def by blast
    then show ?thesis using v(1,2) u'(1,4) Some by (intro exI [of _ m'] exI [of _ t']) (simp add: at_place_def)
  qed
qed

lemma set_new_laid:
  assumes "heap_tree m u" and "malloc_ok malloc" and "finite (dom m)"
  shows "\<exists>m' u'. do { (m, n) \<leftarrow> kvtree_new_mem malloc m; map_option fst (kvtree_set_mem malloc (Some (root u)) (Some k) (Some n) m) } = Some m' \<and>
    heap_tree m' u' \<and> root u' = root u \<and> fst (kvtree_set (Some (erase u)) (Some k) (Some kvtree_new)) = Some (erase u') \<and>
    changes m (set (addrs u)) m' (set (addrs u'))"
proof -
  from new_laid [OF assms(2,3)] obtain m1 n where m1: "kvtree_new_mem malloc m = Some (m1, n)" "heap_tree m1 (ATree n [])"
    "changes m {} m1 {n}" by blast
  from adopt [OF assms(1) _ m1(2) assms(2,3), of k] m1(3) obtain m2 u' a s where m2:
    "kvtree_set_mem malloc (Some (root u)) (Some k) (Some n) m1 = Some (m2, Some n)" "heap_tree m2 u'" "root u' = root u"
    "aelems u' = AElem a s k (Some (ATree n [])) # drop_first (keyed k) (aelems u)" "changes m (set (addrs u)) m2 (set (addrs u'))" by auto
  then show ?thesis using m1(1) erase_set [OF m2(4)] by (intro exI [of _ m2] exI [of _ u']) (simp add: kvtree_new_def)
qed

lemma set_copy_laid:
  assumes "heap_tree m u" and "malloc_ok malloc" and "finite (dom m)" and "\<And>w. v = Some w \<Longrightarrow> heap_tree m w"
  shows "\<exists>m' u'. do { (m, n) \<leftarrow> kvtree_new_mem malloc m; (m, _) \<leftarrow> kvtree_merge_mem malloc (Some n) (root_opt v) m;
        map_option fst (kvtree_set_mem malloc (Some (root u)) (Some k) (Some n) m) } = Some m' \<and>
    heap_tree m' u' \<and> root u' = root u \<and>
    fst (kvtree_set (Some (erase u)) (Some k) (snd (kvtree_merge (Some kvtree_new) (map_option erase v)))) = Some (erase u') \<and>
    changes m (set (addrs u)) m' (set (addrs u'))"
proof -
  from new_laid [OF assms(2,3)] obtain m1 n where m1: "kvtree_new_mem malloc m = Some (m1, n)" "heap_tree m1 (ATree n [])"
    "changes m {} m1 {n}" "finite (dom m1)" by blast
  have "\<exists>m2 c. kvtree_merge_mem malloc (Some n) (root_opt v) m1 = Some (m2, KVTREE_SUCCESS) \<and> heap_tree m2 c \<and> root c = n \<and>
      snd (kvtree_merge (Some kvtree_new) (map_option erase v)) = Some (erase c) \<and> changes m {} m2 (set (addrs c))"
  proof (cases v)
    case None
    then show ?thesis using m1 by (intro exI [of _ m1] exI [of _ "ATree n []"]) (simp add: kvtree_merge_mem_def kvtree_new_def)
  next
    case (Some w)
    have w: "laid m w" "distinct (addrs w)" "set (addrs w) \<subseteq> dom m" using assms(4) [OF Some] laid_alive(1) [of m w] by (simp_all add: heap_tree_def)
    have "laid m1 w" by (rule keep(1) [OF w(1)]) (use changes_kept [OF m1(3)] w(3) in blast)
    then have "heap_tree m1 w" "set (addrs (ATree n [])) \<inter> set (addrs w) = {}"
      using w(2) changes_fresh [OF m1(3) w(3)] by (auto simp: heap_tree_def)
    from merge_laid [OF m1(2) this assms(2) m1(4)] obtain m2 c where "kvtree_merge_mem malloc (Some n) (Some (root w)) m1 = Some (m2, KVTREE_SUCCESS)"
      "heap_tree m2 c" "root c = n" "kvtree_merge (Some kvtree_new) (Some (erase w)) = (KVTREE_SUCCESS, Some (erase c))" "changes m1 {n} m2 (set (addrs c))"
      by (auto simp: kvtree_new_def)
    then show ?thesis using changes_trans [OF m1(3)] Some by auto
  qed
  then obtain m2 c where c: "kvtree_merge_mem malloc (Some n) (root_opt v) m1 = Some (m2, KVTREE_SUCCESS)" "heap_tree m2 c" "root c = n"
    "snd (kvtree_merge (Some kvtree_new) (map_option erase v)) = Some (erase c)" "changes m {} m2 (set (addrs c))" by blast
  from adopt [OF assms(1) c(5,2) assms(2,3), of k] c(3) obtain m3 u' a s where m3:
    "kvtree_set_mem malloc (Some (root u)) (Some k) (Some n) m2 = Some (m3, Some n)" "heap_tree m3 u'" "root u' = root u"
    "aelems u' = AElem a s k (Some c) # drop_first (keyed k) (aelems u)" "changes m (set (addrs u)) m3 (set (addrs u'))" by auto
  then show ?thesis using m1(1) c(1,4) erase_set [OF m3(4)] by (intro exI [of _ m3] exI [of _ u']) simp
qed

lemma extract_delete_laid:
  assumes "heap_tree m u"
  shows "\<exists>m' u'. do { (m, v) \<leftarrow> kvtree_extract_mem (Some (root u)) (Some k) m; kvtree_delete_mem v m } = Some m' \<and> heap_tree m' u' \<and> root u' = root u \<and>
    snd (kvtree_extract (Some (erase u)) (Some k)) = Some (erase u') \<and> changes m (set (addrs u)) m' (set (addrs u'))"
proof -
  from extract_laid [OF assms, of k] obtain m1 u' v where m1: "kvtree_extract_mem (Some (root u)) (Some k) m = Some (m1, root_opt v)"
    "heap_tree m1 u'" "root u' = root u" "laid_opt m1 v" "distinct (addrs u' @ addrs_opt v)"
    "kvtree_extract (Some (erase u)) (Some k) = (map_option erase v, Some (erase u'))" "changes m (set (addrs u)) m1 (set (addrs u') \<union> set (addrs_opt v))" by blast
  let ?m = "m1 |` (- set (addrs_opt v))"
  have "kvtree_delete_mem (root_opt v) m1 = Some ?m" by (rule delete_laid(3) [OF m1(4)]) (use m1(5) in simp)
  moreover have u': "laid m1 u'" "distinct (addrs u')" using m1(2) by (simp_all add: heap_tree_def)
  have "laid ?m u'" by (rule keep(1) [OF u'(1)]) (use m1(5) in \<open>auto simp: restrict_map_def\<close>)
  moreover have "changes m1 (set (addrs_opt v) \<union> set (addrs u')) ?m (set (addrs u'))"
    by (rule changes_drop) (use m1(5) laid_alive(1) [OF u'(1)] laid_alive(3) [OF m1(4)] in auto)
  then have "changes m (set (addrs u)) ?m (set (addrs u'))" using changes_trans [OF m1(7)] by (simp add: Un_commute)
  ultimately show ?thesis using m1(1,3,6) u'(2) by (auto simp: heap_tree_def)
qed

lemma null_mem:
  "kvtree_unset_mem None key m = Some (m, KVTREE_SUCCESS)" "kvtree_unset_all_mem None m = Some (m, KVTREE_SUCCESS)"
  "kvtree_extract_mem None key m = Some (m, None)" "kvtree_delete_mem None m = Some m"
  by (simp_all add: kvtree_unset_mem_def kvtree_unset_all_mem_def unset_all_loop.simps kvtree_extract_mem_def kvtree_delete_mem.simps)

lemma changes_undo: "changes m {} m' B \<Longrightarrow> m' |` (- B) = m"
proof (rule ext)
  fix x assume c: "changes m {} m' B"
  show "(m' |` (- B)) x = m x"
  proof (cases "x \<in> dom m")
    case True
    then show ?thesis using c by (auto simp: changes_def restrict_map_def)
  next
    case False
    then have "x \<in> B \<or> x \<notin> dom m'" using c by (auto simp: changes_def)
    with False show ?thesis by (auto simp: restrict_map_def domIff)
  qed
qed

lemma run_op_laid:
  assumes "heap_tree m t" and "malloc_ok malloc" and "finite (dom m)"
  shows "\<exists>m' t'. run_op malloc (root t) op m = Some m' \<and> heap_tree m' t' \<and> root t' = root t \<and>
    spec_op op (Some (erase t)) = Some (erase t') \<and> changes m (set (addrs t)) m' (set (addrs t'))"
proof (cases op)
  case (Op_set p k)
  let ?g = "\<lambda>d. case d of None \<Rightarrow> Some m
    | Some _ \<Rightarrow> do { (m, n) \<leftarrow> kvtree_new_mem malloc m; map_option fst (kvtree_set_mem malloc d (Some k) (Some n) m) }"
  show ?thesis unfolding Op_set run_op.simps spec_op.simps
    by (rule at_place_laid [OF assms(1), of ?g]) (use set_new_laid [OF _ assms(2,3)] in simp_all)
next
  case (Op_copy q p k)
  from walk_laid [OF assms(1), of q] obtain v where v: "walk (Some (root t)) q m = Some (root_opt v)"
    "kvtree_lookup (Some (erase t)) q = map_option erase v" "\<And>w. v = Some w \<Longrightarrow> heap_tree m w" unfolding grafts_def by blast
  let ?g = "\<lambda>d. case d of None \<Rightarrow> Some m
    | Some _ \<Rightarrow> do { (m, n) \<leftarrow> kvtree_new_mem malloc m; (m, _) \<leftarrow> kvtree_merge_mem malloc (Some n) (root_opt v) m;
        map_option fst (kvtree_set_mem malloc d (Some k) (Some n) m) }"
  show ?thesis unfolding Op_copy run_op.simps spec_op.simps v(1,2) Option.bind.simps
    by (rule at_place_laid [OF assms(1), of ?g]) (use set_copy_laid [OF _ assms(2,3) v(3)] in simp_all)
next
  case (Op_unset p k)
  let ?g = "\<lambda>d. map_option fst (kvtree_unset_mem d (Some k) m)"
  show ?thesis unfolding Op_unset run_op.simps spec_op.simps
    by (rule at_place_laid [OF assms(1), of ?g]) (use unset_laid [of m _ k] in \<open>fastforce simp: null_mem\<close>)+
next
  case (Op_extract p k)
  let ?g = "\<lambda>d. do { (m, v) \<leftarrow> kvtree_extract_mem d (Some k) m; kvtree_delete_mem v m }"
  show ?thesis unfolding Op_extract run_op.simps spec_op.simps
    by (rule at_place_laid [OF assms(1), of ?g]) (use extract_delete_laid in \<open>simp_all add: null_mem\<close>)
next
  case (Op_clear p)
  let ?g = "\<lambda>d. map_option fst (kvtree_unset_all_mem d m)"
  show ?thesis unfolding Op_clear run_op.simps spec_op.simps
    by (rule at_place_laid [OF assms(1), of ?g])
      (use unset_all_laid [of m] in \<open>fastforce simp: null_mem\<close>)+
qed

lemma run_ops_laid:
  assumes "malloc_ok malloc"
  shows "heap_tree m t \<Longrightarrow> finite (dom m) \<Longrightarrow>
    \<exists>m' t'. run_ops malloc (root t) ops m = Some m' \<and> heap_tree m' t' \<and> root t' = root t \<and>
      fold spec_op ops (Some (erase t)) = Some (erase t') \<and> changes m (set (addrs t)) m' (set (addrs t'))"
proof (induction ops arbitrary: m t)
  case Nil
  then have "changes m (set (addrs t)) m (set (addrs t))" using laid_alive(1) [of m t] by (auto simp: heap_tree_def changes_def)
  with Nil show ?case by auto
next
  case (Cons op ops)
  from run_op_laid [OF Cons.prems(1) assms Cons.prems(2), of op] obtain m1 t1 where m1: "run_op malloc (root t) op m = Some m1" "heap_tree m1 t1"
    "root t1 = root t" "spec_op op (Some (erase t)) = Some (erase t1)" "changes m (set (addrs t)) m1 (set (addrs t1))" by blast
  from Cons.IH [OF m1(2) changes_finite [OF m1(5) Cons.prems(2)]] obtain m2 t2 where m2: "run_ops malloc (root t1) ops m1 = Some m2" "heap_tree m2 t2"
    "root t2 = root t1" "fold spec_op ops (Some (erase t1)) = Some (erase t2)" "changes m1 (set (addrs t1)) m2 (set (addrs t2))" by blast
  have "changes m (set (addrs t)) m2 (set (addrs t2))" using m1(5) m2(5) by (rule changes_trans)
  then show ?case using m1(1,3,4) m2(1-4) by (intro exI [of _ m2] exI [of _ t2]) simp
qed

section \<open>Properties\<close>

text \<open>C3. The memory of a program that creates a tree and updates it by any sequence of operations, at any place: no
  operation touches memory that is not allocated, the memory holds at every moment the tree that the same operations compute on
  values, on linked lists with correct links in both directions, nothing else of the memory has changed, every cell that was allocated
  belongs to the tree, and \<open>kvtree_delete\<close> gives back exactly the memory from before.\<close>

theorem memory_runs:
  assumes "malloc_ok malloc" and "finite (dom m)"
  shows "\<exists>m1 h m2 t. kvtree_new_mem malloc m = Some (m1, h) \<and> run_ops malloc h ops m1 = Some m2 \<and> heap_tree m2 t \<and> root t = h \<and>
    fold spec_op ops (Some kvtree_new) = Some (erase t) \<and> changes m {} m2 (set (addrs t)) \<and>
    kvtree_delete_mem (Some h) m2 = Some m"
proof -
  from new_laid [OF assms] obtain m1 h where m1: "kvtree_new_mem malloc m = Some (m1, h)" "heap_tree m1 (ATree h [])"
    "changes m {} m1 {h}" "finite (dom m1)" by blast
  from run_ops_laid [OF assms(1) m1(2,4), of ops] obtain m2 t where m2: "run_ops malloc h ops m1 = Some m2" "heap_tree m2 t" "root t = h"
    "fold spec_op ops (Some kvtree_new) = Some (erase t)" "changes m1 {h} m2 (set (addrs t))" by (auto simp: kvtree_new_def)
  have c: "changes m {} m2 (set (addrs t))" using m1(3) m2(5) by (rule changes_trans)
  then have "m2 |` (- set (addrs t)) = m" by (rule changes_undo)
  moreover have "kvtree_delete_mem (Some (root t)) m2 = Some (m2 |` (- set (addrs t)))"
    using m2(2) by (intro delete_laid) (simp_all add: heap_tree_def)
  ultimately show ?thesis using m1(1) m2(1-4) c by auto
qed

definition first_free :: malloc where
  "first_free m = Some (LEAST a. m a = None, \<lparr>c_key = None, c_hash = None, le_next = Some 0, le_prev = Lh_first 0\<rparr>)"

lemma first_free_ok: "malloc_ok first_free"
  unfolding malloc_ok_def first_free_def
proof (intro allI impI)
  fix m :: mem assume "finite (dom m)"
  then obtain a where "a \<notin> dom m" using ex_new_if_finite infinite_UNIV_nat by blast
  then have "m (LEAST a. m a = None) = None" by (intro LeastI [of "\<lambda>a. m a = None" a]) (simp add: domIff)
  then show "\<exists>a c. Some (LEAST a. m a = None, \<lparr>c_key = None, c_hash = None, le_next = Some 0, le_prev = Lh_first 0\<rparr>) = Some (a, c) \<and> m a = None"
    by blast
qed

theorem memory_runs_witness:
  "\<exists>m1 h m2 t. kvtree_new_mem first_free [7 \<mapsto> Str_cell ''x''] = Some (m1, h) \<and>
    run_ops first_free h [Op_set [] ''a'', Op_set [''a''] ''b'', Op_copy [''a''] [] ''c'', Op_unset [] ''a''] m1 = Some m2 \<and> heap_tree m2 t \<and> root t = h \<and>
    erase t = Kvtree [Kvtree_elem (Some ''c'') (Some (Kvtree [Kvtree_elem (Some ''b'') (Some (Kvtree []))]))] \<and>
    changes [7 \<mapsto> Str_cell ''x''] {} m2 (set (addrs t)) \<and> kvtree_delete_mem (Some h) m2 = Some [7 \<mapsto> Str_cell ''x'']"
proof -
  have "fold spec_op [Op_set [] ''a'', Op_set [''a''] ''b'', Op_copy [''a''] [] ''c'', Op_unset [] ''a''] (Some kvtree_new) =
      Some (Kvtree [Kvtree_elem (Some ''c'') (Some (Kvtree [Kvtree_elem (Some ''b'') (Some (Kvtree []))]))])" by code_simp
  then show ?thesis
    using memory_runs [OF first_free_ok, of "[7 \<mapsto> Str_cell ''x'']"
      "[Op_set [] ''a'', Op_set [''a''] ''b'', Op_copy [''a''] [] ''c'', Op_unset [] ''a'']"] by auto
qed

text \<open>C8. Merging in memory: with two trees that share no cell, \<open>kvtree_merge\<close> ends with \<open>KVTREE_SUCCESS\<close>, leaves the tree that
  the merge of the values computes at the place of the first, and changes nothing else, so the second tree is as it was and
  shares no cell with the result.\<close>

theorem merge_in_memory:
  assumes "heap_tree m t" and "heap_tree m u" and "set (addrs t) \<inter> set (addrs u) = {}" and "malloc_ok malloc" and "finite (dom m)"
  shows "\<exists>m' t'. kvtree_merge_mem malloc (Some (root t)) (Some (root u)) m = Some (m', KVTREE_SUCCESS) \<and> heap_tree m' t' \<and> root t' = root t \<and>
    kvtree_merge (Some (erase t)) (Some (erase u)) = (KVTREE_SUCCESS, Some (erase t')) \<and> changes m (set (addrs t)) m' (set (addrs t')) \<and>
    heap_tree m' u \<and> set (addrs t') \<inter> set (addrs u) = {}"
proof -
  from merge_laid [OF assms] obtain m' t' where m': "kvtree_merge_mem malloc (Some (root t)) (Some (root u)) m = Some (m', KVTREE_SUCCESS)"
    "heap_tree m' t'" "root t' = root t" "kvtree_merge (Some (erase t)) (Some (erase u)) = (KVTREE_SUCCESS, Some (erase t'))"
    "changes m (set (addrs t)) m' (set (addrs t'))" by blast
  have u: "laid m u" "distinct (addrs u)" "set (addrs u) \<subseteq> dom m" "set (addrs u) \<inter> set (addrs t) = {}"
    using assms(2,3) laid_alive(1) [of m u] by (auto simp: heap_tree_def)
  have "laid m' u" by (rule keep(1) [OF u(1)]) (use changes_kept [OF m'(5)] u(3,4) in blast)
  moreover have "set (addrs t') \<inter> set (addrs u) = {}" using changes_fresh [OF m'(5) u(3,4)] by blast
  ultimately show ?thesis using m' u(2) by (intro exI [of _ m'] exI [of _ t']) (simp add: heap_tree_def)
qed

text \<open>Two trees: an empty one, and one with a single key.\<close>

definition two_trees :: mem where
  "two_trees = [0 \<mapsto> Hash_cell None, 1 \<mapsto> Hash_cell (Some 2),
     2 \<mapsto> Elem_cell \<lparr>c_key = Some 3, c_hash = None, le_next = None, le_prev = Lh_first 1\<rparr>, 3 \<mapsto> Str_cell ''k'']"

theorem merge_in_memory_witness:
  "\<exists>m' t'. kvtree_merge_mem first_free (Some 0) (Some 1) two_trees = Some (m', KVTREE_SUCCESS) \<and> heap_tree m' t' \<and> root t' = 0 \<and>
    erase t' = Kvtree [Kvtree_elem (Some ''k'') (Some (Kvtree []))] \<and> heap_tree m' (ATree 1 [AElem 2 3 ''k'' None])"
proof -
  have "heap_tree two_trees (ATree 0 [])" "heap_tree two_trees (ATree 1 [AElem 2 3 ''k'' None])" by (simp_all add: heap_tree_def two_trees_def)
  moreover have "set (addrs (ATree 0 [])) \<inter> set (addrs (ATree 1 [AElem 2 3 ''k'' None])) = {}" "finite (dom two_trees)"
    by (simp_all add: two_trees_def)
  moreover have "kvtree_merge (Some (Kvtree [])) (Some (Kvtree [Kvtree_elem (Some ''k'') None])) =
      (KVTREE_SUCCESS, Some (Kvtree [Kvtree_elem (Some ''k'') (Some (Kvtree []))]))" by code_simp
  ultimately show ?thesis
    using merge_in_memory [of two_trees "ATree 0 []" "ATree 1 [AElem 2 3 ''k'' None]" first_free] first_free_ok by auto
qed

end
