(* ===== verification/KV_Print.thy ===== *)
theory KV_Print
  imports KV_File
begin

text \<open>
  Printing: the messages of \<open>src/kvtree_err.c\<close>, the functions of \<open>src/kvtree.c\<close> that print and log a tree, and the
  command line tool of \<open>src/kvtree_print.c\<close>. A function returns the text it writes; \<open>None\<close> stands for a write outside
  the buffer for the indentation, or for the undefined \<open>%s\<close> of a NULL pointer.
\<close>

section \<open>Messages\<close>

text \<open>The text \<open>msg\<close> is what \<open>vfprintf\<close> makes of the format and the arguments; the name of the host is a
  parameter.\<close>

definition KVTREE_VERSION :: string where "KVTREE_VERSION = ''1.5.0''"

abbreviation nl :: string where "nl \<equiv> [CHR 0x0A]"

definition kvtree_err :: "string \<Rightarrow> string \<Rightarrow> string" where
  "kvtree_err hostname msg = ''KVTree '' @ KVTREE_VERSION @ '' ERROR: '' @ hostname @ '': '' @ msg @ nl"

definition kvtree_warn :: "string \<Rightarrow> string \<Rightarrow> string" where
  "kvtree_warn hostname msg = ''KVTree '' @ KVTREE_VERSION @ '' WARNING: '' @ hostname @ '': '' @ msg @ nl"

text \<open>The test of the level is commented out in the code.\<close>

definition kvtree_dbg :: "string \<Rightarrow> int \<Rightarrow> string \<Rightarrow> string" where
  "kvtree_dbg hostname level msg = ''KVTree '' @ KVTREE_VERSION @ '': '' @ hostname @ '': '' @ msg @ nl"

text \<open>What goes to \<open>stderr\<close>, and the exit status.\<close>

definition kvtree_abort :: "string \<Rightarrow> int \<Rightarrow> string \<Rightarrow> string \<times> int" where
  "kvtree_abort hostname rc msg = (''KVTree '' @ KVTREE_VERSION @ '' ABORT: '' @ hostname @ '': '' @ msg @ nl, rc)"

section \<open>Trees\<close>

definition KVTREE_MAX_FILENAME :: int where "KVTREE_MAX_FILENAME = 1024"
definition KVTREE_PRINT_TREE :: int where "KVTREE_PRINT_TREE = 1"
definition KVTREE_PRINT_KEYVAL :: int where "KVTREE_PRINT_KEYVAL = 2"

lemmas print_consts = KVTREE_MAX_FILENAME_def KVTREE_PRINT_TREE_def KVTREE_PRINT_KEYVAL_def

text \<open>The loop that fills \<open>tmp\<close> with spaces and the terminating NUL behind them.\<close>

definition fill_tmp :: "int \<Rightarrow> string option" where
  "fill_tmp indent = (if 0 \<le> indent \<and> indent < KVTREE_MAX_FILENAME then Some (replicate (nat indent) CHR '' '') else None)"

fun kvtree_print_mode :: "kvtree option \<Rightarrow> int \<Rightarrow> int \<Rightarrow> (int \<times> string) option"
  and print_elems :: "kvtree_elem list \<Rightarrow> int \<Rightarrow> int \<Rightarrow> string option"
  and kvtree_elem_print :: "kvtree_elem option \<Rightarrow> int \<Rightarrow> int \<Rightarrow> (int \<times> string) option" where
  "kvtree_print_mode None indent mode = do { tmp \<leftarrow> fill_tmp indent; Some (KVTREE_SUCCESS, tmp @ ''NULL LIST'' @ nl) }"
| "kvtree_print_mode (Some (Kvtree es)) indent mode =
     do { tmp \<leftarrow> fill_tmp indent; out \<leftarrow> print_elems es (indent + 2) mode; Some (KVTREE_SUCCESS, out) }"
| "print_elems [] indent mode = Some []"
| "print_elems (elem # es) indent mode =
     do { (_, out) \<leftarrow> kvtree_elem_print (Some elem) indent mode; rest \<leftarrow> print_elems es indent mode; Some (out @ rest) }"
| "kvtree_elem_print None indent mode =
     do {
       tmp \<leftarrow> fill_tmp indent;
       Some (KVTREE_SUCCESS, if mode = KVTREE_PRINT_TREE \<or> mode = KVTREE_PRINT_KEYVAL then tmp @ ''NULL ELEMENT'' @ nl else [])
     }"
| "kvtree_elem_print (Some (Kvtree_elem key hash)) indent mode =
     do {
       tmp \<leftarrow> fill_tmp indent;
       if mode = KVTREE_PRINT_TREE then
         do {
           (_, out) \<leftarrow> kvtree_print_mode hash indent mode;
           Some (KVTREE_SUCCESS, tmp @ (case key of Some k \<Rightarrow> k | None \<Rightarrow> ''NULL KEY'') @ nl @ out)
         }
       else if mode = KVTREE_PRINT_KEYVAL then
         (case key of
            None \<Rightarrow>
              do { (_, out) \<leftarrow> kvtree_print_mode hash indent mode; Some (KVTREE_SUCCESS, tmp @ ''NULL KEY'' @ nl @ out) }
          | Some k \<Rightarrow>
              (let elem2 = kvtree_elem_first hash in
               if kvtree_size hash = 1 \<and> (kvtree_elem_hash elem2 = None \<or> kvtree_size (kvtree_elem_hash elem2) = 0) then
                 do { v \<leftarrow> kvtree_elem_key elem2; Some (KVTREE_SUCCESS, tmp @ k @ '' = '' @ v @ nl) }
               else
                 do { (_, out) \<leftarrow> kvtree_print_mode hash indent mode; Some (KVTREE_SUCCESS, tmp @ k @ nl @ out) }))
       else Some (KVTREE_SUCCESS, [])
     }"

definition kvtree_print :: "kvtree option \<Rightarrow> int \<Rightarrow> (int \<times> string) option" where
  "kvtree_print hash indent = kvtree_print_mode hash indent KVTREE_PRINT_TREE"

fun kvtree_log :: "string \<Rightarrow> kvtree option \<Rightarrow> int \<Rightarrow> int \<Rightarrow> (int \<times> string) option"
  and log_elems :: "string \<Rightarrow> kvtree_elem list \<Rightarrow> int \<Rightarrow> int \<Rightarrow> string option"
  and kvtree_elem_log :: "string \<Rightarrow> kvtree_elem option \<Rightarrow> int \<Rightarrow> int \<Rightarrow> (int \<times> string) option" where
  "kvtree_log hostname None log_level indent =
     do { tmp \<leftarrow> fill_tmp indent; Some (KVTREE_SUCCESS, kvtree_dbg hostname log_level (tmp @ ''NULL LIST'' @ nl)) }"
| "kvtree_log hostname (Some (Kvtree es)) log_level indent =
     do { tmp \<leftarrow> fill_tmp indent; out \<leftarrow> log_elems hostname es log_level (indent + 2); Some (KVTREE_SUCCESS, out) }"
| "log_elems hostname [] log_level indent = Some []"
| "log_elems hostname (elem # es) log_level indent =
     do {
       (_, out) \<leftarrow> kvtree_elem_log hostname (Some elem) log_level indent;
       rest \<leftarrow> log_elems hostname es log_level indent;
       Some (out @ rest)
     }"
| "kvtree_elem_log hostname None log_level indent =
     do { tmp \<leftarrow> fill_tmp indent; Some (KVTREE_SUCCESS, kvtree_dbg hostname log_level (tmp @ ''NULL ELEMENT'' @ nl)) }"
| "kvtree_elem_log hostname (Some (Kvtree_elem key hash)) log_level indent =
     do {
       tmp \<leftarrow> fill_tmp indent;
       (_, out) \<leftarrow> kvtree_log hostname hash log_level indent;
       Some (KVTREE_SUCCESS, kvtree_dbg hostname log_level (tmp @ (case key of Some k \<Rightarrow> k | None \<Rightarrow> ''NULL KEY'') @ nl) @ out)
     }"

section \<open>The command line tool\<close>

text \<open>The options as \<open>getopt_long\<close> reports them one after the other: \<open>-m\<close> with its argument, \<open>-h\<close>, or anything else with the
  word it stood in. The function itself is a parameter: it maps the arguments to the options and to the words left over.\<close>

datatype cli_option = Mode_option string | Help_option | Unknown_option string

definition print_usage :: string where
  "print_usage = nl @ ''Usage: kvtree_print [options] <file>'' @ nl @ nl @ ''  Options:'' @ nl @
     ''    -m, --mode <mode>  Specify print format: \"tree\" or \"keyval\" (default tree)'' @ nl @
     ''    -h, --help         Print usage'' @ nl @ nl"

text \<open>The variables of \<open>main\<close> that the loop over the options sets: \<open>rc\<close>, \<open>usage\<close>, \<open>mode\<close>, and what was printed.\<close>

fun option_loop :: "cli_option list \<Rightarrow> int \<times> bool \<times> cstr \<times> string \<Rightarrow> int \<times> bool \<times> cstr \<times> string" where
  "option_loop [] s = s"
| "option_loop (Mode_option optarg # os) (rc, usage, mode, out) = option_loop os (rc, usage, Some optarg, out)"
| "option_loop (Help_option # os) (rc, usage, mode, out) = option_loop os (rc, True, mode, out)"
| "option_loop (Unknown_option arg # os) (rc, usage, mode, out) =
     option_loop os (1, True, mode, out @ ''ERROR: Unknown option: `'' @ arg @ [CHR 0x27] @ nl)"

definition print_mode_of :: "cstr \<Rightarrow> int option" where
  "print_mode_of mode =
     (case mode of
        None \<Rightarrow> Some KVTREE_PRINT_TREE
      | Some m \<Rightarrow> if m = ''tree'' then Some KVTREE_PRINT_TREE else if m = ''keyval'' then Some KVTREE_PRINT_KEYVAL else None)"

definition kvtree_print_main ::
  "endian \<Rightarrow> crc \<Rightarrow> (string list \<Rightarrow> cli_option list \<times> string list) \<Rightarrow> os \<Rightarrow> string list \<Rightarrow> (os \<times> int \<times> string) option" where
  "kvtree_print_main e crc32 getopt_long os argv =
     (let (opts, words) = getopt_long argv;
          (rc, usage, mode, out) = option_loop opts (0, False, None, []);
          (rc, usage, out) =
            (if \<not> usage \<and> length words \<noteq> 1 then (1, True, out @ ''ERROR: Missing file name or too many files'' @ nl)
             else (rc, usage, out));
          (rc, usage, out, print_mode) =
            (case print_mode_of mode of
               Some pm \<Rightarrow> (rc, usage, out, pm)
             | None \<Rightarrow> (1, True, out @ ''ERROR: Invalid mode name: `'' @ the mode @ [CHR 0x27] @ nl, KVTREE_PRINT_TREE))
      in if usage then Some (os, rc, out @ print_usage)
         else
           (let filename = hd words in
            do {
              (os, read_rc, hash) \<leftarrow> kvtree_read_file e crc32 os (Some filename) (Some kvtree_new);
              if read_rc = KVTREE_SUCCESS then
                do { (_, text) \<leftarrow> kvtree_print_mode hash 0 print_mode; Some (os, rc, out @ text) }
              else Some (os, 1, out @ ''ERROR: Failed to read file: `'' @ filename @ [CHR 0x27] @ nl)
            }))"

section \<open>What is printed\<close>

text \<open>The lines of a tree in the order of the elements: the indentation and the text of each.\<close>

fun outline :: "kvtree_elem list \<Rightarrow> nat \<Rightarrow> (nat \<times> string) list" where
  "outline [] i = []"
| "outline (Kvtree_elem key None # es) i =
     (i, case key of Some k \<Rightarrow> k | None \<Rightarrow> ''NULL KEY'') # (i, ''NULL LIST'') # outline es i"
| "outline (Kvtree_elem key (Some (Kvtree fs)) # es) i =
     (i, case key of Some k \<Rightarrow> k | None \<Rightarrow> ''NULL KEY'') # outline fs (i + 2) @ outline es i"

definition line :: "nat \<times> string \<Rightarrow> string" where
  "line l = replicate (fst l) CHR '' '' @ snd l @ nl"

lemma line_eq: "line (i, k) = replicate i CHR '' '' @ k @ nl"
  by (simp add: line_def)

definition in_width :: "(nat \<times> string) list \<Rightarrow> bool" where
  "in_width ls \<longleftrightarrow> (\<forall>l \<in> set ls. fst l < 1024)"

lemma in_width_simps [simp]: "in_width []" "in_width (l # ls) \<longleftrightarrow> fst l < 1024 \<and> in_width ls" "in_width (ls @ ls') \<longleftrightarrow> in_width ls \<and> in_width ls'"
  by (auto simp: in_width_def)

lemma fill_tmp_eq: "fill_tmp (int i) = (if i < 1024 then Some (replicate i CHR '' '') else None)"
  by (simp add: fill_tmp_def KVTREE_MAX_FILENAME_def)

lemma print_elems_eq:
  "print_elems es (int i) KVTREE_PRINT_TREE = (if in_width (outline es i) then Some (concat (map line (outline es i))) else None)"
proof (induction es i rule: outline.induct)
  case (3 key fs es i)
  have "print_elems fs (int i + 2) KVTREE_PRINT_TREE =
      (if in_width (outline fs (i + 2)) then Some (concat (map line (outline fs (i + 2)))) else None)" using 3(1) by (simp add: add.commute)
  with 3(2) show ?case by (simp add: fill_tmp_eq line_eq)
qed (simp_all add: fill_tmp_eq line_eq)

lemma print_eq:
  "kvtree_print (Some t) (int i) =
     (if i < 1024 \<and> in_width (outline (elems t) (i + 2)) then Some (KVTREE_SUCCESS, concat (map line (outline (elems t) (i + 2)))) else None)"
  using print_elems_eq [of "elems t" "i + 2"] by (cases t) (simp add: kvtree_print_def fill_tmp_eq add.commute)

text \<open>All keys of a list of elements, at every level, are strings with a property.\<close>

fun keys_ok :: "(string \<Rightarrow> bool) \<Rightarrow> kvtree_elem list \<Rightarrow> bool" where
  "keys_ok P [] \<longleftrightarrow> True"
| "keys_ok P (Kvtree_elem key None # es) \<longleftrightarrow> (\<exists>k. key = Some k \<and> P k) \<and> keys_ok P es"
| "keys_ok P (Kvtree_elem key (Some (Kvtree fs)) # es) \<longleftrightarrow> (\<exists>k. key = Some k \<and> P k) \<and> keys_ok P fs \<and> keys_ok P es"

lemma keys_okI:
  assumes "kvtree_wf (Kvtree es)" and "\<forall>p \<in> kvtree_paths (Kvtree es). \<forall>k \<in> set p. P k"
  shows "keys_ok P es"
  using assms
proof (induction P es rule: keys_ok.induct)
  case (2 P key es)
  then obtain k where k: "key = Some k" "kvtree_wf (Kvtree es)" by (auto simp: kvtree_wf_iff elem_wf.simps split: option.splits)
  have "P k" "\<forall>p \<in> kvtree_paths (Kvtree es). \<forall>k \<in> set p. P k"
    using 2(3) unfolding k(1) paths_insert_head by (simp_all del: kvtree_paths.simps)
  then show ?case using 2(1) k by simp
next
  case (3 P key fs es)
  then obtain k where k: "key = Some k" "kvtree_wf (Kvtree fs)" "kvtree_wf (Kvtree es)" by (auto simp: kvtree_wf_iff elem_wf.simps split: option.splits)
  have "\<forall>p \<in> kvtree_paths (Kvtree fs). P k \<and> (\<forall>k \<in> set p. P k)" "\<forall>p \<in> kvtree_paths (Kvtree es). \<forall>k \<in> set p. P k"
    using 3(4) unfolding k(1) paths_insert_head by (simp_all add: ball_Un del: kvtree_paths.simps)
  moreover from this(1) have "P k" using Nil_in_paths(1) by blast
  ultimately have "P k" "\<forall>p \<in> kvtree_paths (Kvtree fs). \<forall>k \<in> set p. P k" "\<forall>p \<in> kvtree_paths (Kvtree es). \<forall>k \<in> set p. P k" by blast+
  then show ?case using 3(1,2) k by simp
qed simp

lemma in_width_outline:
  assumes "keys_ok P es"
  shows "in_width (outline es i) \<longleftrightarrow> (\<forall>p \<in> kvtree_paths (Kvtree es). p \<noteq> [] \<longrightarrow> i + 2 * length p < 1026)"
  using assms
proof (induction es i rule: outline.induct)
  case (2 key es i)
  then obtain k where k: "key = Some k" "keys_ok P es" by auto
  have p: "kvtree_paths (Kvtree (Kvtree_elem key None # es)) = insert [k] (kvtree_paths (Kvtree es))"
    using paths_insert_head [of k None es] by (simp add: k(1) del: kvtree_paths.simps)
  show ?case using 2(1) k(2) unfolding p by (auto simp del: kvtree_paths.simps)
next
  case (3 key fs es i)
  then obtain k where k: "key = Some k" "keys_ok P fs" "keys_ok P es" by auto
  have p: "kvtree_paths (Kvtree (Kvtree_elem key (Some (Kvtree fs)) # es)) = (#) k ` kvtree_paths (Kvtree fs) \<union> kvtree_paths (Kvtree es)"
    using paths_insert_head [of k "Some (Kvtree fs)" es] by (simp add: k(1) del: kvtree_paths.simps)
  have "i < 1024 \<and> in_width (outline fs (i + 2)) \<longleftrightarrow> (\<forall>q \<in> kvtree_paths (Kvtree fs). i + 2 * length (k # q) < 1026)"
  proof
    assume "i < 1024 \<and> in_width (outline fs (i + 2))"
    then have i: "i < 1024" and d: "\<forall>q \<in> kvtree_paths (Kvtree fs). q \<noteq> [] \<longrightarrow> i + 2 + 2 * length q < 1026" using 3(1) k(2) by blast+
    show "\<forall>q \<in> kvtree_paths (Kvtree fs). i + 2 * length (k # q) < 1026"
    proof
      fix q assume "q \<in> kvtree_paths (Kvtree fs)"
      with d i show "i + 2 * length (k # q) < 1026" by (cases "q = []") auto
    qed
  next
    assume r: "\<forall>q \<in> kvtree_paths (Kvtree fs). i + 2 * length (k # q) < 1026"
    then have "\<forall>q \<in> kvtree_paths (Kvtree fs). q \<noteq> [] \<longrightarrow> i + 2 + 2 * length q < 1026" by (simp del: kvtree_paths.simps)
    moreover have "i < 1024" using bspec [OF r Nil_in_paths(1)] by simp
    ultimately show "i < 1024 \<and> in_width (outline fs (i + 2))" using 3(1) k(2) by blast
  qed
  then show ?case using 3(2) k(3) unfolding p by (auto simp del: kvtree_paths.simps)
qed (simp add: kvtree_paths.simps)

section \<open>The text determines the tree\<close>

definition printable :: "string \<Rightarrow> bool" where
  "printable k \<longleftrightarrow> CHR 0x0A \<notin> set k \<and> (k = [] \<or> hd k \<noteq> CHR '' '') \<and> k \<noteq> ''NULL LIST''"

abbreviation low :: "nat \<Rightarrow> (nat \<times> string) list \<Rightarrow> bool" where
  "low i ls \<equiv> ls = [] \<or> fst (hd ls) < i"

lemma outline_head: "outline es i \<noteq> [] \<Longrightarrow> fst (hd (outline es i)) = i" "outline es i = [] \<longleftrightarrow> es = []"
  by (induction es i rule: outline.induct) auto

lemma outline_low: "low i r \<Longrightarrow> low (Suc (Suc i)) (outline es i @ r)"
  using outline_head [of es i] by (cases "outline es i") auto

lemma outline_not_null:
  assumes "keys_ok printable es" and "keys_ok printable fs" and "low i r"
  shows "outline fs (Suc (Suc i)) @ outline es i @ r \<noteq> (i, ''NULL LIST'') # x"
proof (cases fs)
  case Nil
  then show ?thesis using assms(1,3) by (cases "(es, i)" rule: outline.cases) (auto simp: printable_def)
next
  case (Cons f fs')
  then show ?thesis using outline_head [of fs "Suc (Suc i)"] by (cases "outline fs (Suc (Suc i))") auto
qed

lemma outline_inj:
  assumes "outline es i @ r = outline es' i @ r'" and "keys_ok printable es" and "keys_ok printable es'" and "low i r" and "low i r'"
  shows "es = es' \<and> r = r'"
  using assms
proof (induction es i arbitrary: es' r r' rule: outline.induct)
  case (1 i)
  then show ?case using outline_head [of es' i] by (cases "outline es' i") auto
next
  case (2 key es i)
  show ?case
  proof (cases "(es', i)" rule: outline.cases)
    case 1
    then show ?thesis using 2(2,6) by auto
  next
    case inner: (2 key' es1 i')
    then have "outline es i @ r = outline es1 i @ r'" "key = key'" "keys_ok printable es" "keys_ok printable es1" using 2(2-4) by auto
    then show ?thesis using 2(1) [of r es1 r'] 2(5,6) inner by simp
  next
    case inner: (3 key' fs' es1 i')
    then show ?thesis using 2(2-6) outline_not_null [where es = es1 and fs = fs' and i = i and r = r' and x = "outline es i @ r"] by auto
  qed
next
  case (3 key fs es i)
  show ?case
  proof (cases "(es', i)" rule: outline.cases)
    case 1
    then show ?thesis using 3(3,7) by auto
  next
    case inner: (2 key' es1 i')
    then show ?thesis using 3(3-7) outline_not_null [where es = es and fs = fs and i = i and r = r and x = "outline es1 i @ r'"] by auto
  next
    case inner: (3 key' fs' es1 i')
    then have eq: "outline fs (i + 2) @ (outline es i @ r) = outline fs' (i + 2) @ (outline es1 i @ r')" and key: "key = key'"
      and ok: "keys_ok printable fs" "keys_ok printable es" "keys_ok printable fs'" "keys_ok printable es1" using 3(3-5) by auto
    have low: "low (i + 2) (outline es i @ r)" "low (i + 2) (outline es1 i @ r')"
      using outline_low [OF 3(6), of es] outline_low [OF 3(7), of es1] by simp_all
    from 3(1) [OF eq ok(1,3) low] have sub: "fs = fs'" "outline es i @ r = outline es1 i @ r'" by simp_all
    from 3(2) [OF sub(2) ok(2,4) 3(6,7)] show ?thesis using inner key sub(1) by simp
  qed
qed

lemma split_at: "xs @ c # r = ys @ c # s \<Longrightarrow> c \<notin> set xs \<Longrightarrow> c \<notin> set ys \<Longrightarrow> xs = ys \<and> r = s"
proof (induction xs arbitrary: ys)
  case Nil
  then show ?case by (cases ys) auto
next
  case (Cons a xs)
  then show ?case by (cases ys) auto
qed

lemma line_inj:
  assumes "line l @ x = line l' @ x'" and "CHR 0x0A \<notin> set (snd l)" and "CHR 0x0A \<notin> set (snd l')"
    and "snd l = [] \<or> hd (snd l) \<noteq> CHR '' ''" and "snd l' = [] \<or> hd (snd l') \<noteq> CHR '' ''"
  shows "l = l' \<and> x = x'"
proof -
  let ?a = "replicate (fst l) CHR '' '' @ snd l" and ?b = "replicate (fst l') CHR '' '' @ snd l'"
  have "?a @ CHR 0x0A # x = ?b @ CHR 0x0A # x'" using assms(1) by (simp add: line_def)
  moreover have "CHR 0x0A \<notin> set ?a" "CHR 0x0A \<notin> set ?b" using assms(2,3) by auto
  ultimately have e: "?a = ?b" "x = x'" using split_at [of ?a "CHR 0x0A" x ?b x'] by simp_all
  have "takeWhile (\<lambda>c. c = CHR '' '') (replicate n CHR '' '' @ k) = replicate n CHR '' ''" if "k = [] \<or> hd k \<noteq> CHR '' ''" for n k
  proof (cases k)
    case (Cons c k')
    then show ?thesis using that by (induction n) simp_all
  qed (simp add: takeWhile_replicate)
  from this [OF assms(4), of "fst l"] this [OF assms(5), of "fst l'"] e(1) have "replicate (fst l) CHR '' '' = replicate (fst l') CHR '' ''" by simp
  then have "fst l = fst l'" by (metis length_replicate)
  with e show ?thesis by (simp add: prod_eq_iff)
qed

lemma lines_inj:
  assumes "concat (map line ls) = concat (map line ls')"
    and "\<forall>l \<in> set ls. CHR 0x0A \<notin> set (snd l) \<and> (snd l = [] \<or> hd (snd l) \<noteq> CHR '' '')"
    and "\<forall>l \<in> set ls'. CHR 0x0A \<notin> set (snd l) \<and> (snd l = [] \<or> hd (snd l) \<noteq> CHR '' '')"
  shows "ls = ls'"
  using assms
proof (induction ls arbitrary: ls')
  case Nil
  then show ?case by (cases ls') (auto simp: line_def)
next
  case (Cons l ls)
  then obtain l' ls1 where ls': "ls' = l' # ls1" by (cases ls') (auto simp: line_def)
  have "l = l' \<and> concat (map line ls) = concat (map line ls1)" by (rule line_inj) (use Cons.prems ls' in simp_all)
  then show ?case using Cons ls' by simp
qed

lemma outline_text:
  "keys_ok printable es \<Longrightarrow> l \<in> set (outline es i) \<Longrightarrow> CHR 0x0A \<notin> set (snd l) \<and> (snd l = [] \<or> hd (snd l) \<noteq> CHR '' '')"
  by (induction es i rule: outline.induct) (auto simp: printable_def)

section \<open>Both modes return\<close>

lemma print_keyval_returns:
  assumes "keys_ok P es" and "in_width (outline es i)"
  shows "\<exists>out. print_elems es (int i) KVTREE_PRINT_KEYVAL = Some out"
  using assms
proof (induction es i rule: outline.induct)
  case (2 key es i)
  then show ?case by (auto simp: fill_tmp_eq print_consts)
next
  case (3 key fs es i)
  let ?h = "Some (Kvtree fs)"
  obtain k where k: "key = Some k" using 3(3) by auto
  obtain out es_out where out: "print_elems fs (int i + 2) KVTREE_PRINT_KEYVAL = Some out" "print_elems es (int i) KVTREE_PRINT_KEYVAL = Some es_out"
    using 3 by (auto simp: add.commute)
  have v: "\<exists>v. kvtree_elem_key (kvtree_elem_first ?h) = Some v" if "kvtree_size ?h = 1"
    using that 3(3) by (cases "(P, fs)" rule: keys_ok.cases) (auto simp: kvtree_elem_first_def kvtree_elem_key_def)
  have p: "kvtree_print_mode ?h (int i) KVTREE_PRINT_KEYVAL = Some (KVTREE_SUCCESS, out)" and tmp: "fill_tmp (int i) = Some (replicate i CHR '' '')"
    using 3(4) out(1) by (simp_all add: fill_tmp_eq)
  have mode: "KVTREE_PRINT_KEYVAL \<noteq> KVTREE_PRINT_TREE" by (simp add: print_consts)
  have "\<exists>r. kvtree_elem_print (Some (Kvtree_elem key ?h)) (int i) KVTREE_PRINT_KEYVAL = Some r"
    unfolding kvtree_elem_print.simps k Let_def tmp p Option.bind.simps option.case if_True if_not_P [OF mode] case_prod_conv using v by auto
  then show ?case using out(2) by (auto simp del: kvtree_elem_print.simps)
qed simp

lemma print_mode_returns:
  assumes "kvtree_wf t" and "\<forall>p \<in> kvtree_paths t. 2 * length p < 1024" and "mode = KVTREE_PRINT_TREE \<or> mode = KVTREE_PRINT_KEYVAL"
  shows "\<exists>out. kvtree_print_mode (Some t) 0 mode = Some (KVTREE_SUCCESS, out)"
proof -
  obtain es where t: "t = Kvtree es" by (cases t)
  have ok: "keys_ok (\<lambda>_. True) es" using keys_okI [of es "\<lambda>_. True"] assms(1) t by simp
  have "in_width (outline es 2)" using in_width_outline [OF ok, of 2] assms(2) by (simp add: t)
  with print_keyval_returns [OF ok this] print_elems_eq [of es 2] assms(3) show ?thesis
    by (auto simp: t fill_tmp_def KVTREE_MAX_FILENAME_def)
qed

section \<open>Properties\<close>

text \<open>C34. \<open>kvtree_print\<close> writes its indentation inside the buffer of \<open>KVTREE_MAX_FILENAME\<close> bytes exactly when the
  starting indentation it is called with is not negative and every key, which is indented by two more
  columns for each level, is indented by less than 1024. (The second parameter is where the text
  starts, not the number of columns for each level, which is always two.)\<close>

theorem print_in_buffer:
  assumes "kvtree_wf t"
  shows "(\<exists>r. kvtree_print (Some t) indent = Some r) \<longleftrightarrow>
    0 \<le> indent \<and> (\<forall>p \<in> kvtree_paths t. indent + 2 * int (length p) < KVTREE_MAX_FILENAME)"
proof (cases "0 \<le> indent")
  case True
  obtain es where t: "t = Kvtree es" by (cases t)
  obtain i where i: "indent = int i" using True nonneg_int_cases by blast
  have "keys_ok (\<lambda>_. True) es" using keys_okI [of es "\<lambda>_. True"] assms t by simp
  from in_width_outline [OF this, of "i + 2"] have "in_width (outline es (i + 2)) \<longleftrightarrow> (\<forall>p \<in> kvtree_paths t. p \<noteq> [] \<longrightarrow> i + 2 * length p < 1024)" by (simp add: t)
  then have "(i < 1024 \<and> in_width (outline es (i + 2))) \<longleftrightarrow> (\<forall>p \<in> kvtree_paths t. i + 2 * length p < 1024)"
    using Nil_in_paths(1) [of t] by (metis list.size(3) add.right_neutral mult_0_right)
  moreover have "(\<exists>r. kvtree_print (Some t) (int i) = Some r) \<longleftrightarrow> (i < 1024 \<and> in_width (outline es (i + 2)))" unfolding print_eq by (simp add: t)
  moreover have "int i + 2 * int n < 1024 \<longleftrightarrow> i + 2 * n < 1024" for n by linarith
  ultimately show ?thesis by (simp add: i KVTREE_MAX_FILENAME_def)
next
  case False
  then show ?thesis by (cases t) (simp add: kvtree_print_def fill_tmp_def)
qed

theorem print_in_buffer_witness:
  "(\<exists>r. kvtree_print (Some (Kvtree [Kvtree_elem (Some ''a'') None])) 1021 = Some r) \<and>
   \<not> (\<exists>r. kvtree_print (Some (Kvtree [Kvtree_elem (Some ''a'') None])) 1022 = Some r)"
proof -
  have "kvtree_wf (Kvtree [Kvtree_elem (Some ''a'') None])" by (simp add: kvtree_wf.simps)
  from print_in_buffer [OF this, of 1021] print_in_buffer [OF this, of 1022] show ?thesis
    by (simp add: kvtree_paths.simps KVTREE_MAX_FILENAME_def)
qed

text \<open>C18. What \<open>kvtree_print\<close> prints determines the tree, the order of its elements included, when no key has a newline in it, starts with a
  space or is the text \<open>NULL LIST\<close>.\<close>

theorem print_determines_tree:
  assumes "kvtree_wf t" and "kvtree_wf u"
    and "\<forall>p \<in> kvtree_paths t \<union> kvtree_paths u. \<forall>k \<in> set p. printable k"
    and "kvtree_print (Some t) indent = Some (rc, out)" and "kvtree_print (Some u) indent = Some (rc', out)"
  shows "t = u"
proof -
  obtain es fs where t: "t = Kvtree es" "u = Kvtree fs" by (cases t, cases u)
  have ok: "keys_ok printable es" "keys_ok printable fs"
    using keys_okI [of es printable] keys_okI [of fs printable] assms(1-3) unfolding t by blast+
  have "0 \<le> indent" using assms(4) t(1) by (auto simp: kvtree_print_def fill_tmp_def split: if_splits)
  then obtain i where i: "indent = int i" using nonneg_int_cases by blast
  have "concat (map line (outline es (i + 2))) = concat (map line (outline fs (i + 2)))"
    using assms(4,5) unfolding i print_eq t by (simp split: if_splits)
  then have "outline es (i + 2) = outline fs (i + 2)" by (rule lines_inj) (use outline_text ok in blast)+
  with outline_inj [of es "i + 2" "[]" fs "[]"] ok show ?thesis by (simp add: t)
qed

theorem print_determines_tree_witness:
  "kvtree_print (Some (Kvtree [Kvtree_elem (Some ''a'') None])) 0 \<noteq> kvtree_print (Some (Kvtree [Kvtree_elem (Some ''a'') (Some (Kvtree []))])) 0"
  using print_determines_tree [of "Kvtree [Kvtree_elem (Some ''a'') None]" "Kvtree [Kvtree_elem (Some ''a'') (Some (Kvtree []))]" 0]
  by (auto simp: kvtree_wf.simps kvtree_paths.simps printable_def print_eq kvtree_print_def fill_tmp_def print_consts)

text \<open>C17. The command line tool shows what is in a file: called with one file name and at most the option for the mode, for a file that
  \<open>kvtree_write_file\<close> wrote, it returns 0 and its output is what \<open>kvtree_print_mode\<close> prints, in the mode asked for, of a well-formed tree
  with exactly the key paths of the tree written, when no system call fails and the tree is not too deep for the buffer.\<close>

theorem print_tool_shows:
  assumes "crc32_local crc32" and "crc32_range crc32" and "kvtree_wf t" and "packable t" and "kvtree_persist_size (Some t) < 2 ^ 63"
    and "calm (os_script os)" and "\<forall>p \<in> kvtree_paths t. 2 * length p < 1024"
    and "getopt_long argv = (opts, [fname])" and "option_loop opts (0, False, None, []) = (0, False, mode, [])" and "print_mode_of mode = Some pm"
  shows "\<exists>os1 os2 u out. kvtree_write_file e crc32 os (Some fname) (Some t) = Some (os1, KVTREE_SUCCESS) \<and>
    kvtree_print_main e' crc32 getopt_long os1 argv = Some (os2, 0, out) \<and>
    kvtree_print_mode (Some u) 0 pm = Some (KVTREE_SUCCESS, out) \<and> kvtree_wf u \<and> kvtree_paths u = kvtree_paths t"
proof -
  from write_then_read [OF assms(1-3) _ assms(4-6), of kvtree_new e fname e'] obtain os1 os2 u where
    w: "kvtree_write_file e crc32 os (Some fname) (Some t) = Some (os1, KVTREE_SUCCESS)"
      "kvtree_read_file e' crc32 os1 (Some fname) (Some kvtree_new) = Some (os2, KVTREE_SUCCESS, Some u)" and
    u: "kvtree_wf u" "kvtree_paths u = kvtree_paths t" by (auto simp: insert_absorb)
  have "pm = KVTREE_PRINT_TREE \<or> pm = KVTREE_PRINT_KEYVAL" using assms(10) by (auto simp: print_mode_of_def split: option.splits if_splits)
  with print_mode_returns [of u pm] u assms(7) obtain out where out: "kvtree_print_mode (Some u) 0 pm = Some (KVTREE_SUCCESS, out)" by auto
  then have "kvtree_print_main e' crc32 getopt_long os1 argv = Some (os2, 0, out)"
    using assms(8-10) w(2) by (simp add: kvtree_print_main_def)
  then show ?thesis using w(1) out u by blast
qed

theorem print_tool_shows_witness:
  "\<exists>os1 os2 u out. kvtree_write_file Little_endian crc_ieee
      \<lparr>os_files = Map.empty, os_fds = [], os_script = [Complete, Partial 3], os_umask = 0, os_junk = \<lambda>_. 0\<rparr>
      (Some ''f'') (Some (Kvtree [Kvtree_elem (Some ''a'') None])) = Some (os1, KVTREE_SUCCESS) \<and>
    kvtree_print_main Big_endian crc_ieee (\<lambda>argv. ([Mode_option ''keyval''], drop 3 argv)) os1 [''kvtree_print'', ''-m'', ''keyval'', ''f''] = Some (os2, 0, out) \<and>
    kvtree_print_mode (Some u) 0 KVTREE_PRINT_KEYVAL = Some (KVTREE_SUCCESS, out) \<and> kvtree_wf u \<and>
    kvtree_paths u = kvtree_paths (Kvtree [Kvtree_elem (Some ''a'') None])"
  by (rule print_tool_shows [where mode = "Some ''keyval''" and opts = "[Mode_option ''keyval'']"])
    (simp_all add: crc_ieee_ok kvtree_wf.simps kvtree_paths.simps kvtree_persist_size_def file_consts calm_def print_mode_of_def)

end
