(* ===== verification/Spec2Isabelle.thy ===== *)
theory Spec2Isabelle
  imports KV_ParRead KV_Scatter KV_HeapRun KV_Print
begin

text \<open>
  KVTree is a C library for trees of key/value pairs: a tree (\<open>struct kvtree_struct\<close>) is a linked
  list of elements, an element has a key, which is a string, and a pointer to another tree. Trees
  are built and read through keys, sorted, packed into buffers, stored in files, and moved between
  the processes of an MPI job. This development models its functions as they are written and
  proves what they compute.

  \<^bold>\<open>Theories and the code they model\<close>

  \<^item> \<open>KV_Prelude\<close>: machine types, return codes, facts on lists, and the dictionary interface
    \<open>kv_dict\<close>: what a client may assume of lookup, update and removal.
  \<^item> \<open>KV_Tree\<close> (\<open>src/kvtree.c\<close>, \<open>src/kvtree.h\<close>, \<open>src/queue.h\<close>): trees as a nested datatype, NULL
    as \<open>None\<close>, one definition per function from \<open>kvtree_elem_new\<close> to \<open>kvtree_merge\<close> and the key/value
    functions. A pointer into a tree is the path of keys that leads to it; writing through it is
    \<open>kvtree_assign\<close>. The invariant \<open>kvtree_wf\<close> (distinct keys, no NULL key, at every level) is kept by
    every operation, and \<open>kv_dict\<close> is interpreted on get, set and unset.
  \<^item> \<open>KV_Paths\<close>: the abstraction of a tree to the set of its key paths, and what merge, set, unset
    and the key/value functions do to that set.
  \<^item> \<open>KV_Heap\<close>, \<open>KV_HeapRun\<close> (\<open>src/kvtree.h\<close>, \<open>src/queue.h\<close>, and the same functions of \<open>src/kvtree.c\<close> again): the tree
    in memory. A structure is a cell at an address, the list macros are the assignments they expand to, allocation and release are
    explicit. \<open>heap_tree\<close> says that a tree with addresses is laid out in memory with all links right, \<open>changes\<close> which cells a
    function may touch; the functions on pointers compute the functions on values of \<open>KV_Tree\<close>.
  \<^item> \<open>KV_Cnum\<close>: the number formats of the C library the sources use, printing and parsing, with
    the interface \<open>value_codec\<close> for their round trips.
  \<^item> \<open>KV_Format\<close> (\<open>kvtree_setf\<close>, \<open>kvtree_getf\<close> and the integer variants of \<open>src/kvtree.c\<close>): the two
    token loops, shown equal to a recursion over the key path.
  \<^item> \<open>KV_Util\<close> (\<open>src/kvtree_util.c\<close>): the typed setters and getters; the interfaces \<open>kv_field\<close> and
    \<open>setf_field\<close> state their contract once, and each type is an interpretation.
  \<^item> \<open>KV_Sort\<close> (\<open>kvtree_sort\<close>, \<open>kvtree_sort_int\<close>, \<open>kvtree_list_int\<close>): \<open>qsort\<close> with the comparison
    functions of the code; \<open>comparator\<close> is what \<open>qsort\<close> needs of them.
  \<^item> \<open>KV_Helpers\<close> (\<open>src/kvtree_helpers.c\<close>, \<open>src/kvtree_byteswap.h\<close>): packing integers in network order
    on hosts of either byte order; the interface \<open>wire\<close> with its three interpretations.
  \<^item> \<open>KV_Pack\<close> (\<open>kvtree_pack_size\<close>, \<open>kvtree_pack\<close>, \<open>kvtree_unpack\<close>): packing a tree in place in a
    buffer.
  \<^item> \<open>KV_OS\<close> (\<open>src/kvtree_io.c\<close>): the state of the operating system as a record and the file
    functions over its system calls, with their retry loops.
  \<^item> \<open>KV_File\<close> (\<open>kvtree_persist_size\<close> to \<open>kvtree_write_close_unlock\<close> of \<open>src/kvtree.c\<close>): the file format,
    reading and writing, and access under a lock.

  \<^item> \<open>KV_Print\<close> (\<open>kvtree_print\<close>, \<open>kvtree_log\<close>, \<open>src/kvtree_err.c\<close>, \<open>src/kvtree_print.c\<close>): the text of printed and logged trees and
    of messages, and the command line tool that prints a file.

  \<^item> \<open>KV_Keys\<close>: what the clients that index trees by numbers share: ranks as keys, merging below
    \<open><key>/<int>\<close>, and the packed size as a sum over the key paths.
  \<^item> \<open>KV_Gather\<close>, \<open>KV_Scatter\<close> (\<open>kvtree_write_to_gather\<close>, \<open>kvtree_read_scatter_single\<close> of \<open>src/kvtree.c\<close>): the data
    of all ranks split over part files with a map file, and the reader that finds the parts in
    the directory.
  \<^item> \<open>KV_Proc\<close>: the processes of an MPI job. The program of a rank is a tree of calls of the communication
    library; \<open>mpi_step\<close> is the step relation of a job, whose runs are all interleavings. The locale
    \<open>diamond\<close> and its interpretation show that a job has one outcome.
  \<^item> \<open>KV_MPI\<close> (\<open>src/kvtree_mpi.c\<close>): sending, receiving, broadcasting and exchanging trees, as programs of a
    rank; \<open>KV_Exchange\<close>: the log-step exchange delivers.
  \<^item> \<open>KV_Writers\<close> (\<open>pick_writer\<close>, \<open>kvtree_alltrue\<close> of \<open>src/kvtree_mpi_io.c\<close>): the segmented scan that chooses
    the ranks that write.
  \<^item> \<open>KV_ParIO\<close> (\<open>kvtree_write_gather\<close>, \<open>kvtree_read_scatter\<close> and their map functions): the ranks send their data
    to writers, the writers store part files, and the names of the parts are gathered level by level into
    map files up to a single one, which the reader follows downwards. A rank threads the state of the
    operating system as it sees it. \<open>KV_Levels\<close>: the sizes of the records in a map, and that every level has
    fewer writers than the one below. \<open>KV_ParWrite\<close>: what every rank leaves in its files. \<open>KV_ParRead\<close>: what the files
    of the job hold together (\<open>settled\<close>, \<open>stored\<close>) and the reader's way through the levels.

  \<^bold>\<open>What is proved\<close>

  A tree behaves as a finite map under any sequence of updates; merge computes the union of the
  key paths. In memory, any sequence of updates at any place of a tree touches only allocated cells, keeps the doubly linked lists
  right, leaks nothing, and is undone exactly by \<open>kvtree_delete\<close>; merging copies, so the trees share no cell. The traversals by format write and read exactly the path they name and, with arguments of the
  right types, abort exactly on a token that is none of nine directives or prints 1024 characters or more. The typed fields return what was stored, for all values of their
  types, except that a double is rounded to six decimals; sorting permutes and orders, by integer values
  where no two differ by more than \<open>INT_MAX\<close>. What is printed determines
  the tree, and the command line tool prints what a file holds. Packing stays inside the buffer exactly when the computed size
  fits, and unpacking on a host of any byte order gives a well-formed tree with the same key paths. The retry
  loops transfer everything or report an error for every sequence of interruptions, short
  transfers and failures. A file written with success holds exactly the specified image, reading it
  merges the tree, and a file with another header is refused with the tree unchanged, an empty one
  told apart by its return value. Gathered files are
  read back with exactly the data of all ranks, for every positive number of entries per file and in
  a directory without other files of that name, and the writer returns whatever the system calls do. In a job, for every interleaving and with or without buffering, sending
  and receiving, broadcasting and exchanging trees end with success on every rank and deliver exactly
  what was sent; the scan over the sizes ends and agrees with the direct definition of the groups. Writing in
  parallel ends on all ranks with the same value whatever the system calls do, and what a job has written a
  job of as many ranks reads back, each rank its own data.
  Printing stays inside its buffer exactly for trees of limited depth. Five theorems show where the code does not do what it should: the integer comparison overflows, so that two keys more than \<open>2 ^ 31\<close>
  apart are put in the wrong order, unpacking reads past the end of every buffer that was cut short,
  a failed lock is taken for an open descriptor, gathering with no entries per file never ends, and
  one size on all ranks that divides a segment leaves rank 0 as the only writer.

  \<^bold>\<open>Choices\<close>

  \<^item> Strings are lists of characters without NUL (\<open>is_cstring\<close>). An \<open>int\<close> is an integer with its range
    stated or wrapped with \<open>to_int32\<close>; unsigned values and buffers are words and lists of bytes.
  \<^item> An access outside an allocation and a call of \<open>kvtree_abort\<close> are \<open>None\<close>, or a value of
    \<open>kv_error\<close> in \<open>KV_Format\<close>. Messages printed on the way are left out.
  \<^item> Fuel is used in one place: the recursion over the levels of map files takes a bound \<open>levels\<close>. The number of ranks is
    enough, because every level has fewer writers than the one below, and the theorems on parallel
    files assume only \<open>n \<le> levels\<close>. The loop of \<open>kvtree_unpack\<close> ends because it consumes the buffer, the
    retry loops because each interruption consumes an entry of the script of the operating system,
    which is finite but arbitrary. The loop of \<open>kvtree_write_to_gather\<close> may not end and is a partial function,
    whose value \<open>None\<close> stands for not returning; \<open>empty_round\<close> shows that it is not an abort.
  \<^item> One \<open>read\<close> or \<open>write\<close> transfers at most \<open>MAX_RW_COUNT\<close> bytes, as Linux documents. \<open>kvtree_read_attempt\<close> narrows
    the result of \<open>read\<close> to an \<open>int\<close>, and the model does too; this limit is what makes it harmless.
  \<^item> Where the code counts the elements of one list in an \<open>int\<close> (\<open>kvtree_size\<close>, \<open>kvtree_unpack\<close>), the model counts
    without a bound: above \<open>INT_MAX\<close> elements of one list the code has an overflow that C leaves undefined.
  \<^item> A missing or mistyped variable argument is undefined in C; the model marks it with \<open>Bad_vararg\<close>, and no
    theorem says what the code does with it.
  \<^item> The MPI library is the step relation with the parameters \<open>eager\<close> (whether a send is buffered) and \<open>red\<close> (the
    results of collective calls, with \<open>mpi_collectives\<close> for what the standard promises). Loops that double
    a distance in an \<open>int\<close> abort on overflow, which does not happen up to \<open>2 ^ 30\<close> ranks.
    \<open>MPI_PROC_NULL\<close> is a number that is no rank.
  \<^item> The value of \<open>KVTREE_ENTRIES_PER_FILE\<close>, the directory listing and \<open>regcomp\<close> are parameters; \<open>lists_directory\<close> and
    \<open>matches_parts\<close> are what the round trip needs of them.
  \<^item> The ranks of a job share the files, and no two ranks write the same one, so each rank has its own view of
    them; \<open>settled\<close> is what the file system holds when all have written. The bounds of \<open>small_job\<close> (packed
    sizes and 300 bytes a rank below \<open>2 ^ 31\<close>) keep every message within an \<open>int\<close>, and a prefix below 900
    characters keeps the file names inside their buffers of 1024.
  \<^item> Sizes of trees are natural numbers. A tree that fits in memory packs into fewer bytes than it
    occupies, so \<open>size_t\<close> does not wrap; where a file is written its size below \<open>2 ^ 63\<close> is a hypothesis.
  \<^item> \<open>malloc\<close> is a parameter that returns an address where nothing is allocated and arbitrary contents; the theorems assume that memory
    does not run out (\<open>malloc_ok\<close>). A loop over a list in memory is a partial function, \<open>None\<close> when it does not end; the theorems
    show that it ends on the trees the library builds. \<open>strtod\<close>, \<open>getopt_long\<close> and the host name are parameters too.
  \<^item> \<open>crc32\<close> of zlib is a parameter. The theorems assume that it looks only at the bytes it is given
    and returns 32 bits; \<open>crc_ieee\<close> is a function for which both hold.

  \<^bold>\<open>Not modelled\<close>

  The debugger display (\<open>src/tv_data_display.c\<close> is the code of a vendor, and \<open>TV_ttf_display_type\<close> of \<open>src/kvtree.c\<close> only calls
  it), the list macros of \<open>src/queue.h\<close> that no source uses, \<open>kvtree_read_persist\<close> (disabled with \<open>#if 0\<close>), and the messages in
  the functions other than those of \<open>KV_Print\<close>, which have no effect but text. Sorting and packing are modelled on values, not again in memory.
\<close>

end
